(* ===== verification/Relay_Error.thy ===== *)
theory Relay_Error
  imports Prelude
begin

text \<open>
  \<open>src/error.rs\<close>: the error type of every fallible operation, the JSON body an error is
  rendered to (\<open>into_response\<close>) and its HTTP status (\<open>status_code\<close>).
\<close>

section \<open>Errors\<close>

datatype enigma_relay_error =
    InvalidInput string
  | RateLimited
  | Duplicate
  | QuotaExceeded
  | NotFound
  | StorageError string
  | Config string
  | Tls string
  | Disabled string
  | Internal string

type_synonym 'a result = "enigma_relay_error + 'a"

text \<open>
  \<open>ErrorBody.details\<close> is an optional JSON value that every branch leaves empty; it is
  kept as an optional rendered string.
\<close>

record error_body =
  eb_code :: string
  eb_message :: string
  eb_details :: "string option"

record error_response =
  er_error :: error_body

definition err_body :: "string \<Rightarrow> string \<Rightarrow> error_response" where
  "err_body c m = \<lparr>er_error = \<lparr>eb_code = c, eb_message = m, eb_details = None\<rparr>\<rparr>"

fun into_response :: "enigma_relay_error \<Rightarrow> error_response" where
  "into_response (InvalidInput msg) = err_body ''invalid_input'' msg"
| "into_response RateLimited = err_body ''rate_limited'' ''rate limit exceeded''"
| "into_response Duplicate = err_body ''duplicate'' ''duplicate message''"
| "into_response QuotaExceeded = err_body ''quota_exceeded'' ''recipient quota exceeded''"
| "into_response NotFound = err_body ''not_found'' ''not found''"
| "into_response (StorageError msg) = err_body ''storage_error'' msg"
| "into_response (Config msg) = err_body ''config_error'' msg"
| "into_response (Tls msg) = err_body ''tls_error'' msg"
| "into_response (Disabled msg) = err_body ''feature_disabled'' msg"
| "into_response (Internal msg) = err_body ''internal_error'' msg"

fun status_code :: "enigma_relay_error \<Rightarrow> nat" where
  "status_code (InvalidInput _) = 400"
| "status_code RateLimited = 429"
| "status_code Duplicate = 200"
| "status_code QuotaExceeded = 409"
| "status_code NotFound = 404"
| "status_code (StorageError _) = 503"
| "status_code (Config _) = 400"
| "status_code (Tls _) = 500"
| "status_code (Disabled _) = 503"
| "status_code (Internal _) = 500"

text \<open>\<open>#[error("...")]\<close>: the \<open>Display\<close> text of an error.\<close>

fun error_display :: "enigma_relay_error \<Rightarrow> string" where
  "error_display (InvalidInput msg) = ''invalid input: '' @ msg"
| "error_display RateLimited = ''rate limited''"
| "error_display Duplicate = ''duplicate''"
| "error_display QuotaExceeded = ''quota exceeded''"
| "error_display NotFound = ''not found''"
| "error_display (StorageError msg) = ''storage error: '' @ msg"
| "error_display (Config msg) = ''config error: '' @ msg"
| "error_display (Tls msg) = ''tls error: '' @ msg"
| "error_display (Disabled msg) = ''feature disabled: '' @ msg"
| "error_display (Internal msg) = ''internal error: '' @ msg"

text \<open>\<open>error_response\<close>: the status line and the body of the HTTP answer.\<close>

definition error_reply :: "enigma_relay_error \<Rightarrow> nat \<times> error_response" where
  "error_reply e = (status_code e, into_response e)"

text \<open>The three \<open>From\<close> conversions the \<open>?\<close> operator uses, on the foreign error's text.\<close>

definition from_json_error :: "string \<Rightarrow> enigma_relay_error" where
  "from_json_error t = Internal t"

definition from_io_error :: "string \<Rightarrow> enigma_relay_error" where
  "from_io_error t = Internal t"

definition from_sled_error :: "string \<Rightarrow> enigma_relay_error" where
  "from_sled_error t = StorageError t"

section \<open>Properties\<close>

text \<open>
  A client can tell every kind of error apart from the body alone: two errors with the
  same rendered body are the same error, message included.
\<close>

theorem into_response_inj: "into_response a = into_response b \<longleftrightarrow> a = b"
  by (cases a; cases b) (simp_all add: err_body_def)

end
