(* ===== verification/Relay_Model.thy ===== *)
theory Relay_Model
  imports Relay_Error
begin

text \<open>
  \<open>src/model.rs\<close>: the bodies of the HTTP requests and responses. For \<open>PushResponse\<close>, whose
  serde attributes leave fields out, the JSON object it is rendered to and read back from.
\<close>

section \<open>Requests and responses\<close>

record message_meta =
  mm_kind :: string
  mm_total_len :: u64
  mm_chunk_index :: u32
  mm_chunk_count :: u32
  mm_sent_ms :: u64

record push_request =
  pq_recipient :: string
  pq_message_id :: uuid
  pq_ciphertext_b64 :: string
  pq_meta :: message_meta

record push_response =
  pp_stored :: bool
  pp_duplicate :: bool
  pp_queue_len :: "u64 option"
  pp_queue_bytes :: "u64 option"

record pull_request =
  lq_recipient :: string
  lq_cursor :: "string option"
  lq_max :: "u64 option"

record delivery_item =
  di_recipient :: string
  di_message_id :: uuid
  di_ciphertext_b64 :: string
  di_meta :: message_meta
  di_arrival_ms :: u64
  di_deadline_ms :: u64

record pull_response =
  lp_items :: "delivery_item list"
  lp_next_cursor :: "string option"
  lp_remaining_estimate :: u64

record ack_entry =
  ae_message_id :: uuid
  ae_chunk_index :: u32

record ack_request =
  aq_recipient :: string
  aq_ack :: "ack_entry list"

record ack_response =
  ap_deleted :: u64
  ap_missing :: u64
  ap_remaining :: u64

section \<open>JSON of a push response\<close>

datatype json = JNull | JBool bool | JNum u64 | JStr string | JArr "json list"
  | JObj "(string \<times> json) list"

definition is_false :: "bool \<Rightarrow> bool" where
  "is_false value \<longleftrightarrow> \<not> value"

text \<open>
  Fields in declaration order; \<open>duplicate\<close> is left out when \<open>is_false\<close>, the two queue
  figures when they are absent.
\<close>

definition push_response_to_json :: "push_response \<Rightarrow> json" where
  "push_response_to_json r = JObj
     ([(''stored'', JBool (pp_stored r))]
      @ (if is_false (pp_duplicate r) then [] else [(''duplicate'', JBool (pp_duplicate r))])
      @ (case pp_queue_len r of None \<Rightarrow> [] | Some n \<Rightarrow> [(''queue_len'', JNum n)])
      @ (case pp_queue_bytes r of None \<Rightarrow> [] | Some n \<Rightarrow> [(''queue_bytes'', JNum n)]))"

fun json_bool :: "json \<Rightarrow> bool option" where
  "json_bool (JBool b) = Some b"
| "json_bool _ = None"

text \<open>An optional number: absent and \<open>null\<close> are both \<open>None\<close>.\<close>

fun json_opt_num :: "json option \<Rightarrow> u64 option option" where
  "json_opt_num None = Some None"
| "json_opt_num (Some JNull) = Some None"
| "json_opt_num (Some (JNum n)) = Some (Some n)"
| "json_opt_num _ = None"

text \<open>
  Reading it back: \<open>stored\<close> is required, \<open>duplicate\<close> has a default, a repeated field is
  an error, an unknown one is ignored.
\<close>

definition push_response_fields :: "string list" where
  "push_response_fields = [''stored'', ''duplicate'', ''queue_len'', ''queue_bytes'']"

definition push_response_from_json :: "json \<Rightarrow> push_response option" where
  "push_response_from_json j =
     (case j of
        JObj fs \<Rightarrow>
          if \<not> distinct (filter (\<lambda>k. k \<in> set push_response_fields) (map fst fs)) then None
          else
            (case map_of fs ''stored'' of
               None \<Rightarrow> None
             | Some sj \<Rightarrow>
                 (case (json_bool sj,
                        (case map_of fs ''duplicate'' of None \<Rightarrow> Some False | Some d \<Rightarrow> json_bool d),
                        json_opt_num (map_of fs ''queue_len''),
                        json_opt_num (map_of fs ''queue_bytes'')) of
                    (Some s, Some d, Some n, Some b) \<Rightarrow>
                      Some \<lparr>pp_stored = s, pp_duplicate = d, pp_queue_len = n, pp_queue_bytes = b\<rparr>
                  | _ \<Rightarrow> None))
      | _ \<Rightarrow> None)"

text \<open>
  A client that parses the rendered push response gets the response back: leaving out
  \<open>duplicate\<close> when it is false and the queue figures when they are absent loses nothing.
\<close>

theorem push_response_roundtrip:
  "push_response_from_json (push_response_to_json r) = Some r"
  by (cases r)
    (auto simp: push_response_from_json_def push_response_to_json_def is_false_def
      push_response_fields_def split: option.splits)

end
