(* ===== verification/Rust_Text.thy ===== *)
theory Rust_Text
  imports Prelude "HOL-Library.Char_ord" "HOL-Library.List_Lexorder"
begin

text \<open>
  The part of Rust's string library the relay uses, on UTF-8 bytes: \<open>String::from_utf8\<close>,
  \<open>String::from_utf8_lossy\<close>, \<open>str::trim\<close>, \<open>str::split(':')\<close> and
  \<open>str::splitn(2, ':')\<close>, the formats \<open>{}\<close>, \<open>{:020}\<close> and \<open>{:010}\<close> of unsigned
  integers, and \<open>str::parse::<u64>\<close>. The lemmas are the round trips and the order facts
  the cursor and the storage keys rest on.
\<close>

section \<open>UTF-8\<close>

text \<open>
  \<open>utf8_head\<close> reads the first character of a non-empty byte string: whether it is well
  formed, and how many bytes it, or the maximal ill-formed part in its place, takes. A byte
  past the end reads as 0, as in the decoder of \<open>core::str\<close>.
\<close>

definition byte_at :: "string \<Rightarrow> nat \<Rightarrow> nat" where
  "byte_at s i = (if i < length s then of_char (s ! i) else 0)"

definition is_cont :: "nat \<Rightarrow> bool" where
  "is_cont b \<longleftrightarrow> 128 \<le> b \<and> b \<le> 191"

definition utf8_width :: "nat \<Rightarrow> nat" where
  "utf8_width b =
     (if b < 128 then 1
      else if 194 \<le> b \<and> b \<le> 223 then 2
      else if 224 \<le> b \<and> b \<le> 239 then 3
      else if 240 \<le> b \<and> b \<le> 244 then 4
      else 0)"

definition second_ok :: "nat \<Rightarrow> nat \<Rightarrow> bool" where
  "second_ok b0 b1 \<longleftrightarrow>
     (if b0 = 224 then 160 \<le> b1 \<and> b1 \<le> 191
      else if b0 = 237 then 128 \<le> b1 \<and> b1 \<le> 159
      else if b0 = 240 then 144 \<le> b1 \<and> b1 \<le> 191
      else if b0 = 244 then 128 \<le> b1 \<and> b1 \<le> 143
      else is_cont b1)"

definition utf8_head :: "string \<Rightarrow> bool \<times> nat" where
  "utf8_head s =
     (let w = utf8_width (byte_at s 0) in
      if w = 1 then (True, 1)
      else if w = 0 \<or> \<not> second_ok (byte_at s 0) (byte_at s 1) then (False, 1)
      else if w = 2 then (True, 2)
      else if \<not> is_cont (byte_at s 2) then (False, 2)
      else if w = 3 then (True, 3)
      else if \<not> is_cont (byte_at s 3) then (False, 3)
      else (True, 4))"

lemma utf8_head_pos: "utf8_head s = (ok, n) \<Longrightarrow> 0 < n"
  by (auto simp: utf8_head_def Let_def split: if_splits)

function utf8_chunks :: "string \<Rightarrow> (bool \<times> string) list" where
  "utf8_chunks s =
     (if s = [] then []
      else (case utf8_head s of (ok, n) \<Rightarrow> (ok, take n s) # utf8_chunks (drop n s)))"
  by pat_completeness auto
termination
  by (relation "measure length") (auto dest: utf8_head_pos [OF sym])

declare utf8_chunks.simps [simp del]

definition utf8_valid :: "string \<Rightarrow> bool" where
  "utf8_valid s \<longleftrightarrow> list_all fst (utf8_chunks s)"

definition from_utf8 :: "bytes \<Rightarrow> string option" where
  "from_utf8 b = (if utf8_valid b then Some b else None)"

definition replacement_char :: string where
  "replacement_char = [CHR 0xEF, CHR 0xBF, CHR 0xBD]"

definition from_utf8_lossy :: "bytes \<Rightarrow> string" where
  "from_utf8_lossy b =
     concat (map (\<lambda>(ok, c). if ok then c else replacement_char) (utf8_chunks b))"

lemma utf8_chunks_Nil [simp]: "utf8_chunks [] = []"
  by (simp add: utf8_chunks.simps)

lemma utf8_head_length:
  assumes "utf8_head s = (True, n)" and "s \<noteq> []"
  shows "n \<le> length s"
proof -
  have "1 \<le> length s"
    using assms(2) by (cases s) auto
  with assms show ?thesis
    by (auto simp: utf8_head_def Let_def byte_at_def second_ok_def is_cont_def
        split: if_splits)
qed

lemma byte_at_append: "i < length s \<Longrightarrow> byte_at (s @ t) i = byte_at s i"
  by (simp add: byte_at_def nth_append)

lemma utf8_head_append:
  assumes "utf8_head s = (True, n)" and "s \<noteq> []"
  shows "utf8_head (s @ t) = (True, n)"
proof -
  have n: "n \<le> length s"
    using assms by (rule utf8_head_length)
  have b: "byte_at (s @ t) i = byte_at s i" if "i < n" for i
    using that n by (simp add: byte_at_append)
  show ?thesis
    using assms(1) n b [of 0] b [of 1] b [of 2] b [of 3] \<open>s \<noteq> []\<close>
    by (auto simp: utf8_head_def Let_def split: if_splits)
qed

lemma utf8_chunks_append:
  "utf8_valid s \<Longrightarrow> utf8_chunks (s @ t) = utf8_chunks s @ utf8_chunks t"
proof (induction s rule: utf8_chunks.induct)
  case (1 s)
  show ?case
  proof (cases "s = []")
    case False
    obtain ok n where h: "utf8_head s = (ok, n)" by fastforce
    have ok: "ok" and rest: "utf8_valid (drop n s)"
      using "1.prems" False h by (auto simp: utf8_valid_def utf8_chunks.simps [of s])
    have le: "n \<le> length s"
      using h ok False utf8_head_length [of s n] by simp
    have ha: "utf8_head (s @ t) = (True, n)"
      using h ok False utf8_head_append [of s n t] by simp
    have "utf8_chunks (drop n s @ t) = utf8_chunks (drop n s) @ utf8_chunks t"
      using "1.IH" [OF False h [symmetric] rest] .
    with False h ok le ha show ?thesis
      by (simp add: utf8_chunks.simps [of "s @ t"] utf8_chunks.simps [of s])
  qed simp
qed

lemma utf8_valid_append: "utf8_valid s \<Longrightarrow> utf8_valid t \<Longrightarrow> utf8_valid (s @ t)"
  by (simp add: utf8_valid_def [of "s @ t"] utf8_chunks_append) (simp add: utf8_valid_def)

definition ascii_char :: "char \<Rightarrow> bool" where
  "ascii_char c \<longleftrightarrow> of_char c < (128 :: nat)"

lemma utf8_valid_ascii: "list_all ascii_char s \<Longrightarrow> utf8_valid s"
proof (induction s)
  case (Cons c s)
  have "utf8_head (c # s) = (True, 1)"
    using Cons.prems by (simp add: utf8_head_def byte_at_def utf8_width_def ascii_char_def)
  with Cons show ?case
    by (simp add: utf8_valid_def utf8_chunks.simps [of "c # s"])
qed (simp add: utf8_valid_def)

lemma concat_utf8_chunks: "concat (map snd (utf8_chunks s)) = s"
proof (induction s rule: utf8_chunks.induct)
  case (1 s)
  then show ?case
    by (cases "utf8_head s") (auto simp: utf8_chunks.simps [of s])
qed

lemma from_utf8_lossy_valid: "utf8_valid s \<Longrightarrow> from_utf8_lossy s = s"
proof -
  assume "utf8_valid s"
  then have eq: "map (\<lambda>(ok, c). if ok then c else replacement_char) (utf8_chunks s)
      = map snd (utf8_chunks s)"
    by (auto simp: utf8_valid_def list_all_iff)
  show ?thesis
    unfolding from_utf8_lossy_def eq by (rule concat_utf8_chunks)
qed

section \<open>Trimming\<close>

text \<open>
  \<open>is_ws_enc e\<close>: the bytes \<open>e\<close> are the encoding of one character with the Unicode
  property \<open>White_Space\<close> (U+0009 to U+000D, U+0020, U+0085, U+00A0, U+1680, U+2000 to
  U+200A, U+2028, U+2029, U+202F, U+205F, U+3000). \<open>str_trim\<close> drops such characters at both
  ends, as \<open>str::trim\<close> does.
\<close>

definition is_ws_enc :: "string \<Rightarrow> bool" where
  "is_ws_enc e \<longleftrightarrow>
     (case map (of_char :: char \<Rightarrow> nat) e of
        [a] \<Rightarrow> (9 \<le> a \<and> a \<le> 13) \<or> a = 32
      | [a, b] \<Rightarrow> a = 0xC2 \<and> (b = 0x85 \<or> b = 0xA0)
      | [a, b, c] \<Rightarrow>
          (a = 0xE1 \<and> b = 0x9A \<and> c = 0x80)
          \<or> (a = 0xE2 \<and> b = 0x80 \<and>
             ((0x80 \<le> c \<and> c \<le> 0x8A) \<or> c = 0xA8 \<or> c = 0xA9 \<or> c = 0xAF))
          \<or> (a = 0xE2 \<and> b = 0x81 \<and> c = 0x9F)
          \<or> (a = 0xE3 \<and> b = 0x80 \<and> c = 0x80)
      | _ \<Rightarrow> False)"

definition ws_prefix :: "string \<Rightarrow> nat" where
  "ws_prefix s =
     (if is_ws_enc (take 1 s) then 1
      else if is_ws_enc (take 2 s) then 2
      else if is_ws_enc (take 3 s) then 3
      else 0)"

definition ws_suffix :: "string \<Rightarrow> nat" where
  "ws_suffix s =
     (if is_ws_enc (drop (length s - 1) s) then 1
      else if is_ws_enc (drop (length s - 2) s) then 2
      else if is_ws_enc (drop (length s - 3) s) then 3
      else 0)"

lemma is_ws_enc_Nil [simp]: "\<not> is_ws_enc []"
  by (simp add: is_ws_enc_def)

function trim_start :: "string \<Rightarrow> string" where
  "trim_start s =
     (if s = [] \<or> ws_prefix s = 0 then s else trim_start (drop (ws_prefix s) s))"
  by pat_completeness auto
termination
  by (relation "measure length") auto

function trim_end :: "string \<Rightarrow> string" where
  "trim_end s =
     (if s = [] \<or> ws_suffix s = 0 then s
      else trim_end (take (length s - ws_suffix s) s))"
  by pat_completeness auto
termination
  by (relation "measure length") auto

declare trim_start.simps [simp del] trim_end.simps [simp del]

definition str_trim :: "string \<Rightarrow> string" where
  "str_trim s = trim_end (trim_start s)"

section \<open>Splitting\<close>

fun str_split :: "char \<Rightarrow> string \<Rightarrow> string list" where
  "str_split c [] = [[]]"
| "str_split c (x # xs) =
     (if x = c then [] # str_split c xs
      else (case str_split c xs of
              [] \<Rightarrow> [[x]]
            | p # ps \<Rightarrow> (x # p) # ps))"

definition splitn_2 :: "char \<Rightarrow> string \<Rightarrow> string list" where
  "splitn_2 c s =
     (case dropWhile (\<lambda>x. x \<noteq> c) s of
        [] \<Rightarrow> [s]
      | _ # t \<Rightarrow> [takeWhile (\<lambda>x. x \<noteq> c) s, t])"

lemma str_split_ne [simp]: "str_split c s \<noteq> []"
  by (cases s) (auto split: list.splits)

lemma str_split_none: "c \<notin> set s \<Longrightarrow> str_split c s = [s]"
  by (induction s) auto

lemma str_split_append: "c \<notin> set a \<Longrightarrow> str_split c (a @ c # b) = a # str_split c b"
  by (induction a) auto

lemma splitn_2_append: "c \<notin> set a \<Longrightarrow> splitn_2 c (a @ c # b) = [a, b]"
proof -
  assume c: "c \<notin> set a"
  then have "dropWhile (\<lambda>x. x \<noteq> c) (a @ c # b) = c # b"
    by (subst dropWhile_append2) auto
  moreover from c have "takeWhile (\<lambda>x. x \<noteq> c) (a @ c # b) = a"
    by (subst takeWhile_append2) auto
  ultimately show ?thesis by (simp add: splitn_2_def)
qed

section \<open>Decimal numbers\<close>

definition digit :: "nat \<Rightarrow> char" where
  "digit d = char_of (48 + d)"

definition digit_val :: "char \<Rightarrow> nat option" where
  "digit_val c =
     (let n = of_char c in if 48 \<le> n \<and> n \<le> 57 then Some (n - 48) else None)"

fun dec :: "nat \<Rightarrow> string" where
  "dec n = (if n < 10 then [digit n] else dec (n div 10) @ [digit (n mod 10)])"

declare dec.simps [simp del]

text \<open>\<open>{:0w}\<close>: at least \<open>w\<close> digits, padded with zeros on the left.\<close>

definition fmt_pad :: "nat \<Rightarrow> nat \<Rightarrow> string" where
  "fmt_pad w n = replicate (w - length (dec n)) (CHR ''0'') @ dec n"

fun parse_digits :: "nat \<Rightarrow> string \<Rightarrow> nat option" where
  "parse_digits acc [] = Some acc"
| "parse_digits acc (c # cs) =
     (case digit_val c of
        None \<Rightarrow> None
      | Some d \<Rightarrow>
          if acc * 10 + d < 2 ^ 64 then parse_digits (acc * 10 + d) cs else None)"

definition parse_u64 :: "string \<Rightarrow> u64 option" where
  "parse_u64 s =
     (case s of
        [] \<Rightarrow> None
      | c # cs \<Rightarrow>
          map_option word_of_nat
            (if c = CHR ''+'' then (if cs = [] then None else parse_digits 0 cs)
             else parse_digits 0 s))"

text \<open>Exactly \<open>w\<close> digits: what a padded number is once it fits its width.\<close>

fun digs :: "nat \<Rightarrow> nat \<Rightarrow> string" where
  "digs 0 n = []"
| "digs (Suc w) n = digs w (n div 10) @ [digit (n mod 10)]"

lemma length_digs [simp]: "length (digs w n) = w"
  by (induction w arbitrary: n) auto

lemma digit_0: "digit 0 = CHR ''0''"
  by code_simp

lemma of_char_digit: "d < 10 \<Longrightarrow> of_char (digit d) = (48 + d :: nat)"
  by (simp add: digit_def)

lemma digit_val_digit [simp]: "d < 10 \<Longrightarrow> digit_val (digit d) = Some d"
  by (simp add: digit_val_def of_char_digit)

lemma digit_less_iff: "a < 10 \<Longrightarrow> b < 10 \<Longrightarrow> digit a < digit b \<longleftrightarrow> a < b"
  by (simp add: less_char_def of_char_digit)

lemma digit_eq_iff: "a < 10 \<Longrightarrow> b < 10 \<Longrightarrow> digit a = digit b \<longleftrightarrow> a = b"
  by (metis digit_val_digit option.inject)

lemma digit_val_not_digit [simp]:
  "digit_val (CHR '':'') = None" "digit_val (CHR ''+'') = None"
  by code_simp+

lemma digit_not_sep [simp]:
  assumes "d < 10"
  shows "digit d \<noteq> CHR '':''" and "digit d \<noteq> CHR ''+''"
    and "CHR '':'' \<noteq> digit d" and "CHR ''+'' \<noteq> digit d"
proof -
  have "digit d \<noteq> c" if "digit_val c = None" for c
    using that assms by auto
  from this [OF digit_val_not_digit(1)] this [OF digit_val_not_digit(2)]
  show "digit d \<noteq> CHR '':''" and "digit d \<noteq> CHR ''+''"
    and "CHR '':'' \<noteq> digit d" and "CHR ''+'' \<noteq> digit d"
    by (simp_all only: not_sym not_False_eq_True)
qed

lemma ascii_digit: "d < 10 \<Longrightarrow> ascii_char (digit d)"
  by (simp add: ascii_char_def of_char_digit)

lemma digs_zero: "digs w 0 = replicate w (CHR ''0'')"
  by (induction w) (auto simp: digit_0 replicate_append_same)

lemma digs_no_sep: "CHR '':'' \<notin> set (digs w n)"
  by (induction w arbitrary: n) auto

lemma digs_no_plus: "CHR ''+'' \<notin> set (digs w n)"
  by (induction w arbitrary: n) auto

lemma digs_ascii: "list_all ascii_char (digs w n)"
  by (induction w arbitrary: n) (auto simp: ascii_digit)

lemma length_dec_pos: "0 < length (dec n)"
  by (subst dec.simps) simp

lemma fmt_pad_Suc:
  "10 \<le> n \<Longrightarrow> fmt_pad (Suc w) n = fmt_pad w (n div 10) @ [digit (n mod 10)]"
  by (simp add: fmt_pad_def dec.simps [of n])

lemma fmt_pad_digs: "n < 10 ^ w \<Longrightarrow> 0 < w \<Longrightarrow> fmt_pad w n = digs w n"
proof (induction w arbitrary: n)
  case (Suc w)
  show ?case
  proof (cases "n < 10")
    case True
    then show ?thesis
      by (simp add: fmt_pad_def dec.simps [of n] digs_zero)
  next
    case False
    then have "w \<noteq> 0" using Suc.prems by (cases w) auto
    moreover have "n div 10 < 10 ^ w" using Suc.prems by auto
    ultimately show ?thesis
      using False Suc.IH [of "n div 10"] by (simp add: fmt_pad_Suc)
  qed
qed simp

lemma fmt_pad_u64: "fmt_pad 20 (unat (n :: u64)) = digs 20 (unat n)"
proof (rule fmt_pad_digs)
  have "unat n < 2 ^ 64" using unat_lt_pow [of n] by simp
  then show "unat n < 10 ^ 20" by simp
qed simp

lemma fmt_pad_u32: "fmt_pad 10 (unat (n :: u32)) = digs 10 (unat n)"
proof (rule fmt_pad_digs)
  have "unat n < 2 ^ 32" using unat_lt_pow [of n] by simp
  then show "unat n < 10 ^ 10" by simp
qed simp

lemma parse_digits_append:
  "parse_digits acc (a @ b) =
     (case parse_digits acc a of None \<Rightarrow> None | Some m \<Rightarrow> parse_digits m b)"
  by (induction a arbitrary: acc) (auto split: option.splits)

lemma parse_digits_digs:
  "n < 10 ^ w \<Longrightarrow> n < 2 ^ 64 \<Longrightarrow> parse_digits 0 (digs w n) = Some n"
proof (induction w arbitrary: n)
  case (Suc w)
  have "parse_digits 0 (digs w (n div 10)) = Some (n div 10)"
    using Suc.prems by (intro Suc.IH) auto
  moreover have "n div 10 * 10 + n mod 10 = n" by simp
  ultimately show ?case
    using Suc.prems(2) by (simp add: parse_digits_append)
qed simp

lemma parse_u64_digs: "parse_u64 (digs 20 (unat n)) = Some n"
proof -
  have lt: "unat n < 2 ^ 64" using unat_lt_pow [of n] by simp
  obtain c cs where d: "digs 20 (unat n) = c # cs"
    using length_digs [of 20 "unat n"] by (cases "digs 20 (unat n)") auto
  have "c \<noteq> CHR ''+''"
    using digs_no_plus [of 20 "unat n"] d by auto
  moreover have "parse_digits 0 (c # cs) = Some (unat n)"
    unfolding d [symmetric] using lt by (intro parse_digits_digs) auto
  ultimately show ?thesis
    by (simp add: parse_u64_def d del: parse_digits.simps)
qed

lemma parse_digits_bad: "c \<in> set s \<Longrightarrow> digit_val c = None \<Longrightarrow> parse_digits acc s = None"
  by (induction s arbitrary: acc) (auto split: option.splits)

lemma parse_u64_sep: "CHR '':'' \<in> set s \<Longrightarrow> parse_u64 s = None"
  by (cases s) (auto simp: parse_u64_def parse_digits_bad split: option.splits)

section \<open>Lexicographic order\<close>

lemma append_less_iff:
  "length a = length b \<Longrightarrow> a @ x < b @ y \<longleftrightarrow> a < b \<or> (a = b \<and> x < y)"
  for a b :: "'a::linorder list"
  by (induction a b rule: list_induct2) auto

lemma prefix_less_iff: "p @ x < p @ y \<longleftrightarrow> x < y" for p :: "'a::linorder list"
  by (induction p) auto

lemma less_div_mod: "m < n \<longleftrightarrow> m div 10 < n div 10 \<or> (m div 10 = n div 10 \<and> m mod 10 < n mod 10)"
  for m n :: nat
proof -
  have "m = 10 * (m div 10) + m mod 10" "n = 10 * (n div 10) + n mod 10"
    "m mod 10 < 10" "n mod 10 < 10"
    by simp_all
  then show ?thesis
    by (cases "m div 10" "n div 10" rule: linorder_cases) linarith+
qed

lemma digs_less_iff:
  "m < 10 ^ w \<Longrightarrow> n < 10 ^ w \<Longrightarrow> digs w m < digs w n \<longleftrightarrow> m < n"
proof (induction w arbitrary: m n)
  case (Suc w)
  let ?a = "m div 10" and ?b = "n div 10"
  have lt: "?a < 10 ^ w" "?b < 10 ^ w"
    using Suc.prems by auto
  have ih: "digs w ?a < digs w ?b \<longleftrightarrow> ?a < ?b" "digs w ?b < digs w ?a \<longleftrightarrow> ?b < ?a"
    using Suc.IH lt by blast+
  then have eq: "digs w ?a = digs w ?b \<longleftrightarrow> ?a = ?b"
    by (cases ?a ?b rule: linorder_cases) auto
  show ?case
    by (simp only: digs.simps append_less_iff length_digs ih(1) eq less_div_mod [of m n])
      (simp add: digit_less_iff)
qed simp

lemma digs_inj: "m < 10 ^ w \<Longrightarrow> n < 10 ^ w \<Longrightarrow> digs w m = digs w n \<Longrightarrow> m = n"
  using digs_less_iff [of m w n] digs_less_iff [of n w m]
  by (cases m n rule: linorder_cases) auto

end
