(* ===== verification/Relay_Config.thy ===== *)
theory Relay_Config
  imports Relay_Error Rust_Text
begin

text \<open>
  \<open>src/config.rs\<close> and the feature flags of \<open>Cargo.toml\<close>: the configuration records with
  their defaults, what the serde attributes make of a file that leaves tables out, and
  \<open>RelayConfig::validate\<close> and \<open>RelayConfig::load\<close>. Reading a file and parsing TOML are
  outside the repository; they are the parameters \<open>read_file\<close> and \<open>parse_toml\<close> of
  \<open>config_load\<close>.
\<close>

section \<open>Feature flags\<close>

text \<open>Each field is one \<open>#[cfg(feature = "...")]\<close> switch of the build.\<close>

record features =
  feat_http :: bool
  feat_tls :: bool
  feat_mtls :: bool
  feat_persistence :: bool
  feat_metrics :: bool

definition default_features :: features where
  "default_features =
     \<lparr>feat_http = True, feat_tls = False, feat_mtls = False, feat_persistence = True,
      feat_metrics = False\<rparr>"

section \<open>Configuration records\<close>

datatype relay_mode = Http | TlsMode

datatype storage_kind = Sled | Memory

record tls_config =
  tc_cert_pem_path :: string
  tc_key_pem_path :: string
  tc_client_ca_pem_path :: "string option"

record storage_config =
  sc_kind :: storage_kind
  sc_path :: string

record relay_limits =
  max_message_bytes :: u64
  max_queue_bytes_per_user :: u64
  max_messages_per_user :: u64
  message_ttl_seconds :: u64
  gc_interval_seconds :: u64
  pull_batch_max :: u64

record endpoint_rate_limit =
  push_rps :: u32
  pull_rps :: u32
  ack_rps :: u32

record rate_limit_config =
  rl_enabled :: bool
  per_ip_rps :: u32
  rl_burst :: u32
  rl_ban_seconds :: u64
  rl_endpoints :: endpoint_rate_limit

record relay_config =
  cfg_address :: string
  cfg_mode :: relay_mode
  cfg_tls :: "tls_config option"
  cfg_storage :: storage_config
  cfg_relay :: relay_limits
  cfg_rate_limit :: rate_limit_config

definition storage_default :: storage_config where
  "storage_default = \<lparr>sc_kind = Sled, sc_path = ''./relay_db''\<rparr>"

definition limits_default :: relay_limits where
  "limits_default =
     \<lparr>max_message_bytes = 8388608, max_queue_bytes_per_user = 1073741824,
      max_messages_per_user = 200000, message_ttl_seconds = 14 * 24 * 3600,
      gc_interval_seconds = 60, pull_batch_max = 256\<rparr>"

definition endpoints_default :: endpoint_rate_limit where
  "endpoints_default = \<lparr>push_rps = 10, pull_rps = 5, ack_rps = 10\<rparr>"

definition rate_limit_default :: rate_limit_config where
  "rate_limit_default =
     \<lparr>rl_enabled = True, per_ip_rps = 20, rl_burst = 40, rl_ban_seconds = 300,
      rl_endpoints = endpoints_default\<rparr>"

definition config_default :: relay_config where
  "config_default =
     \<lparr>cfg_address = ''127.0.0.1:0'', cfg_mode = Http, cfg_tls = None,
      cfg_storage = storage_default, cfg_relay = limits_default,
      cfg_rate_limit = rate_limit_default\<rparr>"

section \<open>Deserialisation defaults\<close>

text \<open>
  A parsed file: a field with a \<open>#[serde(default)]\<close> attribute may be absent.
  \<open>fill_defaults\<close> is what the derived \<open>Deserialize\<close> puts in its place.
\<close>

record raw_rate_limit =
  raw_enabled :: bool
  raw_per_ip_rps :: u32
  raw_burst :: u32
  raw_ban_seconds :: u64
  raw_endpoints :: "endpoint_rate_limit option"

record raw_config =
  raw_address :: string
  raw_mode :: "relay_mode option"
  raw_tls :: "tls_config option"
  raw_storage :: "storage_config option"
  raw_relay :: "relay_limits option"
  raw_rate_limit :: "raw_rate_limit option"

definition default_mode :: relay_mode where
  "default_mode = Http"

definition opt_or :: "'a \<Rightarrow> 'a option \<Rightarrow> 'a" where
  "opt_or d x = (case x of None \<Rightarrow> d | Some y \<Rightarrow> y)"

lemma opt_or_simps [simp]: "opt_or d None = d" "opt_or d (Some y) = y"
  by (simp_all add: opt_or_def)

definition fill_rate_limit :: "raw_rate_limit \<Rightarrow> rate_limit_config" where
  "fill_rate_limit r =
     \<lparr>rl_enabled = raw_enabled r, per_ip_rps = raw_per_ip_rps r, rl_burst = raw_burst r,
      rl_ban_seconds = raw_ban_seconds r,
      rl_endpoints = opt_or endpoints_default (raw_endpoints r)\<rparr>"

definition fill_defaults :: "raw_config \<Rightarrow> relay_config" where
  "fill_defaults r =
     \<lparr>cfg_address = raw_address r,
      cfg_mode = opt_or default_mode (raw_mode r),
      cfg_tls = raw_tls r,
      cfg_storage = opt_or storage_default (raw_storage r),
      cfg_relay = opt_or limits_default (raw_relay r),
      cfg_rate_limit = opt_or rate_limit_default (map_option fill_rate_limit (raw_rate_limit r))\<rparr>"

section \<open>Validation\<close>

definition validate :: "features \<Rightarrow> relay_config \<Rightarrow> unit result" where
  "validate F c =
     (let r = cfg_relay c; l = cfg_rate_limit c; e = rl_endpoints l in
      if str_trim (cfg_address c) = [] then Inl (Config ''address is required'')
      else if cfg_mode c = TlsMode \<and> cfg_tls c = None
        then Inl (Config ''tls mode requires tls config'')
      else if cfg_mode c = TlsMode \<and> \<not> feat_tls F
        then Inl (Disabled ''tls feature not enabled'')
      else if max_message_bytes r = 0
        then Inl (Config ''max_message_bytes must be positive'')
      else if max_queue_bytes_per_user r = 0
        then Inl (Config ''max_queue_bytes_per_user must be positive'')
      else if max_messages_per_user r = 0
        then Inl (Config ''max_messages_per_user must be positive'')
      else if pull_batch_max r = 0
        then Inl (Config ''pull_batch_max must be positive'')
      else if gc_interval_seconds r = 0
        then Inl (Config ''gc_interval_seconds must be positive'')
      else if rl_enabled l \<and> per_ip_rps l = 0
        then Inl (Config ''rate_limit.per_ip_rps must be positive'')
      else if rl_enabled l \<and> rl_burst l = 0
        then Inl (Config ''rate_limit.burst must be positive'')
      else if rl_enabled l \<and> (push_rps e = 0 \<or> pull_rps e = 0 \<or> ack_rps e = 0)
        then Inl (Config ''endpoint rate limits must be positive'')
      else if sc_kind (cfg_storage c) = Sled \<and> \<not> feat_persistence F
        then Inl (Disabled ''persistence feature not enabled'')
      else Inr ())"

definition config_load ::
  "features \<Rightarrow> (string \<Rightarrow> string + string) \<Rightarrow> (string \<Rightarrow> string + raw_config) \<Rightarrow> string
     \<Rightarrow> relay_config result" where
  "config_load F read_file parse_toml path =
     res_bind (map_err Config (read_file path)) (\<lambda>raw.
     res_bind (map_err Config (parse_toml raw)) (\<lambda>r.
     let cfg = fill_defaults r in
     res_bind (validate F cfg) (\<lambda>_. Inr cfg)))"

section \<open>Properties\<close>

text \<open>What a configuration has to satisfy, as one predicate.\<close>

definition positive_limits :: "relay_limits \<Rightarrow> bool" where
  "positive_limits r \<longleftrightarrow>
     0 < max_message_bytes r \<and> 0 < max_queue_bytes_per_user r \<and> 0 < max_messages_per_user r
     \<and> 0 < pull_batch_max r \<and> 0 < gc_interval_seconds r"

definition positive_rates :: "rate_limit_config \<Rightarrow> bool" where
  "positive_rates l \<longleftrightarrow>
     0 < per_ip_rps l \<and> 0 < rl_burst l \<and> 0 < push_rps (rl_endpoints l)
     \<and> 0 < pull_rps (rl_endpoints l) \<and> 0 < ack_rps (rl_endpoints l)"

definition config_ok :: "features \<Rightarrow> relay_config \<Rightarrow> bool" where
  "config_ok F c \<longleftrightarrow>
     str_trim (cfg_address c) \<noteq> []
     \<and> (cfg_mode c = TlsMode \<longrightarrow> cfg_tls c \<noteq> None \<and> feat_tls F)
     \<and> positive_limits (cfg_relay c)
     \<and> (rl_enabled (cfg_rate_limit c) \<longrightarrow> positive_rates (cfg_rate_limit c))
     \<and> (sc_kind (cfg_storage c) = Sled \<longrightarrow> feat_persistence F)"

lemma validate_Inr: "validate F c = Inr () \<longleftrightarrow> config_ok F c"
  unfolding validate_def Let_def guard_Inr_iff
  by (simp add: config_ok_def positive_limits_def positive_rates_def word_gt_0) blast

lemma validate_Inl:
  "validate F c = Inl e \<Longrightarrow> (\<exists>m. e = Config m) \<or> (\<exists>m. e = Disabled m)"
  unfolding validate_def Let_def
  by (drule guard_Inl_imp, erule disjE, blast)+ simp

text \<open>
  C37. \<open>validate\<close> accepts exactly the configurations with a non-blank address, a TLS table
  and TLS support when the mode is TLS, positive limits, positive rates when rate limiting
  is on, and persistence support when the storage is sled.
\<close>

theorem validate_iff_ok: "validate F c = Inr () \<longleftrightarrow> config_ok F c"
  by (rule validate_Inr)

text \<open>
  C38. A configuration that \<open>load\<close> returns is the file's contents with the defaults filled
  in and has passed validation; every failure to read, to parse or to validate is an error
  the client sees as 400 or 503.
\<close>

theorem config_load_sound:
  "case config_load F read_file parse_toml path of
     Inr c \<Rightarrow> config_ok F c \<and>
       (\<exists>raw r. read_file path = Inr raw \<and> parse_toml raw = Inr r \<and> c = fill_defaults r)
   | Inl e \<Rightarrow> status_code e = 400 \<or> status_code e = 503"
proof (cases "config_load F read_file parse_toml path")
  case (Inl e)
  then have "(\<exists>m. e = Config m) \<or> (\<exists>c. validate F c = Inl e)"
    by (auto simp: config_load_def Let_def res_bind_Inl_iff map_err_def split: sum.splits)
  with Inl show ?thesis
    by (auto dest: validate_Inl)
next
  case (Inr c)
  then obtain raw r where "read_file path = Inr raw" "parse_toml raw = Inr r"
      "c = fill_defaults r" "config_ok F c"
    by (auto simp: config_load_def Let_def res_bind_Inr_iff map_err_def validate_Inr
        split: sum.splits)
  with Inr show ?thesis by simp
qed

text \<open>
  The default configuration, and with it an empty file that names an address only,
  passes validation in the default build.
\<close>

theorem default_config_valid:
  "validate default_features config_default = Inr () \<and>
   fill_defaults \<lparr>raw_address = ''127.0.0.1:0'', raw_mode = None, raw_tls = None,
     raw_storage = None, raw_relay = None, raw_rate_limit = None\<rparr> = config_default"
proof -
  have "str_trim ''127.0.0.1:0'' = ''127.0.0.1:0''"
    by code_simp
  then show ?thesis
    by (simp add: validate_def config_default_def default_features_def limits_default_def
        rate_limit_default_def endpoints_default_def fill_defaults_def default_mode_def Let_def)
qed

end
