(* ===== verification/Relay_Store.thy ===== *)
theory Relay_Store
  imports Relay_Model Relay_Config
begin

text \<open>
  \<open>src/store.rs\<close>: the messages, results and cursors of the storage interface, and the
  interface itself (the trait \<open>RelayStore\<close>) as a record of operations that take and
  return the state of the store. The base64 engine is outside the repository: \<open>externals\<close>
  holds its two functions, and the locale \<open>cursor_codec\<close> states what the code relies on.
\<close>

section \<open>Messages and results\<close>

record inbound_message =
  im_recipient :: string
  im_message_id :: uuid
  im_ciphertext_b64 :: string
  im_meta :: message_meta
  im_payload_bytes :: u64
  im_arrival_ms :: u64
  im_deadline_ms :: u64

record queue_message =
  qm_recipient :: string
  qm_message_id :: uuid
  qm_ciphertext_b64 :: string
  qm_meta :: message_meta
  qm_arrival_ms :: u64
  qm_deadline_ms :: u64
  qm_payload_bytes :: u64
  qm_arrival_seq :: u64

record push_result =
  ps_stored :: bool
  ps_duplicate :: bool
  ps_queue_len :: u64
  ps_queue_bytes :: u64

record pull_batch =
  pb_items :: "queue_message list"
  pb_next_cursor :: "string option"
  pb_remaining_estimate :: u64

record ack_outcome =
  ao_deleted :: u64
  ao_missing :: u64
  ao_remaining :: u64

definition ack_outcome_default :: ack_outcome where
  "ack_outcome_default = \<lparr>ao_deleted = 0, ao_missing = 0, ao_remaining = 0\<rparr>"

record ack_item =
  ai_message_id :: uuid
  ai_chunk_index :: u32

text \<open>The key a message is stored and acknowledged under.\<close>

type_synonym dedup_key = "uuid \<times> u32"

definition inbound_key :: "inbound_message \<Rightarrow> dedup_key" where
  "inbound_key m = (im_message_id m, mm_chunk_index (im_meta m))"

definition msg_key :: "queue_message \<Rightarrow> dedup_key" where
  "msg_key m = (qm_message_id m, mm_chunk_index (qm_meta m))"

definition ack_key :: "ack_item \<Rightarrow> dedup_key" where
  "ack_key a = (ai_message_id a, ai_chunk_index a)"

lemma ack_key_inj: "ack_key a = ack_key b \<longleftrightarrow> a = b"
  by (auto simp: ack_key_def)

lemma inj_ack_key: "inj_on ack_key A"
  by (auto simp: inj_on_def ack_key_inj)

text \<open>The stored form of an inbound message, the same literal in both backends.\<close>

definition stored_message :: "inbound_message \<Rightarrow> u64 \<Rightarrow> queue_message" where
  "stored_message msg arrival_seq =
     \<lparr>qm_recipient = im_recipient msg, qm_message_id = im_message_id msg,
      qm_ciphertext_b64 = im_ciphertext_b64 msg, qm_meta = im_meta msg,
      qm_arrival_ms = im_arrival_ms msg, qm_deadline_ms = im_deadline_ms msg,
      qm_payload_bytes = im_payload_bytes msg, qm_arrival_seq = arrival_seq\<rparr>"

lemma stored_message_sel [simp]:
  "qm_recipient (stored_message m n) = im_recipient m"
  "qm_message_id (stored_message m n) = im_message_id m"
  "qm_ciphertext_b64 (stored_message m n) = im_ciphertext_b64 m"
  "qm_meta (stored_message m n) = im_meta m"
  "qm_arrival_ms (stored_message m n) = im_arrival_ms m"
  "qm_deadline_ms (stored_message m n) = im_deadline_ms m"
  "qm_payload_bytes (stored_message m n) = im_payload_bytes m"
  "qm_arrival_seq (stored_message m n) = n"
  "msg_key (stored_message m n) = inbound_key m"
  by (simp_all add: stored_message_def msg_key_def inbound_key_def)

section \<open>Cursors\<close>

record externals =
  b64_encode :: "bytes \<Rightarrow> string"
  b64_decode :: "string \<Rightarrow> bytes option"

definition encode_cursor :: "'x externals_scheme \<Rightarrow> string \<Rightarrow> u64 \<Rightarrow> string" where
  "encode_cursor E recipient arrival_seq =
     b64_encode E (recipient @ '':'' @ fmt_pad 20 (unat arrival_seq))"

definition invalid_cursor :: enigma_relay_error where
  "invalid_cursor = InvalidInput ''invalid cursor''"

definition decode_cursor :: "'x externals_scheme \<Rightarrow> string \<Rightarrow> (string \<times> u64) result" where
  "decode_cursor E cursor =
     res_bind (ok_or invalid_cursor (b64_decode E cursor)) (\<lambda>decoded.
     res_bind (ok_or invalid_cursor (from_utf8 decoded)) (\<lambda>text.
     case splitn_2 (CHR '':'') text of
       recipient # seq # _ \<Rightarrow>
         res_bind (ok_or invalid_cursor (parse_u64 seq)) (\<lambda>arrival_seq.
         Inr (recipient, arrival_seq))
     | _ \<Rightarrow> Inl invalid_cursor))"

text \<open>What both backends make of the optional cursor of a pull for \<open>recipient\<close>.\<close>

definition resolve_cursor ::
  "'x externals_scheme \<Rightarrow> string \<Rightarrow> string option \<Rightarrow> u64 option result" where
  "resolve_cursor E recipient cursor =
     (case cursor of
        None \<Rightarrow> Inr None
      | Some raw \<Rightarrow>
          res_bind (decode_cursor E raw) (\<lambda>(recip, seq).
            if recip \<noteq> recipient then Inl (InvalidInput ''cursor recipient mismatch'')
            else Inr (Some seq)))"

text \<open>
  A recipient that the text formats of cursors and keys can carry: valid UTF-8, as every
  Rust string is, and free of the separator.
\<close>

definition addressable :: "string \<Rightarrow> bool" where
  "addressable r \<longleftrightarrow> utf8_valid r \<and> CHR '':'' \<notin> set r"

locale cursor_codec =
  fixes E :: "'x externals_scheme"
  assumes b64_roundtrip: "b64_decode E (b64_encode E b) = Some b"
begin

lemma decode_encode_cursor:
  assumes "utf8_valid r"
  shows "decode_cursor E (encode_cursor E r n) =
    (if CHR '':'' \<in> set r then Inl invalid_cursor else Inr (r, n))"
proof -
  let ?t = "r @ '':'' @ digs 20 (unat n)"
  have v: "utf8_valid ?t"
  proof (rule utf8_valid_append [OF assms utf8_valid_ascii])
    show "list_all ascii_char ('':'' @ digs 20 (unat n))"
      using digs_ascii by (simp add: ascii_char_def)
  qed
  have utf: "from_utf8 ?t = Some ?t"
    using v by (simp add: from_utf8_def)
  show ?thesis
  proof (cases "CHR '':'' \<in> set r")
    case False
    then have "splitn_2 (CHR '':'') ?t = [r, digs 20 (unat n)]"
      using splitn_2_append [of "CHR '':''" r] by simp
    with False utf show ?thesis
      by (simp add: decode_cursor_def encode_cursor_def b64_roundtrip fmt_pad_u64 parse_u64_digs)
  next
    case True
    then obtain a b where r: "r = a @ CHR '':'' # b" and a: "CHR '':'' \<notin> set a"
      by (auto dest: split_list_first)
    have "splitn_2 (CHR '':'') ?t = [a, b @ '':'' @ digs 20 (unat n)]"
      using splitn_2_append [OF a] by (simp add: r)
    moreover have "parse_u64 (b @ '':'' @ digs 20 (unat n)) = None"
      by (rule parse_u64_sep) simp
    ultimately show ?thesis
      using True utf
      by (simp add: decode_cursor_def encode_cursor_def b64_roundtrip fmt_pad_u64)
  qed
qed

lemma resolve_own_cursor:
  "addressable r \<Longrightarrow> resolve_cursor E r (Some (encode_cursor E r n)) = Inr (Some n)"
  by (simp add: resolve_cursor_def decode_encode_cursor addressable_def)

lemma resolve_foreign_cursor:
  "addressable q \<Longrightarrow> q \<noteq> r \<Longrightarrow>
     resolve_cursor E r (Some (encode_cursor E q n))
       = Inl (InvalidInput ''cursor recipient mismatch'')"
  by (simp add: resolve_cursor_def decode_encode_cursor addressable_def)

end

section \<open>The storage interface\<close>

text \<open>
  The trait \<open>RelayStore\<close>: each operation takes the state of the store and returns its
  result and the state it leaves, on errors too.
\<close>

record 's store_ops =
  op_push :: "'s \<Rightarrow> inbound_message \<Rightarrow> relay_limits \<Rightarrow> push_result result \<times> 's"
  op_pull :: "'s \<Rightarrow> string \<Rightarrow> string option \<Rightarrow> u64 \<Rightarrow> u64 \<Rightarrow> pull_batch result \<times> 's"
  op_ack :: "'s \<Rightarrow> string \<Rightarrow> ack_item list \<Rightarrow> ack_outcome result \<times> 's"
  op_purge :: "'s \<Rightarrow> u64 \<Rightarrow> usize \<Rightarrow> usize result \<times> 's"

end
