(* ===== verification/Sled_Keys.thy ===== *)
theory Sled_Keys
  imports Relay_Store
begin

text \<open>
  The keys and integers of \<open>src/store_sled.rs\<close>: the byte strings under which messages,
  index entries, quotas and counters are stored, the sequence number read back from a message
  key, and the big-endian form of a counter. The text of a UUID comes from the \<open>uuid\<close>
  crate and the values of the trees from \<open>serde_json\<close>; both are parameters, the record
  \<open>sled_codecs\<close>, with the laws the code relies on in the locales \<open>uuid_format\<close> and
  \<open>sled_codec\<close>.
\<close>

section \<open>Definitions\<close>

record quota_value =
  qv_bytes :: u64
  qv_count :: u64

definition quota_default :: quota_value where
  "quota_default = \<lparr>qv_bytes = 0, qv_count = 0\<rparr>"

record sled_codecs =
  uuid_text :: "uuid \<Rightarrow> string"
  msg_to_vec :: "queue_message \<Rightarrow> string + bytes"
  msg_from_slice :: "bytes \<Rightarrow> string + queue_message"
  quota_to_vec :: "quota_value \<Rightarrow> string + bytes"
  quota_from_slice :: "bytes \<Rightarrow> string + quota_value"

definition message_prefix :: "string \<Rightarrow> bytes" where
  "message_prefix recipient = ''msg:'' @ recipient @ '':''"

definition message_key :: "'c sled_codecs_scheme \<Rightarrow> string \<Rightarrow> u64 \<Rightarrow> uuid \<Rightarrow> u32 \<Rightarrow> bytes" where
  "message_key C recipient arrival_seq message_id chunk_index =
     message_prefix recipient @ fmt_pad 20 (unat arrival_seq) @ '':''
       @ uuid_text C message_id @ '':'' @ fmt_pad 10 (unat chunk_index)"

definition index_key :: "'c sled_codecs_scheme \<Rightarrow> string \<Rightarrow> uuid \<Rightarrow> u32 \<Rightarrow> bytes" where
  "index_key C recipient message_id chunk_index =
     ''idx:'' @ recipient @ '':'' @ uuid_text C message_id @ '':'' @ fmt_pad 10 (unat chunk_index)"

definition quota_key :: "string \<Rightarrow> bytes" where
  "quota_key recipient = ''quota:'' @ recipient"

definition seq_key :: "string \<Rightarrow> bytes" where
  "seq_key recipient = ''seq:'' @ recipient"

definition parse_seq_from_key :: "bytes \<Rightarrow> u64 option result" where
  "parse_seq_from_key key =
     (case str_split (CHR '':'') (from_utf8_lossy key) of
        kind # parts \<Rightarrow>
          if kind \<noteq> ''msg'' then Inr None
          else
            (case parts of
               recipient # seq_txt # _ \<Rightarrow>
                 res_bind (ok_or (Internal ''invalid key'') (parse_u64 seq_txt)) (\<lambda>seq. Inr (Some seq))
             | _ \<Rightarrow> Inr None)
      | [] \<Rightarrow> Inr None)"

fun be_bytes :: "nat \<Rightarrow> nat \<Rightarrow> bytes" where
  "be_bytes 0 n = []"
| "be_bytes (Suc w) n = be_bytes w (n div 256) @ [char_of n]"

definition encode_u64 :: "u64 \<Rightarrow> bytes" where
  "encode_u64 value = be_bytes 8 (unat value)"

definition decode_u64 :: "bytes \<Rightarrow> u64 result" where
  "decode_u64 b =
     (if length b \<noteq> 8 then Inl (Internal ''invalid integer'')
      else Inr (word_of_nat (foldl (\<lambda>a c. a * 256 + of_char c) 0 b)))"

section \<open>Integers\<close>

lemma length_be_bytes [simp]: "length (be_bytes w n) = w"
  by (induction w arbitrary: n) auto

lemma be_bytes_value: "foldl (\<lambda>a c. a * 256 + of_char c) 0 (be_bytes w n) = n mod 256 ^ w"
proof (induction w arbitrary: n)
  case (Suc w)
  have "n mod (256 * 256 ^ w) = 256 * (n div 256 mod 256 ^ w) + n mod 256"
    by (rule mod_mult2_eq)
  with Suc show ?case by simp
qed simp

lemma decode_encode_u64 [simp]: "decode_u64 (encode_u64 v) = Inr v"
proof -
  have "unat v < 256 ^ 8" using unat_lt_pow [of v] by simp
  then show ?thesis
    by (simp add: decode_u64_def encode_u64_def be_bytes_value)
qed

lemma encode_u64_eq [simp]: "encode_u64 v = encode_u64 w \<longleftrightarrow> v = w"
  by (metis decode_encode_u64 sum.inject(2))

section \<open>Keys\<close>

text \<open>Texts without the separator can be read off a joined text.\<close>

lemma sep_append_eq:
  "c \<notin> set a \<Longrightarrow> c \<notin> set b \<Longrightarrow> a @ c # x = b @ c # y \<longleftrightarrow> a = b \<and> x = y"
  for c :: char
proof -
  assume ab: "c \<notin> set a" "c \<notin> set b"
  show ?thesis
  proof
    assume "a @ c # x = b @ c # y"
    then have "splitn_2 c (a @ c # x) = splitn_2 c (b @ c # y)" by simp
    with ab show "a = b \<and> x = y" by (simp add: splitn_2_append)
  qed simp
qed

definition has_prefix :: "bytes \<Rightarrow> bytes \<Rightarrow> bool" where
  "has_prefix p k \<longleftrightarrow> take (length p) k = p"

lemma has_prefix_append [simp]: "has_prefix p (p @ x)"
  by (simp add: has_prefix_def)

lemma has_prefixE: "has_prefix p k \<Longrightarrow> (\<And>x. k = p @ x \<Longrightarrow> thesis) \<Longrightarrow> thesis"
  by (metis append_take_drop_id has_prefix_def)

lemma quota_key_eq [simp]: "quota_key r = quota_key q \<longleftrightarrow> r = q"
  by (simp add: quota_key_def)

lemma seq_key_eq [simp]: "seq_key r = seq_key q \<longleftrightarrow> r = q"
  by (simp add: seq_key_def)

lemma addressable_sep: "addressable r \<Longrightarrow> CHR '':'' \<notin> set r"
  by (simp add: addressable_def)

locale uuid_format =
  fixes C :: "'c sled_codecs_scheme"
  assumes uuid_text_inj: "uuid_text C i = uuid_text C j \<longleftrightarrow> i = j"
    and uuid_text_sep: "CHR '':'' \<notin> set (uuid_text C i)"
    and uuid_text_ascii: "list_all ascii_char (uuid_text C i)"
begin

lemma message_key_digs:
  "message_key C r n i c = ''msg:'' @ r @ CHR '':'' # digs 20 (unat n) @ CHR '':''
     # uuid_text C i @ CHR '':'' # digs 10 (unat c)"
  by (simp add: message_key_def message_prefix_def fmt_pad_u64 fmt_pad_u32)

lemma index_key_digs:
  "index_key C r i c = ''idx:'' @ r @ CHR '':'' # uuid_text C i @ CHR '':'' # digs 10 (unat c)"
  by (simp add: index_key_def fmt_pad_u32)

lemma digs_u64_eq: "digs 20 (unat (m :: u64)) = digs 20 (unat n) \<longleftrightarrow> m = n"
proof
  have lt: "unat k < 10 ^ 20" for k :: u64 using unat_lt_pow [of k] by simp
  assume "digs 20 (unat m) = digs 20 (unat n)"
  then have "unat m = unat n" by (rule digs_inj [OF lt lt])
  then show "m = n" by (simp only: word_unat_eq_iff)
qed simp

lemma digs_u32_eq: "digs 10 (unat (m :: u32)) = digs 10 (unat n) \<longleftrightarrow> m = n"
proof
  have lt: "unat k < 10 ^ 10" for k :: u32 using unat_lt_pow [of k] by simp
  assume "digs 10 (unat m) = digs 10 (unat n)"
  then have "unat m = unat n" by (rule digs_inj [OF lt lt])
  then show "m = n" by (simp only: word_unat_eq_iff)
qed simp

lemma message_key_eq:
  assumes "addressable r" and "addressable q"
  shows "message_key C r m i c = message_key C q n j d \<longleftrightarrow> r = q \<and> m = n \<and> i = j \<and> c = d"
  unfolding message_key_digs append_same_eq same_append_eq
  by (simp add: sep_append_eq assms addressable_sep digs_no_sep uuid_text_sep digs_u64_eq uuid_text_inj digs_u32_eq)

lemma index_key_eq:
  assumes "addressable r" and "addressable q"
  shows "index_key C r i c = index_key C q j d \<longleftrightarrow> r = q \<and> i = j \<and> c = d"
  unfolding index_key_digs append_same_eq same_append_eq
  by (simp add: sep_append_eq assms addressable_sep uuid_text_sep uuid_text_inj digs_u32_eq)

text \<open>Of recipients without a separator, a prefix scan sees the keys of one only.\<close>

lemma message_prefix_key:
  assumes "addressable r" and "addressable q"
  shows "has_prefix (message_prefix r) (message_key C q n i c) \<longleftrightarrow> r = q"
proof
  assume "has_prefix (message_prefix r) (message_key C q n i c)"
  then obtain x where "message_key C q n i c = message_prefix r @ x" by (rule has_prefixE)
  then have "q @ CHR '':'' # digs 20 (unat n) @ CHR '':'' # uuid_text C i @ CHR '':'' # digs 10 (unat c)
      = r @ CHR '':'' # x"
    by (simp add: message_key_digs message_prefix_def)
  then show "r = q"
    using sep_append_eq [of "CHR '':''" q r] assms by (simp add: addressable_sep)
next
  assume "r = q"
  then show "has_prefix (message_prefix r) (message_key C q n i c)"
    by (simp add: message_key_def)
qed

text \<open>The keys of one recipient are ordered by sequence number.\<close>

lemma message_key_less: "m < n \<Longrightarrow> message_key C r m i c < message_key C r n j d"
proof -
  assume "m < n"
  have lt: "unat k < 10 ^ 20" for k :: u64 using unat_lt_pow [of k] by simp
  have "digs 20 (unat m) < digs 20 (unat n)"
    using \<open>m < n\<close> digs_less_iff [OF lt lt, of m n] by (simp add: word_less_nat_alt)
  then have "digs 20 (unat m) @ x < digs 20 (unat n) @ y" for x y
    by (simp add: append_less_iff)
  then show ?thesis
    by (simp only: message_key_def message_prefix_def append_assoc prefix_less_iff fmt_pad_u64)
qed

lemma utf8_valid_tail:
  "utf8_valid r \<Longrightarrow> list_all ascii_char t \<Longrightarrow> utf8_valid (''msg:'' @ r @ t)"
  using utf8_valid_append [OF utf8_valid_ascii utf8_valid_append, of "''msg:''" r t]
  by (simp add: ascii_char_def utf8_valid_ascii)

lemma parse_message_key:
  assumes "addressable r"
  shows "parse_seq_from_key (message_key C r n i c) = Inr (Some n)"
proof -
  let ?t = "CHR '':'' # digs 20 (unat n) @ CHR '':'' # uuid_text C i @ CHR '':'' # digs 10 (unat c)"
  have "list_all ascii_char ?t"
    using digs_ascii uuid_text_ascii by (simp add: ascii_char_def)
  then have "utf8_valid (message_key C r n i c)"
    using assms unfolding message_key_digs by (intro utf8_valid_tail) (simp_all add: addressable_def)
  then have "from_utf8_lossy (message_key C r n i c) = ''msg'' @ CHR '':'' # r @ ?t"
    by (simp add: from_utf8_lossy_valid message_key_digs)
  moreover have "str_split (CHR '':'') (''msg'' @ CHR '':'' # r @ ?t)
      = [''msg'', r, digs 20 (unat n), uuid_text C i, digs 10 (unat c)]"
    using assms
    by (subst str_split_append; simp add: str_split_append str_split_none addressable_sep digs_no_sep uuid_text_sep)
  ultimately show ?thesis
    by (simp add: parse_seq_from_key_def parse_u64_digs)
qed

end

locale sled_codec = uuid_format +
  assumes msg_roundtrip: "\<exists>v. msg_to_vec C m = Inr v \<and> msg_from_slice C v = Inr m"
    and quota_roundtrip: "\<exists>v. quota_to_vec C q = Inr v \<and> quota_from_slice C v = Inr q"

end
