(* ===== verification/Store_Sled.thy ===== *)
theory Store_Sled
  imports Sled_Keys "HOL-Library.AList"
begin

text \<open>
  \<open>src/store_sled.rs\<close>: the persistent backend. The \<open>sled\<close> crate is the parameter
  \<open>T\<close>, a record of the tree operations the code calls, each of which may fail; the locale
  \<open>sled_tree\<close> states what the code relies on when they do not. A transaction over several
  trees is serialisable: the closure acts on the trees as they are, and its writes take effect
  together when it commits and not at all when it aborts. A purge is not a transaction: what it
  has removed when it fails stays removed.
\<close>

section \<open>The tree library\<close>

record 't tree_ops =
  tr_get :: "'t \<Rightarrow> bytes \<Rightarrow> string + bytes option"
  tr_insert :: "bytes \<Rightarrow> bytes \<Rightarrow> 't \<Rightarrow> string + 't"
  tr_remove :: "bytes \<Rightarrow> 't \<Rightarrow> string + 't"
  tr_scan_prefix :: "bytes \<Rightarrow> 't \<Rightarrow> (string + bytes \<times> bytes) list"
  tr_iter :: "'t \<Rightarrow> (string + bytes \<times> bytes) list"
  tr_flush :: "'t \<Rightarrow> string + 't"
  tr_commit :: "'t list \<Rightarrow> string + unit"

record 't sled_store =
  ss_messages :: 't
  ss_index :: 't
  ss_quota :: 't
  ss_seq :: 't

definition sled_new ::
  "(string \<Rightarrow> string + 'db) \<Rightarrow> ('db \<Rightarrow> string \<Rightarrow> string + 't) \<Rightarrow> string \<Rightarrow> 't sled_store result" where
  "sled_new open_db open_tree path =
     res_bind (map_err from_sled_error (open_db path)) (\<lambda>db.
     res_bind (map_err from_sled_error (open_tree db ''messages'')) (\<lambda>messages.
     res_bind (map_err from_sled_error (open_tree db ''index'')) (\<lambda>index.
     res_bind (map_err from_sled_error (open_tree db ''quota'')) (\<lambda>quota.
     res_bind (map_err from_sled_error (open_tree db ''seq'')) (\<lambda>seq.
     Inr \<lparr>ss_messages = messages, ss_index = index, ss_quota = quota, ss_seq = seq\<rparr>)))))"

definition sled_gc_batch_limit :: usize where
  "sled_gc_batch_limit = 1024"

section \<open>Transactions\<close>

datatype tx_error = Abort enigma_relay_error | Storage string

type_synonym 'a tx = "tx_error + 'a"

definition tx_get :: "('t, 'x) tree_ops_scheme \<Rightarrow> 't \<Rightarrow> bytes \<Rightarrow> bytes option tx" where
  "tx_get T t k = map_err Storage (tr_get T t k)"

definition tx_insert :: "('t, 'x) tree_ops_scheme \<Rightarrow> bytes \<Rightarrow> bytes \<Rightarrow> 't \<Rightarrow> 't tx" where
  "tx_insert T k v t = map_err Storage (tr_insert T k v t)"

definition tx_remove :: "('t, 'x) tree_ops_scheme \<Rightarrow> bytes \<Rightarrow> 't \<Rightarrow> 't tx" where
  "tx_remove T k t = map_err Storage (tr_remove T k t)"

definition abort_json :: "string + 'a \<Rightarrow> 'a tx" where
  "abort_json r = map_err (\<lambda>t. Abort (from_json_error t)) r"

fun tx_result :: "tx_error \<Rightarrow> enigma_relay_error" where
  "tx_result (Abort err) = err"
| "tx_result (Storage err) = from_sled_error err"

text \<open>
  A transaction on the trees \<open>trees s'\<close> selects: the outcome of the run that commits, and the
  store it leaves.
\<close>

definition transaction ::
  "('t, 'x) tree_ops_scheme \<Rightarrow> ('t sled_store \<Rightarrow> 't list) \<Rightarrow> ('t sled_store \<Rightarrow> ('a \<times> 't sled_store) tx)
     \<Rightarrow> 't sled_store \<Rightarrow> 'a result \<times> 't sled_store" where
  "transaction T trees f s =
     (case f s of
        Inl e \<Rightarrow> (Inl (tx_result e), s)
      | Inr (x, s') \<Rightarrow>
          (case tr_commit T (trees s') of
             Inl e \<Rightarrow> (Inl (tx_result (Storage e)), s)
           | Inr _ \<Rightarrow> (Inr x, s')))"

text \<open>
  \<open>flush_async().await?\<close> on the tree that \<open>sel\<close> selects and \<open>upd\<close> replaces: the tree goes on
  as the library leaves it, with more of it on disk; on an error it stays as it was.
\<close>

definition flush_tree ::
  "('t, 'x) tree_ops_scheme \<Rightarrow> ('t sled_store \<Rightarrow> 't) \<Rightarrow> (('t \<Rightarrow> 't) \<Rightarrow> 't sled_store \<Rightarrow> 't sled_store) \<Rightarrow> 't sled_store
     \<Rightarrow> unit result \<times> 't sled_store" where
  "flush_tree T sel upd s =
     (case tr_flush T (sel s) of
        Inl err \<Rightarrow> (Inl (from_sled_error err), s)
      | Inr t \<Rightarrow> (Inr (), upd (\<lambda>_. t) s))"

section \<open>Quotas\<close>

definition read_quota_tree ::
  "('t, 'x) tree_ops_scheme \<Rightarrow> 'c sled_codecs_scheme \<Rightarrow> 't \<Rightarrow> bytes \<Rightarrow> quota_value result" where
  "read_quota_tree T C quota key =
     res_bind (map_err from_sled_error (tr_get T quota key)) (\<lambda>val.
     case val of
       Some v \<Rightarrow> map_err Internal (quota_from_slice C v)
     | None \<Rightarrow> Inr quota_default)"

definition read_quota_latest ::
  "('t, 'x) tree_ops_scheme \<Rightarrow> 'c sled_codecs_scheme \<Rightarrow> 't sled_store \<Rightarrow> string \<Rightarrow> quota_value result" where
  "read_quota_latest T C s recipient = read_quota_tree T C (ss_quota s) (quota_key recipient)"

definition read_quota_tx ::
  "('t, 'x) tree_ops_scheme \<Rightarrow> 'c sled_codecs_scheme \<Rightarrow> 't \<Rightarrow> bytes \<Rightarrow> quota_value tx" where
  "read_quota_tx T C quota key =
     res_bind (tx_get T quota key) (\<lambda>val.
     case val of
       Some v \<Rightarrow> abort_json (quota_from_slice C v)
     | None \<Rightarrow> Inr quota_default)"

section \<open>Push\<close>

definition push_tx ::
  "('t, 'x) tree_ops_scheme \<Rightarrow> 'c sled_codecs_scheme \<Rightarrow> inbound_message \<Rightarrow> relay_limits \<Rightarrow> 't sled_store
     \<Rightarrow> (push_result \<times> 't sled_store) tx" where
  "push_tx T C msg limits s =
     (let idx_key = index_key C (im_recipient msg) (im_message_id msg) (mm_chunk_index (im_meta msg));
          qkey = quota_key (im_recipient msg);
          skey = seq_key (im_recipient msg) in
      res_bind (tx_get T (ss_index s) idx_key) (\<lambda>hit.
      if hit \<noteq> None then
        res_bind (read_quota_tx T C (ss_quota s) qkey) (\<lambda>q.
        Inr (\<lparr>ps_stored = False, ps_duplicate = True, ps_queue_len = qv_count q,
              ps_queue_bytes = qv_bytes q\<rparr>, s))
      else
        res_bind (read_quota_tx T C (ss_quota s) qkey) (\<lambda>q.
        let next_count = sat_add (qv_count q) 1 in
        if max_messages_per_user limits < next_count then Inl (Abort QuotaExceeded)
        else
          let next_bytes = sat_add (qv_bytes q) (im_payload_bytes msg) in
          if max_queue_bytes_per_user limits < next_bytes then Inl (Abort QuotaExceeded)
          else
            res_bind (tx_get T (ss_seq s) skey) (\<lambda>raw.
            res_bind (case raw of None \<Rightarrow> Inr 0 | Some v \<Rightarrow> map_err Abort (decode_u64 v)) (\<lambda>arrival_seq.
            let stored = stored_message msg arrival_seq;
                mkey = message_key C (im_recipient msg) arrival_seq (im_message_id msg)
                  (mm_chunk_index (im_meta msg)) in
            res_bind (abort_json (msg_to_vec C stored)) (\<lambda>data.
            res_bind (tx_insert T mkey data (ss_messages s)) (\<lambda>messages.
            res_bind (tx_insert T idx_key (encode_u64 arrival_seq) (ss_index s)) (\<lambda>index.
            let q' = q\<lparr>qv_count := next_count, qv_bytes := next_bytes\<rparr> in
            res_bind (abort_json (quota_to_vec C q')) (\<lambda>quota_data.
            res_bind (tx_insert T qkey quota_data (ss_quota s)) (\<lambda>quota.
            res_bind (tx_insert T skey (encode_u64 (sat_add arrival_seq 1)) (ss_seq s)) (\<lambda>seq.
            Inr (\<lparr>ps_stored = True, ps_duplicate = False, ps_queue_len = qv_count q',
                  ps_queue_bytes = qv_bytes q'\<rparr>,
                 \<lparr>ss_messages = messages, ss_index = index, ss_quota = quota, ss_seq = seq\<rparr>))))))))))))"

text \<open>
  After the commit the four trees are flushed in turn, the outcome is given when all of them are on
  disk; a failing flush is reported although the message is stored.
\<close>

definition sled_push ::
  "('t, 'x) tree_ops_scheme \<Rightarrow> 'c sled_codecs_scheme \<Rightarrow> 't sled_store \<Rightarrow> inbound_message \<Rightarrow> relay_limits
     \<Rightarrow> push_result result \<times> 't sled_store" where
  "sled_push T C s msg limits =
     st_bind (transaction T (\<lambda>s. [ss_messages s, ss_index s, ss_quota s, ss_seq s]) (push_tx T C msg limits) s) (\<lambda>outcome s.
     st_bind (flush_tree T ss_messages ss_messages_update s) (\<lambda>_ s.
     st_bind (flush_tree T ss_index ss_index_update s) (\<lambda>_ s.
     st_bind (flush_tree T ss_quota ss_quota_update s) (\<lambda>_ s.
     st_bind (flush_tree T ss_seq ss_seq_update s) (\<lambda>_ s. (Inr outcome, s))))))"

section \<open>Pull\<close>

text \<open>The loop over the scanned entries; a failing entry, key or value ends the pull.\<close>

fun sled_scan ::
  "'c sled_codecs_scheme \<Rightarrow> u64 option \<Rightarrow> u64 \<Rightarrow> usize \<Rightarrow> (string + bytes \<times> bytes) list
     \<Rightarrow> queue_message list \<Rightarrow> (queue_message list \<times> bool) result" where
  "sled_scan C start_seq now limit [] items = Inr (items, False)"
| "sled_scan C start_seq now limit (Inl err # rest) items = Inl (from_sled_error err)"
| "sled_scan C start_seq now limit (Inr (key, val) # rest) items =
     res_bind (parse_seq_from_key key) (\<lambda>parsed.
     case parsed of
       None \<Rightarrow> sled_scan C start_seq now limit rest items
     | Some seq \<Rightarrow>
         if (case start_seq of Some start \<Rightarrow> seq \<le> start | None \<Rightarrow> False)
         then sled_scan C start_seq now limit rest items
         else
           res_bind (map_err from_json_error (msg_from_slice C val)) (\<lambda>msg.
           if qm_deadline_ms msg \<le> now then sled_scan C start_seq now limit rest items
           else if length items < limit then sled_scan C start_seq now limit rest (items @ [msg])
           else Inr (items, True)))"

definition sled_pull ::
  "'e externals_scheme \<Rightarrow> ('t, 'x) tree_ops_scheme \<Rightarrow> 'c sled_codecs_scheme \<Rightarrow> 't sled_store \<Rightarrow> string
     \<Rightarrow> string option \<Rightarrow> u64 \<Rightarrow> u64 \<Rightarrow> pull_batch result \<times> 't sled_store" where
  "sled_pull E T C s recipient cursor limit now =
     (res_bind (resolve_cursor E recipient cursor) (\<lambda>start_seq.
      let limit_usize = unat (min limit 4294967295) in
      res_bind (sled_scan C start_seq now limit_usize
          (tr_scan_prefix T (message_prefix recipient) (ss_messages s)) []) (\<lambda>(items, more_left).
      let next_cursor =
        (if more_left \<and> items \<noteq> [] then Some (encode_cursor E recipient (qm_arrival_seq (last items))) else None) in
      res_bind (read_quota_latest T C s recipient) (\<lambda>q.
      Inr \<lparr>pb_items = items, pb_next_cursor = next_cursor,
           pb_remaining_estimate = sat_sub (qv_count q) (word_of_nat (length items))\<rparr>))), s)"

section \<open>Acknowledge\<close>

text \<open>One turn of the loop over the set of items, on the trees, the quota and the outcome.\<close>

definition sled_ack_one ::
  "('t, 'x) tree_ops_scheme \<Rightarrow> 'c sled_codecs_scheme \<Rightarrow> string \<Rightarrow> ack_item
     \<Rightarrow> 't sled_store \<times> quota_value \<times> ack_outcome \<Rightarrow> ('t sled_store \<times> quota_value \<times> ack_outcome) tx" where
  "sled_ack_one T C recipient a st =
     (case st of (s, q, outcome) \<Rightarrow>
        let ikey = index_key C recipient (ai_message_id a) (ai_chunk_index a) in
        res_bind (tx_get T (ss_index s) ikey) (\<lambda>hit.
        case hit of
          None \<Rightarrow> Inr (s, q, outcome\<lparr>ao_missing := sat_add (ao_missing outcome) 1\<rparr>)
        | Some seq_bytes \<Rightarrow>
            res_bind (map_err Abort (decode_u64 seq_bytes)) (\<lambda>seq.
            let mkey = message_key C recipient seq (ai_message_id a) (ai_chunk_index a) in
            res_bind (tx_get T (ss_messages s) mkey) (\<lambda>found.
            case found of
              Some val \<Rightarrow>
                res_bind (abort_json (msg_from_slice C val)) (\<lambda>msg.
                res_bind (tx_remove T mkey (ss_messages s)) (\<lambda>messages.
                res_bind (tx_remove T ikey (ss_index s)) (\<lambda>index.
                Inr (s\<lparr>ss_messages := messages, ss_index := index\<rparr>,
                     q\<lparr>qv_count := sat_sub (qv_count q) 1,
                       qv_bytes := sat_sub (qv_bytes q) (qm_payload_bytes msg)\<rparr>,
                     outcome\<lparr>ao_deleted := sat_add (ao_deleted outcome) 1\<rparr>))))
            | None \<Rightarrow>
                res_bind (tx_remove T ikey (ss_index s)) (\<lambda>index.
                Inr (s\<lparr>ss_index := index\<rparr>, q,
                     outcome\<lparr>ao_missing := sat_add (ao_missing outcome) 1\<rparr>))))))"

fun sled_ack_loop ::
  "('t, 'x) tree_ops_scheme \<Rightarrow> 'c sled_codecs_scheme \<Rightarrow> string \<Rightarrow> ack_item list
     \<Rightarrow> 't sled_store \<times> quota_value \<times> ack_outcome \<Rightarrow> ('t sled_store \<times> quota_value \<times> ack_outcome) tx" where
  "sled_ack_loop T C recipient [] st = Inr st"
| "sled_ack_loop T C recipient (a # rest) st =
     res_bind (sled_ack_one T C recipient a st) (\<lambda>st'. sled_ack_loop T C recipient rest st')"

definition ack_tx ::
  "('t, 'x) tree_ops_scheme \<Rightarrow> 'c sled_codecs_scheme \<Rightarrow> string \<Rightarrow> ack_item list \<Rightarrow> 't sled_store
     \<Rightarrow> (ack_outcome \<times> 't sled_store) tx" where
  "ack_tx T C recipient items s =
     res_bind (read_quota_tx T C (ss_quota s) (quota_key recipient)) (\<lambda>q.
     res_bind (sled_ack_loop T C recipient items (s, q, ack_outcome_default)) (\<lambda>(s1, q1, outcome).
     res_bind (abort_json (quota_to_vec C q1)) (\<lambda>quota_data.
     res_bind (tx_insert T (quota_key recipient) quota_data (ss_quota s1)) (\<lambda>quota.
     Inr (outcome\<lparr>ao_remaining := qv_count q1\<rparr>, s1\<lparr>ss_quota := quota\<rparr>)))))"

definition sled_ack ::
  "('t, 'x) tree_ops_scheme \<Rightarrow> 'c sled_codecs_scheme \<Rightarrow> 't sled_store \<Rightarrow> string \<Rightarrow> ack_item list
     \<Rightarrow> ack_outcome result \<times> 't sled_store" where
  "sled_ack T C s recipient items =
     st_bind (transaction T (\<lambda>s. [ss_messages s, ss_index s, ss_quota s]) (ack_tx T C recipient (remdups items)) s) (\<lambda>outcome s.
     st_bind (flush_tree T ss_messages ss_messages_update s) (\<lambda>_ s.
     st_bind (flush_tree T ss_index ss_index_update s) (\<lambda>_ s.
     st_bind (flush_tree T ss_quota ss_quota_update s) (\<lambda>_ s. (Inr outcome, s)))))"

section \<open>Purge\<close>

text \<open>
  The loop over the entries of the tree as they were when it began; \<open>quotas\<close> holds the
  pending quota of every recipient met so far. The store it leaves is returned on errors too.
\<close>

definition lookup_quota ::
  "('t, 'x) tree_ops_scheme \<Rightarrow> 'c sled_codecs_scheme \<Rightarrow> (string \<times> quota_value) list \<Rightarrow> 't sled_store
     \<Rightarrow> string \<Rightarrow> quota_value result" where
  "lookup_quota T C quotas s r =
     (case map_of quotas r of Some q \<Rightarrow> Inr q | None \<Rightarrow> read_quota_latest T C s r)"

fun purge_scan ::
  "('t, 'x) tree_ops_scheme \<Rightarrow> 'c sled_codecs_scheme \<Rightarrow> u64 \<Rightarrow> usize \<Rightarrow> (string + bytes \<times> bytes) list
     \<Rightarrow> usize \<Rightarrow> (string \<times> quota_value) list \<Rightarrow> 't sled_store
     \<Rightarrow> (usize \<times> (string \<times> quota_value) list) result \<times> 't sled_store" where
  "purge_scan T C now target [] removed quotas s = (Inr (removed, quotas), s)"
| "purge_scan T C now target (entry # rest) removed quotas s =
     (if target \<le> removed then (Inr (removed, quotas), s)
      else
        (case entry of
           Inl err \<Rightarrow> (Inl (from_sled_error err), s)
         | Inr (key, val) \<Rightarrow>
             (case msg_from_slice C val of
                Inl err \<Rightarrow> (Inl (from_json_error err), s)
              | Inr msg \<Rightarrow>
                  if now < qm_deadline_ms msg then purge_scan T C now target rest removed quotas s
                  else
                    (case tr_remove T key (ss_messages s) of
                       Inl err \<Rightarrow> (Inl (from_sled_error err), s)
                     | Inr messages \<Rightarrow>
                         let s1 = s\<lparr>ss_messages := messages\<rparr>;
                             ikey = index_key C (qm_recipient msg) (qm_message_id msg) (mm_chunk_index (qm_meta msg)) in
                         (case tr_remove T ikey (ss_index s1) of
                            Inl err \<Rightarrow> (Inl (from_sled_error err), s1)
                          | Inr index \<Rightarrow>
                              let s2 = s1\<lparr>ss_index := index\<rparr> in
                              (case lookup_quota T C quotas s2 (qm_recipient msg) of
                                 Inl err \<Rightarrow> (Inl err, s2)
                               | Inr q \<Rightarrow>
                                   purge_scan T C now target rest (removed + 1)
                                     (AList.update (qm_recipient msg)
                                       (q\<lparr>qv_count := sat_sub (qv_count q) 1,
                                          qv_bytes := sat_sub (qv_bytes q) (qm_payload_bytes msg)\<rparr>) quotas) s2))))))"

text \<open>
  The pending quotas are a hash map. The model writes them in the order of their insertion; another
  order matters only when a write fails, and \<open>Purge_Race\<close> allows every order.
\<close>

fun write_quotas ::
  "('t, 'x) tree_ops_scheme \<Rightarrow> 'c sled_codecs_scheme \<Rightarrow> (string \<times> quota_value) list \<Rightarrow> 't sled_store
     \<Rightarrow> unit result \<times> 't sled_store" where
  "write_quotas T C [] s = (Inr (), s)"
| "write_quotas T C ((recipient, q) # rest) s =
     (case quota_to_vec C q of
        Inl err \<Rightarrow> (Inl (from_json_error err), s)
      | Inr data \<Rightarrow>
          (case tr_insert T (quota_key recipient) data (ss_quota s) of
             Inl err \<Rightarrow> (Inl (from_sled_error err), s)
           | Inr quota \<Rightarrow> write_quotas T C rest (s\<lparr>ss_quota := quota\<rparr>)))"

definition sled_purge_expired ::
  "('t, 'x) tree_ops_scheme \<Rightarrow> 'c sled_codecs_scheme \<Rightarrow> 't sled_store \<Rightarrow> u64 \<Rightarrow> usize
     \<Rightarrow> usize result \<times> 't sled_store" where
  "sled_purge_expired T C s now max_n =
     st_bind (purge_scan T C now (min max_n sled_gc_batch_limit) (tr_iter T (ss_messages s)) 0 [] s) (\<lambda>(removed, quotas) s.
     st_bind (write_quotas T C quotas s) (\<lambda>_ s.
     st_bind (flush_tree T ss_messages ss_messages_update s) (\<lambda>_ s.
     st_bind (flush_tree T ss_index ss_index_update s) (\<lambda>_ s.
     st_bind (flush_tree T ss_quota ss_quota_update s) (\<lambda>_ s. (Inr removed, s))))))"

text \<open>\<open>impl RelayStore for SledStore\<close>.\<close>

definition sled_ops ::
  "'e externals_scheme \<Rightarrow> ('t, 'x) tree_ops_scheme \<Rightarrow> 'c sled_codecs_scheme \<Rightarrow> 't sled_store store_ops" where
  "sled_ops E T C =
     \<lparr>op_push = sled_push T C, op_pull = sled_pull E T C, op_ack = sled_ack T C,
      op_purge = sled_purge_expired T C\<rparr>"

end
