(* ===== verification/Relay_Spec.thy ===== *)
theory Relay_Spec
  imports Relay_Store
begin

text \<open>
  The abstract specification of a relay store: every recipient has a mailbox, the next
  sequence number and the queue of its messages in arrival order. \<open>spec_push\<close>,
  \<open>spec_batch\<close>, \<open>spec_ack\<close> and \<open>expiry_step\<close> say what the four operations of the trait
  \<open>RelayStore\<close> do to it, and the locale \<open>relay_store\<close> is the contract: an implementation
  with an invariant and an abstraction \<open>box\<close> into mailboxes. What a client may rely on is
  proved once from the contract: paging, delivery, quotas.
\<close>

section \<open>Mailboxes\<close>

type_synonym mailbox = "u64 \<times> queue_message list"

definition box_bytes :: "queue_message list \<Rightarrow> nat" where
  "box_bytes q = sum_list (map (\<lambda>m. unat (qm_payload_bytes m)) q)"

definition live :: "u64 \<Rightarrow> queue_message \<Rightarrow> bool" where
  "live now m \<longleftrightarrow> now < qm_deadline_ms m"

text \<open>
  A well-formed mailbox of \<open>r\<close>: messages of \<open>r\<close> with strictly increasing sequence numbers
  below the next one, no two with the same key, and a byte count that fits 64 bits.
\<close>

definition box_ok :: "string \<Rightarrow> mailbox \<Rightarrow> bool" where
  "box_ok r b \<longleftrightarrow>
     sorted_wrt (<) (map qm_arrival_seq (snd b))
     \<and> (\<forall>m\<in>set (snd b). qm_arrival_seq m < fst b \<and> qm_recipient m = r)
     \<and> distinct (map msg_key (snd b))
     \<and> box_bytes (snd b) < 2 ^ 64"

lemma box_bytes_simps [simp]:
  "box_bytes [] = 0"
  "box_bytes (m # q) = unat (qm_payload_bytes m) + box_bytes q"
  "box_bytes (p @ q) = box_bytes p + box_bytes q"
  by (simp_all add: box_bytes_def)

lemma box_bytes_filter_le: "box_bytes (filter P q) \<le> box_bytes q"
  by (simp add: box_bytes_def sum_list_filter_le)

lemma box_ok_empty [simp]: "box_ok r (n, [])"
  by (simp add: box_ok_def)

lemma box_ok_filter: "box_ok r (n, q) \<Longrightarrow> box_ok r (n, filter P q)"
  using box_bytes_filter_le [of P q]
  by (auto simp: box_ok_def sorted_wrt_map intro: sorted_wrt_filter_sub distinct_map_filter)

text \<open>Sequence numbers are distinct, so the queue is never longer than the counter.\<close>

lemma box_ok_length: "box_ok r (n, q) \<Longrightarrow> length q \<le> unat n"
proof -
  assume ok: "box_ok r (n, q)"
  let ?s = "map (\<lambda>m. unat (qm_arrival_seq m)) q"
  have "sorted_wrt (<) ?s"
    using ok by (simp add: box_ok_def sorted_wrt_map word_less_nat_alt)
  then have "distinct ?s"
    by (simp add: strict_sorted_iff)
  moreover have "set ?s \<subseteq> {..<unat n}"
    using ok by (auto simp: box_ok_def word_less_nat_alt)
  ultimately have "length ?s \<le> card {..<unat n}"
    by (metis card_mono distinct_card finite_lessThan)
  then show ?thesis by simp
qed

lemma box_ok_length_lt: "box_ok r (n, q) \<Longrightarrow> length q < 2 ^ 64"
  using box_ok_length [of r n q] unat_lt_pow [of n] by simp

section \<open>What the operations do to a mailbox\<close>

fun spec_push :: "relay_limits \<Rightarrow> inbound_message \<Rightarrow> mailbox \<Rightarrow> push_result result \<times> mailbox" where
  "spec_push limits msg (n, q) =
     (if inbound_key msg \<in> msg_key ` set q then
        (Inr \<lparr>ps_stored = False, ps_duplicate = True, ps_queue_len = word_of_nat (length q),
              ps_queue_bytes = word_of_nat (box_bytes q)\<rparr>, (n, q))
      else if unat (max_messages_per_user limits) < length q + 1
        \<or> unat (max_queue_bytes_per_user limits) < box_bytes q + unat (im_payload_bytes msg)
      then (Inl QuotaExceeded, (n, q))
      else
        (let q' = q @ [stored_message msg n] in
         (Inr \<lparr>ps_stored = True, ps_duplicate = False, ps_queue_len = word_of_nat (length q'),
               ps_queue_bytes = word_of_nat (box_bytes q')\<rparr>, (n + 1, q'))))"

definition after_cursor :: "u64 option \<Rightarrow> queue_message \<Rightarrow> bool" where
  "after_cursor c m \<longleftrightarrow> (case c of None \<Rightarrow> True | Some s \<Rightarrow> s < qm_arrival_seq m)"

definition selection :: "u64 option \<Rightarrow> u64 \<Rightarrow> queue_message list \<Rightarrow> queue_message list" where
  "selection c now q = filter (\<lambda>m. after_cursor c m \<and> live now m) q"

definition page_limit :: "u64 \<Rightarrow> nat" where
  "page_limit limit = unat (min limit 4294967295)"

text \<open>
  The batch a pull returns: the first messages of the selection, a cursor exactly when more
  are left, and the length of the queue the pull leaves, less the batch.
\<close>

definition spec_batch ::
  "'x externals_scheme \<Rightarrow> string \<Rightarrow> u64 option \<Rightarrow> u64 \<Rightarrow> u64 \<Rightarrow> mailbox \<Rightarrow> mailbox \<Rightarrow> pull_batch" where
  "spec_batch E r c limit now b b' =
     (let sel = selection c now (snd b); items = take (page_limit limit) sel in
      \<lparr>pb_items = items,
       pb_next_cursor =
         (if length items < length sel \<and> items \<noteq> []
          then Some (encode_cursor E r (qm_arrival_seq (last items))) else None),
       pb_remaining_estimate = word_of_nat (length (snd b') - length items)\<rparr>)"

text \<open>
  A store may drop messages whose deadline has passed when it pulls or collects garbage:
  the counter stays, no live message goes, the order is kept.
\<close>

definition expiry_step :: "u64 \<Rightarrow> mailbox \<Rightarrow> mailbox \<Rightarrow> bool" where
  "expiry_step now b b' \<longleftrightarrow>
     fst b' = fst b \<and> (\<exists>keep. snd b' = filter (\<lambda>m. live now m \<or> keep m) (snd b))"

definition acked :: "ack_item list \<Rightarrow> queue_message \<Rightarrow> bool" where
  "acked items m \<longleftrightarrow> msg_key m \<in> ack_key ` set items"

definition ack_box :: "ack_item list \<Rightarrow> mailbox \<Rightarrow> mailbox" where
  "ack_box items b = (fst b, filter (\<lambda>m. \<not> acked items m) (snd b))"

definition ack_count :: "ack_item list \<Rightarrow> mailbox \<Rightarrow> nat" where
  "ack_count items b = length (filter (acked items) (snd b))"

text \<open>
  The figures of an acknowledgement. How a store counts an item named twice in one request
  is left open: \<open>missing\<close> is fixed for requests without repetition.
\<close>

definition spec_ack :: "ack_item list \<Rightarrow> mailbox \<Rightarrow> ack_outcome \<Rightarrow> bool" where
  "spec_ack items b out \<longleftrightarrow>
     ao_deleted out = word_of_nat (ack_count items b)
     \<and> ao_remaining out = word_of_nat (length (snd (ack_box items b)))
     \<and> (distinct items \<longrightarrow> ao_missing out = word_of_nat (length items - ack_count items b))"

lemma expiry_step_refl [intro]: "expiry_step now b b"
  unfolding expiry_step_def by (intro conjI exI [of _ "\<lambda>_. True"]) simp_all

lemma expiry_step_box_ok: "expiry_step now b b' \<Longrightarrow> box_ok r b \<Longrightarrow> box_ok r b'"
  by (cases b; cases b') (auto simp: expiry_step_def box_ok_filter)

lemma expiry_step_live:
  "expiry_step now b b' \<Longrightarrow> now \<le> t \<Longrightarrow> filter (\<lambda>m. P m \<and> live t m) (snd b') = filter (\<lambda>m. P m \<and> live t m) (snd b)"
  unfolding expiry_step_def live_def
  by (elim conjE exE, simp only: filter_filter, rule filter_cong) auto

lemma expiry_step_selection:
  "expiry_step now b b' \<Longrightarrow> now \<le> t \<Longrightarrow> selection c t (snd b') = selection c t (snd b)"
  unfolding selection_def by (rule expiry_step_live)

lemma expiry_step_subset: "expiry_step now b b' \<Longrightarrow> set (snd b') \<subseteq> set (snd b)"
  by (auto simp: expiry_step_def)

lemma expiry_step_keeps: "expiry_step now b b' \<Longrightarrow> m \<in> set (snd b) \<Longrightarrow> live now m \<Longrightarrow> m \<in> set (snd b')"
  by (auto simp: expiry_step_def)

lemma expiry_step_length: "expiry_step now b b' \<Longrightarrow> length (snd b') \<le> length (snd b)"
  by (auto simp: expiry_step_def)

lemma expiry_step_fst: "expiry_step now b b' \<Longrightarrow> fst b' = fst b"
  by (simp add: expiry_step_def)

lemma box_ok_ack: "box_ok r b \<Longrightarrow> box_ok r (ack_box items b)"
  by (cases b) (simp add: ack_box_def box_ok_filter)

lemma ack_count_le: "box_ok r b \<Longrightarrow> ack_count items b \<le> length items"
proof -
  assume "box_ok r b"
  then have "distinct (map msg_key (filter (acked items) (snd b)))"
    by (simp add: box_ok_def distinct_map_filter)
  moreover have "set (map msg_key (filter (acked items) (snd b))) \<subseteq> ack_key ` set items"
    by (auto simp: acked_def)
  ultimately have "ack_count items b \<le> card (ack_key ` set items)"
    unfolding ack_count_def by (metis card_mono distinct_card finite_imageI finite_set length_map)
  also have "\<dots> \<le> length items"
    by (metis card_image_le card_length finite_set le_trans)
  finally show ?thesis .
qed

lemma box_ok_push:
  assumes "box_ok (im_recipient msg) (n, q)" and "n \<noteq> - 1"
    and "inbound_key msg \<notin> msg_key ` set q"
    and "box_bytes q + unat (im_payload_bytes msg) < 2 ^ 64"
  shows "box_ok (im_recipient msg) (n + 1, q @ [stored_message msg n])"
proof -
  have n: "k < n + 1 \<longleftrightarrow> k \<le> n" for k
    using assms(2) unat_not_max [OF assms(2)]
    by (simp add: word_less_nat_alt word_le_nat_alt unat_word_ariths less_Suc_eq_le)
  show ?thesis
    using assms by (auto simp: box_ok_def sorted_wrt_append n)
qed

lemma spec_push_box_ok:
  assumes "box_ok (im_recipient msg) b" and "fst b \<noteq> - 1"
    and "spec_push limits msg b = (res, b')"
  shows "box_ok (im_recipient msg) b'"
proof -
  obtain n q where b: "b = (n, q)" by fastforce
  have "unat (max_queue_bytes_per_user limits) < 2 ^ 64"
    using unat_lt_pow [of "max_queue_bytes_per_user limits"] by simp
  then show ?thesis
    using assms unfolding b by (auto simp: Let_def intro!: box_ok_push split: if_splits)
qed

text \<open>Saturating arithmetic decides the quota as exact arithmetic does.\<close>

lemma quota_full:
  fixes c b p maxm maxb :: u64
  assumes "unat c = l" and "unat b = k" and "l + 1 < 2 ^ 64" and "maxb \<noteq> - 1"
  shows "maxm < sat_add c 1 \<or> maxb < sat_add b p \<longleftrightarrow> unat maxm < l + 1 \<or> unat maxb < k + unat p"
proof -
  have "unat (sat_add c 1) = l + 1" using assms(1,3) by (simp add: sat_simps)
  moreover have "unat (sat_add b p) = min (k + unat p) (2 ^ 64 - 1)" using assms(2) by (simp add: sat_simps)
  moreover have "unat maxb < 2 ^ 64 - 1" using unat_not_max [OF assms(4)] by simp
  ultimately show ?thesis by (auto simp: word_less_nat_alt)
qed

end
