(* ===== verification/Ordered_Map.thy ===== *)
theory Ordered_Map
  imports Prelude
begin

text \<open>
  The contract of an ordered map, as the locale \<open>ordered_map\<close>, and the model of Rust's
  \<open>std::collections::BTreeMap\<close> (\<open>btree\<close>, the entries in key order) that satisfies it.
  A \<open>HashMap\<close> whose keys the code sorts before it walks them is modelled by the same type,
  since nothing else the code does depends on the iteration order.
\<close>

section \<open>Sorted association lists\<close>

abbreviation keys_sorted :: "('k::linorder \<times> 'v) list \<Rightarrow> bool" where
  "keys_sorted t \<equiv> sorted_wrt (<) (map fst t)"

lemma keys_sorted_distinct: "keys_sorted t \<Longrightarrow> distinct (map fst t)"
  by (simp add: strict_sorted_iff)

lemma keys_sorted_filter: "keys_sorted t \<Longrightarrow> keys_sorted (filter P t)"
  by (induction t) auto

lemma map_of_keys_sorted:
  "keys_sorted t \<Longrightarrow> map_of t k = Some v \<longleftrightarrow> (k, v) \<in> set t"
  by (simp add: keys_sorted_distinct)

lemma keys_sorted_unique:
  assumes "keys_sorted s" and "keys_sorted t" and "map_of s = map_of t"
  shows "s = t"
proof -
  have d: "distinct (map fst s)" "distinct (map fst t)"
    using assms by (auto dest: keys_sorted_distinct)
  have mem: "p \<in> set s \<longleftrightarrow> p \<in> set t" for p
    using map_of_keys_sorted [OF assms(1), of "fst p" "snd p"]
      map_of_keys_sorted [OF assms(2), of "fst p" "snd p"] assms(3)
    by simp
  then have eq: "set s = set t" by blast
  then have "set (map fst s) = set (map fst t)" by simp
  then have "map fst s = map fst t"
    using assms d by (simp add: sorted_distinct_set_unique strict_sorted_imp_sorted)
  moreover have "inj_on fst (set s \<union> set t)"
    using d eq by (simp add: distinct_map)
  ultimately show ?thesis
    by (rule map_inj_on)
qed

lemma map_of_filter_key:
  "map_of (filter (\<lambda>p. P (fst p)) t) k = (if P k then map_of t k else None)"
  by (induction t) auto

lemma map_of_map_snd_mem: "map_of t k = Some v \<Longrightarrow> v \<in> set (map snd t)"
  by (force dest: map_of_SomeD)

section \<open>The contract\<close>

locale ordered_map =
  fixes empty :: "'t"
    and get :: "'t \<Rightarrow> 'k::linorder \<Rightarrow> 'v option"
    and insert :: "'k \<Rightarrow> 'v \<Rightarrow> 't \<Rightarrow> 't"
    and remove :: "'k \<Rightarrow> 't \<Rightarrow> 't"
    and entries :: "'t \<Rightarrow> ('k \<times> 'v) list"
    and ok :: "'t \<Rightarrow> bool"
  assumes ok_empty: "ok empty"
    and ok_insert: "ok t \<Longrightarrow> ok (insert k v t)"
    and ok_remove: "ok t \<Longrightarrow> ok (remove k t)"
    and entries_empty: "entries empty = []"
    and entries_sorted: "ok t \<Longrightarrow> keys_sorted (entries t)"
    and get_entries: "ok t \<Longrightarrow> get t k = map_of (entries t) k"
    and get_insert: "ok t \<Longrightarrow> get (insert k v t) j = (if j = k then Some v else get t j)"
    and get_remove: "ok t \<Longrightarrow> get (remove k t) j = (if j = k then None else get t j)"
begin

text \<open>The laws determine the entries: what inserting and removing do to them.\<close>

lemma entries_remove: "ok t \<Longrightarrow> entries (remove k t) = filter (\<lambda>p. fst p \<noteq> k) (entries t)"
proof -
  assume t: "ok t"
  have "map_of (entries (remove k t)) j = map_of (filter (\<lambda>p. fst p \<noteq> k) (entries t)) j" for j
    using get_remove [OF t, of k j] get_entries [OF t, of j]
      get_entries [OF ok_remove [OF t], of k j]
    by (simp add: map_of_filter_key [of "\<lambda>x. x \<noteq> k"])
  then show ?thesis
    using t by (intro keys_sorted_unique keys_sorted_filter entries_sorted ok_remove) auto
qed

lemma entries_insert:
  "ok t \<Longrightarrow> entries (insert k v t) =
     filter (\<lambda>p. fst p < k) (entries t) @ (k, v) # filter (\<lambda>p. k < fst p) (entries t)"
  (is "_ \<Longrightarrow> _ = ?r")
proof -
  assume t: "ok t"
  have "keys_sorted ?r"
    using keys_sorted_filter [OF entries_sorted [OF t]]
    by (auto simp: sorted_wrt_append)
  moreover have "map_of (entries (insert k v t)) j = map_of ?r j" for j
    using get_insert [OF t, of k v j] get_entries [OF t, of j]
      get_entries [OF ok_insert [OF t], of k v j]
    by (cases j k rule: linorder_cases)
      (auto simp: map_add_def map_of_filter_key [of "\<lambda>x. x < k"]
        map_of_filter_key [of "\<lambda>x. k < x"] split: option.splits)
  ultimately show ?thesis
    using t by (intro keys_sorted_unique entries_sorted ok_insert) auto
qed

lemma entries_insert_max:
  assumes "ok t" and "\<And>p. p \<in> set (entries t) \<Longrightarrow> fst p < k"
  shows "entries (insert k v t) = entries t @ [(k, v)]"
proof -
  have "filter (\<lambda>p. fst p < k) (entries t) = entries t"
    using assms(2) by (simp add: filter_id_conv)
  moreover have "filter (\<lambda>p. k < fst p) (entries t) = []"
    using assms(2) by (auto simp: filter_empty_conv dest: less_asym)
  ultimately show ?thesis
    using assms(1) by (simp add: entries_insert)
qed

lemma entries_insert_twice: "ok t \<Longrightarrow> entries (insert k w (insert k v t)) = entries (insert k w t)"
  by (intro keys_sorted_unique entries_sorted ok_insert ext)
    (auto simp: get_entries [symmetric] ok_insert get_insert)

lemma get_SomeD: "ok t \<Longrightarrow> get t k = Some v \<Longrightarrow> (k, v) \<in> set (entries t)"
  by (simp add: get_entries map_of_keys_sorted entries_sorted)

lemma get_SomeI: "ok t \<Longrightarrow> (k, v) \<in> set (entries t) \<Longrightarrow> get t k = Some v"
  by (simp add: get_entries map_of_keys_sorted entries_sorted)

end

section \<open>The model of \<open>BTreeMap\<close>\<close>

type_synonym ('k, 'v) btree = "('k \<times> 'v) list"

fun bt_insert :: "'k::linorder \<Rightarrow> 'v \<Rightarrow> ('k, 'v) btree \<Rightarrow> ('k, 'v) btree" where
  "bt_insert k v [] = [(k, v)]"
| "bt_insert k v (p # t) =
     (if fst p < k then p # bt_insert k v t
      else if fst p = k then (k, v) # t
      else (k, v) # p # t)"

definition bt_get :: "('k, 'v) btree \<Rightarrow> 'k \<Rightarrow> 'v option" where
  "bt_get t k = map_of t k"

definition bt_remove :: "'k \<Rightarrow> ('k, 'v) btree \<Rightarrow> ('k, 'v) btree" where
  "bt_remove k t = filter (\<lambda>p. fst p \<noteq> k) t"

text \<open>\<open>range((Bound::Excluded(k), Bound::Unbounded))\<close>.\<close>

definition bt_after :: "'k::linorder \<Rightarrow> ('k, 'v) btree \<Rightarrow> ('k, 'v) btree" where
  "bt_after k t = filter (\<lambda>p. k < fst p) t"

definition bt_ok :: "('k::linorder, 'v) btree \<Rightarrow> bool" where
  "bt_ok t \<longleftrightarrow> keys_sorted t"

lemma fst_bt_insert: "fst ` set (bt_insert k v t) = Set.insert k (fst ` set t)"
  by (induction t) auto

lemma bt_ok_insert: "bt_ok t \<Longrightarrow> bt_ok (bt_insert k v t)"
proof (induction t)
  case (Cons p t)
  have "fst ` set (bt_insert k v t) = Set.insert k (fst ` set t)"
    by (rule fst_bt_insert)
  with Cons show ?case
    by (fastforce simp: bt_ok_def)
qed (simp add: bt_ok_def)

lemma map_of_bt_insert:
  "keys_sorted t \<Longrightarrow> map_of (bt_insert k v t) j = (if j = k then Some v else map_of t j)"
  by (induction t) auto

interpretation bt: ordered_map "[]" bt_get bt_insert bt_remove "\<lambda>t. t" bt_ok
proof unfold_locales
  fix t :: "('k::linorder, 'v) btree" and k j :: 'k and v :: 'v
  assume t: "bt_ok t"
  show "bt_ok (bt_insert k v t)"
    using t by (rule bt_ok_insert)
  show "bt_ok (bt_remove k t)"
    using t by (simp add: bt_ok_def bt_remove_def keys_sorted_filter)
  show "bt_get (bt_insert k v t) j = (if j = k then Some v else bt_get t j)"
    using t by (simp add: bt_get_def bt_ok_def map_of_bt_insert)
  show "bt_get (bt_remove k t) j = (if j = k then None else bt_get t j)"
    using map_of_filter_key [of "\<lambda>x. x \<noteq> k" t j] by (simp add: bt_get_def bt_remove_def)
qed (simp_all add: bt_ok_def bt_get_def)

lemma bt_get_remove: "bt_get (bt_remove k t) j = (if j = k then None else bt_get t j)"
  using map_of_filter_key [of "\<lambda>x. x \<noteq> k" t j] by (simp add: bt_get_def bt_remove_def)

lemma bt_get_empty [simp]: "bt_get [] k = None"
  by (simp add: bt_get_def)

lemma bt_remove_remove: "bt_remove j (bt_remove k t) = bt_remove k (bt_remove j t)"
  by (auto simp: bt_remove_def intro: filter_cong)

end
