(* ===== verification/Sled_Inv.thy ===== *)
theory Sled_Inv
  imports Store_Sled Relay_Spec Ordered_Map
begin

text \<open>
  The persistent backend on trees that do not fail: the contract of the trees
  (\<open>sled_tree\<close>, an ordered map of bytes behind fallible operations), the invariant that ties
  messages, index, quotas and counters together, and the mailboxes it represents.
\<close>

section \<open>The contract of the trees\<close>

locale sled_tree =
  fixes T :: "('t, 'x) tree_ops_scheme"
    and view :: "'t \<Rightarrow> (bytes, bytes) btree"
    and ok :: "'t \<Rightarrow> bool"
  assumes view_ok: "ok t \<Longrightarrow> bt_ok (view t)"
    and get_view: "ok t \<Longrightarrow> tr_get T t k = Inr (bt_get (view t) k)"
    and insert_view: "ok t \<Longrightarrow> \<exists>u. tr_insert T k v t = Inr u \<and> ok u \<and> view u = bt_insert k v (view t)"
    and remove_view: "ok t \<Longrightarrow> \<exists>u. tr_remove T k t = Inr u \<and> ok u \<and> view u = bt_remove k (view t)"
    and scan_view: "ok t \<Longrightarrow> tr_scan_prefix T p t = map Inr (filter (\<lambda>e. has_prefix p (fst e)) (view t))"
    and iter_view: "ok t \<Longrightarrow> tr_iter T t = map Inr (view t)"
    and flush_view: "ok t \<Longrightarrow> \<exists>u. tr_flush T t = Inr u \<and> ok u \<and> view u = view t"
    and commit_view: "\<forall>t\<in>set ts. ok t \<Longrightarrow> tr_commit T ts = Inr ()"

text \<open>The tree an insertion or a removal leaves when it succeeds.\<close>

definition tree_ins :: "('t, 'x) tree_ops_scheme \<Rightarrow> bytes \<Rightarrow> bytes \<Rightarrow> 't \<Rightarrow> 't" where
  "tree_ins T k v t = projr (tr_insert T k v t)"

definition tree_del :: "('t, 'x) tree_ops_scheme \<Rightarrow> bytes \<Rightarrow> 't \<Rightarrow> 't" where
  "tree_del T k t = projr (tr_remove T k t)"

text \<open>The tree a flush leaves, and the store after the flushes of an acknowledgement and of a push.\<close>

definition tree_sync :: "('t, 'x) tree_ops_scheme \<Rightarrow> 't \<Rightarrow> 't" where
  "tree_sync T t = projr (tr_flush T t)"

definition synced3 :: "('t, 'x) tree_ops_scheme \<Rightarrow> 't sled_store \<Rightarrow> 't sled_store" where
  "synced3 T s = s\<lparr>ss_messages := tree_sync T (ss_messages s), ss_index := tree_sync T (ss_index s),
     ss_quota := tree_sync T (ss_quota s)\<rparr>"

definition synced :: "('t, 'x) tree_ops_scheme \<Rightarrow> 't sled_store \<Rightarrow> 't sled_store" where
  "synced T s = (synced3 T s)\<lparr>ss_seq := tree_sync T (ss_seq s)\<rparr>"

section \<open>Stored messages\<close>

definition mkey :: "'c sled_codecs_scheme \<Rightarrow> queue_message \<Rightarrow> bytes" where
  "mkey C m = message_key C (qm_recipient m) (qm_arrival_seq m) (qm_message_id m) (mm_chunk_index (qm_meta m))"

definition mval :: "'c sled_codecs_scheme \<Rightarrow> queue_message \<Rightarrow> bytes" where
  "mval C m = projr (msg_to_vec C m)"

definition qval :: "'c sled_codecs_scheme \<Rightarrow> quota_value \<Rightarrow> bytes" where
  "qval C q = projr (quota_to_vec C q)"

definition of_rcpt :: "string \<Rightarrow> queue_message list \<Rightarrow> queue_message list" where
  "of_rcpt r ms = filter (\<lambda>m. qm_recipient m = r) ms"

text \<open>
  \<open>msgs_stored\<close> is the message tree alone: the messages \<open>ms\<close> under their keys, no recipient with two
  of the same sequence number.
\<close>

definition msgs_stored :: "'c sled_codecs_scheme \<Rightarrow> (bytes, bytes) btree \<Rightarrow> queue_message list \<Rightarrow> bool" where
  "msgs_stored C mv ms \<longleftrightarrow>
     mv = map (\<lambda>m. (mkey C m, mval C m)) ms
     \<and> (\<forall>m\<in>set ms. addressable (qm_recipient m))
     \<and> (\<forall>m\<in>set ms. \<forall>m'\<in>set ms. qm_recipient m = qm_recipient m' \<longrightarrow>
          qm_arrival_seq m = qm_arrival_seq m' \<longrightarrow> m = m')"

text \<open>
  \<open>sled_msgs\<close>: the message tree holds the messages \<open>ms\<close> under their keys, no recipient has
  two with the same sequence number, and the index leads from the key of each to its number.
\<close>

definition sled_msgs ::
  "'c sled_codecs_scheme \<Rightarrow> (bytes, bytes) btree \<Rightarrow> (bytes, bytes) btree \<Rightarrow> queue_message list \<Rightarrow> bool" where
  "sled_msgs C mv iv ms \<longleftrightarrow>
     mv = map (\<lambda>m. (mkey C m, mval C m)) ms
     \<and> (\<forall>m\<in>set ms. addressable (qm_recipient m))
     \<and> (\<forall>m\<in>set ms. \<forall>m'\<in>set ms. qm_recipient m = qm_recipient m' \<longrightarrow>
          qm_arrival_seq m = qm_arrival_seq m' \<longrightarrow> m = m')
     \<and> (\<forall>r i c x. addressable r \<longrightarrow>
          (bt_get iv (index_key C r i c) = Some x \<longleftrightarrow>
           (\<exists>m\<in>set ms. qm_recipient m = r \<and> msg_key m = (i, c) \<and> x = encode_u64 (qm_arrival_seq m))))"

lemma sled_msgs_stored: "sled_msgs C mv iv ms \<Longrightarrow> msgs_stored C mv ms"
  by (simp add: sled_msgs_def msgs_stored_def)

text \<open>The quota of a recipient is that of its messages.\<close>

definition quota_for :: "queue_message list \<Rightarrow> quota_value \<Rightarrow> bool" where
  "quota_for ms q \<longleftrightarrow> unat (qv_count q) = length ms \<and> unat (qv_bytes q) = box_bytes ms"

definition quota_read :: "'c sled_codecs_scheme \<Rightarrow> (bytes, bytes) btree \<Rightarrow> string \<Rightarrow> quota_value option" where
  "quota_read C qv r =
     (case bt_get qv (quota_key r) of
        None \<Rightarrow> Some quota_default
      | Some x \<Rightarrow> (case quota_from_slice C x of Inl _ \<Rightarrow> None | Inr q \<Rightarrow> Some q))"

definition seq_read :: "(bytes, bytes) btree \<Rightarrow> string \<Rightarrow> u64 option" where
  "seq_read sv r =
     (case bt_get sv (seq_key r) of
        None \<Rightarrow> Some 0
      | Some x \<Rightarrow> (case decode_u64 x of Inl _ \<Rightarrow> None | Inr n \<Rightarrow> Some n))"

definition seqs_ok :: "(bytes, bytes) btree \<Rightarrow> queue_message list \<Rightarrow> bool" where
  "seqs_ok sv ms \<longleftrightarrow> (\<forall>r. addressable r \<longrightarrow>
     (\<exists>n. seq_read sv r = Some n \<and> (\<forall>m\<in>set (of_rcpt r ms). qm_arrival_seq m < n)))"

definition quotas_ok :: "'c sled_codecs_scheme \<Rightarrow> (bytes, bytes) btree \<Rightarrow> queue_message list \<Rightarrow> bool" where
  "quotas_ok C qv ms \<longleftrightarrow> (\<forall>r. addressable r \<longrightarrow> (\<exists>q. quota_read C qv r = Some q \<and> quota_for (of_rcpt r ms) q))"

definition trees_ok :: "('t \<Rightarrow> bool) \<Rightarrow> 't sled_store \<Rightarrow> bool" where
  "trees_ok ok s \<longleftrightarrow> ok (ss_messages s) \<and> ok (ss_index s) \<and> ok (ss_quota s) \<and> ok (ss_seq s)"

definition sled_rep ::
  "('t \<Rightarrow> (bytes, bytes) btree) \<Rightarrow> ('t \<Rightarrow> bool) \<Rightarrow> 'c sled_codecs_scheme \<Rightarrow> 't sled_store
     \<Rightarrow> queue_message list \<Rightarrow> bool" where
  "sled_rep view ok C s ms \<longleftrightarrow>
     trees_ok ok s \<and> sled_msgs C (view (ss_messages s)) (view (ss_index s)) ms
     \<and> seqs_ok (view (ss_seq s)) ms \<and> quotas_ok C (view (ss_quota s)) ms"

definition sled_inv ::
  "('t \<Rightarrow> (bytes, bytes) btree) \<Rightarrow> ('t \<Rightarrow> bool) \<Rightarrow> 'c sled_codecs_scheme \<Rightarrow> 't sled_store \<Rightarrow> bool" where
  "sled_inv view ok C s \<longleftrightarrow> (\<exists>ms. sled_rep view ok C s ms)"

definition all_msgs :: "'c sled_codecs_scheme \<Rightarrow> (bytes, bytes) btree \<Rightarrow> queue_message list" where
  "all_msgs C mv = map (\<lambda>e. projr (msg_from_slice C (snd e))) mv"

definition sled_box ::
  "('t \<Rightarrow> (bytes, bytes) btree) \<Rightarrow> 'c sled_codecs_scheme \<Rightarrow> 't sled_store \<Rightarrow> string \<Rightarrow> mailbox" where
  "sled_box view C s r =
     ((case seq_read (view (ss_seq s)) r of Some n \<Rightarrow> n | None \<Rightarrow> 0),
      of_rcpt r (all_msgs C (view (ss_messages s))))"

lemma of_rcpt_simps [simp]:
  "of_rcpt r [] = []"
  "of_rcpt r (m # ms) = (if qm_recipient m = r then m # of_rcpt r ms else of_rcpt r ms)"
  "of_rcpt r (ms @ ns) = of_rcpt r ms @ of_rcpt r ns"
  "set (of_rcpt r ms) = {m \<in> set ms. qm_recipient m = r}"
  by (auto simp: of_rcpt_def)

lemma of_rcpt_filter: "of_rcpt r (filter P ms) = filter P (of_rcpt r ms)"
  by (induction ms) auto

lemma quota_for_values:
  "quota_for ms q \<Longrightarrow> qv_count q = word_of_nat (length ms) \<and> qv_bytes q = word_of_nat (box_bytes ms)"
  by (auto simp: quota_for_def intro: word_eq_of_unat)

lemma filter_neq_id: "m \<notin> set ms \<Longrightarrow> filter (\<lambda>x. x \<noteq> m) ms = ms"
  by (metis (mono_tags) filter_True)

lemma remove_message:
  assumes "m \<in> set ms" and "distinct ms"
  shows "length ms = Suc (length (filter (\<lambda>x. x \<noteq> m) ms))"
    and "box_bytes ms = unat (qm_payload_bytes m) + box_bytes (filter (\<lambda>x. x \<noteq> m) ms)"
  using assms
  by (induction ms) (auto simp: filter_neq_id)

lemma quota_for_remove:
  assumes "quota_for ms q" and "m \<in> set ms" and "distinct ms"
  shows "quota_for (filter (\<lambda>x. x \<noteq> m) ms)
    (q\<lparr>qv_count := sat_sub (qv_count q) 1, qv_bytes := sat_sub (qv_bytes q) (qm_payload_bytes m)\<rparr>)"
  using assms(1) remove_message [OF assms(2,3)] by (simp add: quota_for_def sat_simps)

locale sled_backend = sled_tree T view ok + sled_codec C
  for T :: "('t, 'x) tree_ops_scheme" and view and ok and C :: "'c sled_codecs_scheme"
begin

lemma tree_ins_ok:
  "ok t \<Longrightarrow> tr_insert T k v t = Inr (tree_ins T k v t)
    \<and> ok (tree_ins T k v t) \<and> view (tree_ins T k v t) = bt_insert k v (view t)"
  using insert_view [of t k v] by (auto simp: tree_ins_def)

lemma tree_del_ok:
  "ok t \<Longrightarrow> tr_remove T k t = Inr (tree_del T k t)
    \<and> ok (tree_del T k t) \<and> view (tree_del T k t) = bt_remove k (view t)"
  using remove_view [of t k] by (auto simp: tree_del_def)

lemmas tree_ok_simps = tree_ins_ok [THEN conjunct2, THEN conjunct1] tree_ins_ok [THEN conjunct2, THEN conjunct2]
  tree_del_ok [THEN conjunct2, THEN conjunct1] tree_del_ok [THEN conjunct2, THEN conjunct2]

lemma tx_simps:
  "ok t \<Longrightarrow> tx_get T t k = Inr (bt_get (view t) k)"
  "ok t \<Longrightarrow> tx_insert T k v t = Inr (tree_ins T k v t)"
  "ok t \<Longrightarrow> tx_remove T k t = Inr (tree_del T k t)"
  by (simp_all add: tx_get_def tx_insert_def tx_remove_def get_view tree_ins_ok tree_del_ok)

lemma tree_sync_ok:
  "ok t \<Longrightarrow> tr_flush T t = Inr (tree_sync T t) \<and> ok (tree_sync T t) \<and> view (tree_sync T t) = view t"
  using flush_view [of t] by (auto simp: tree_sync_def)

lemma flush_tree_ok: "ok (sel s) \<Longrightarrow> flush_tree T sel upd s = (Inr (), upd (\<lambda>_. tree_sync T (sel s)) s)"
  by (simp add: flush_tree_def tree_sync_ok)

text \<open>The flushes of a push, and those of an acknowledgement or a purge.\<close>

lemma synced3_run:
  assumes "trees_ok ok s"
  shows "st_bind (flush_tree T ss_messages ss_messages_update s) (\<lambda>_ s.
     st_bind (flush_tree T ss_index ss_index_update s) (\<lambda>_ s.
     st_bind (flush_tree T ss_quota ss_quota_update s) f)) = f () (synced3 T s)"
  using assms by (simp add: flush_tree_ok trees_ok_def synced3_def)

lemma synced_run:
  assumes "trees_ok ok s"
  shows "st_bind (flush_tree T ss_messages ss_messages_update s) (\<lambda>_ s.
     st_bind (flush_tree T ss_index ss_index_update s) (\<lambda>_ s.
     st_bind (flush_tree T ss_quota ss_quota_update s) (\<lambda>_ s.
     st_bind (flush_tree T ss_seq ss_seq_update s) f))) = f () (synced T s)"
  using assms by (simp add: flush_tree_ok trees_ok_def synced3_def synced_def)

text \<open>A flush changes nothing that can be read.\<close>

lemma synced_sel:
  assumes "trees_ok ok s"
  shows "trees_ok ok (synced3 T s)" "trees_ok ok (synced T s)"
    and "view (ss_messages (synced3 T s)) = view (ss_messages s)" "view (ss_messages (synced T s)) = view (ss_messages s)"
    and "view (ss_index (synced3 T s)) = view (ss_index s)" "view (ss_index (synced T s)) = view (ss_index s)"
    and "view (ss_quota (synced3 T s)) = view (ss_quota s)" "view (ss_quota (synced T s)) = view (ss_quota s)"
    and "ss_seq (synced3 T s) = ss_seq s" "view (ss_seq (synced T s)) = view (ss_seq s)"
  using assms by (simp_all add: trees_ok_def synced3_def synced_def tree_sync_ok)

lemma synced_rep:
  assumes "sled_rep view ok C s ms"
  shows "sled_rep view ok C (synced3 T s) ms" "sled_rep view ok C (synced T s) ms"
  using assms synced_sel [of s] by (simp_all add: sled_rep_def)

lemma synced_box:
  assumes "trees_ok ok s"
  shows "sled_box view C (synced3 T s) = sled_box view C s" "sled_box view C (synced T s) = sled_box view C s"
  using synced_sel [OF assms] by (simp_all add: sled_box_def fun_eq_iff)

lemma msg_val: "msg_to_vec C m = Inr (mval C m)" "msg_from_slice C (mval C m) = Inr m"
  using msg_roundtrip [of m] by (auto simp: mval_def)

lemma quota_val: "quota_to_vec C q = Inr (qval C q)" "quota_from_slice C (qval C q) = Inr q"
  using quota_roundtrip [of q] by (auto simp: qval_def)

lemma read_quota_simps:
  assumes "ok t" and "quota_read C (view t) r = Some q"
  shows "read_quota_tree T C t (quota_key r) = Inr q" and "read_quota_tx T C t (quota_key r) = Inr q"
  using assms
  by (auto simp: quota_read_def read_quota_tree_def read_quota_tx_def get_view tx_simps abort_json_def
      split: option.splits sum.splits)

lemma stored_all: "msgs_stored C mv ms \<Longrightarrow> all_msgs C mv = ms"
  by (auto simp: msgs_stored_def all_msgs_def comp_def msg_val)

lemmas sled_msgs_all = stored_all [OF sled_msgs_stored]

lemma sled_rep_unique: "sled_rep view ok C s ms \<Longrightarrow> all_msgs C (view (ss_messages s)) = ms"
  by (auto simp: sled_rep_def dest: sled_msgs_all)

lemma sled_rep_box:
  "sled_rep view ok C s ms \<Longrightarrow> sled_box view C s r
    = ((case seq_read (view (ss_seq s)) r of Some n \<Rightarrow> n | None \<Rightarrow> 0), of_rcpt r ms)"
  by (simp add: sled_box_def sled_rep_unique)

lemma sled_rep_seq:
  assumes "sled_rep view ok C s ms" and "addressable r"
  shows "seq_read (view (ss_seq s)) r = Some (fst (sled_box view C s r))"
    and "m \<in> set ms \<Longrightarrow> qm_recipient m = r \<Longrightarrow> qm_arrival_seq m < fst (sled_box view C s r)"
proof -
  obtain n where n: "seq_read (view (ss_seq s)) r = Some n" "\<forall>m\<in>set (of_rcpt r ms). qm_arrival_seq m < n"
    using assms by (auto simp: sled_rep_def seqs_ok_def)
  then show "seq_read (view (ss_seq s)) r = Some (fst (sled_box view C s r))"
    by (simp add: sled_rep_box [OF assms(1)])
  show "m \<in> set ms \<Longrightarrow> qm_recipient m = r \<Longrightarrow> qm_arrival_seq m < fst (sled_box view C s r)"
    using n by (simp add: sled_rep_box [OF assms(1)])
qed

lemma sled_rep_quota:
  assumes "sled_rep view ok C s ms" and "addressable r"
  obtains q where "quota_read C (view (ss_quota s)) r = Some q" and "quota_for (of_rcpt r ms) q"
  using assms by (auto simp: sled_rep_def quotas_ok_def)

lemma mkey_eq:
  "addressable (qm_recipient m) \<Longrightarrow> addressable r \<Longrightarrow>
     mkey C m = message_key C r n i c \<longleftrightarrow> qm_recipient m = r \<and> qm_arrival_seq m = n \<and> msg_key m = (i, c)"
  by (simp add: mkey_def message_key_eq msg_key_def)

text \<open>Messages of one recipient are stored in the order of their numbers.\<close>

lemma stored_sorted_rcpt:
  assumes "msgs_stored C mv ms" and "bt_ok mv" and "addressable r"
  shows "sorted_wrt (<) (map qm_arrival_seq (of_rcpt r ms))"
proof -
  have "sorted_wrt (<) (map (mkey C) ms)"
    using assms(1,2) by (simp add: msgs_stored_def bt_ok_def comp_def)
  then have "sorted_wrt (\<lambda>x y. mkey C x < mkey C y) (of_rcpt r ms)"
    by (simp add: sorted_wrt_map of_rcpt_def sorted_wrt_filter_sub)
  then have "sorted_wrt (\<lambda>x y. qm_arrival_seq x < qm_arrival_seq y) (of_rcpt r ms)"
  proof (rule sorted_wrt_mono_rel [rotated])
    fix x y assume x: "x \<in> set (of_rcpt r ms)" and y: "y \<in> set (of_rcpt r ms)" and less: "mkey C x < mkey C y"
    then have rec: "qm_recipient x = r" "qm_recipient y = r" and mem: "x \<in> set ms" "y \<in> set ms" by auto
    show "qm_arrival_seq x < qm_arrival_seq y"
    proof (cases "qm_arrival_seq x" "qm_arrival_seq y" rule: linorder_cases)
      case equal
      then have "x = y" using assms(1) mem rec unfolding msgs_stored_def by auto
      with less show ?thesis by simp
    next
      case greater
      then have "mkey C y < mkey C x" using rec by (simp add: mkey_def message_key_less)
      with less show ?thesis by simp
    qed
  qed
  then show ?thesis by (simp add: sorted_wrt_map)
qed

lemmas sled_msgs_sorted_rcpt = stored_sorted_rcpt [OF sled_msgs_stored]

text \<open>What is found under the key of a message.\<close>

lemma stored_get:
  assumes "msgs_stored C mv ms" and "bt_ok mv" and "addressable r"
  shows "bt_get mv (message_key C r n i c) = Some v \<longleftrightarrow>
    (\<exists>m\<in>set ms. qm_recipient m = r \<and> qm_arrival_seq m = n \<and> msg_key m = (i, c) \<and> v = mval C m)"
proof -
  have "bt_get mv (message_key C r n i c) = Some v \<longleftrightarrow> (message_key C r n i c, v) \<in> set mv"
    using assms(2) by (simp add: bt_get_def map_of_keys_sorted bt_ok_def)
  also have "\<dots> \<longleftrightarrow> (\<exists>m\<in>set ms. mkey C m = message_key C r n i c \<and> v = mval C m)"
    using assms(1) by (auto simp: msgs_stored_def image_iff eq_commute [of "mkey C _"])
  also have "\<dots> \<longleftrightarrow> (\<exists>m\<in>set ms. qm_recipient m = r \<and> qm_arrival_seq m = n \<and> msg_key m = (i, c) \<and> v = mval C m)"
    using assms(1,3) mkey_eq unfolding msgs_stored_def by blast
  finally show ?thesis .
qed

text \<open>The index knows at most one message per key, so keys do not repeat.\<close>

lemma sled_msgs_key_unique:
  assumes "sled_msgs C mv iv ms" and "m \<in> set ms" and "m' \<in> set ms"
    and "qm_recipient m = qm_recipient m'" and "msg_key m = msg_key m'"
  shows "m = m'"
proof -
  let ?k = "index_key C (qm_recipient m) (fst (msg_key m)) (snd (msg_key m))"
  have a: "addressable (qm_recipient m)" using assms(1,2) by (simp add: sled_msgs_def)
  then have "bt_get iv ?k = Some (encode_u64 (qm_arrival_seq m))" "bt_get iv ?k = Some (encode_u64 (qm_arrival_seq m'))"
    using assms unfolding sled_msgs_def by auto
  then have "qm_arrival_seq m = qm_arrival_seq m'" by simp
  then show ?thesis using assms unfolding sled_msgs_def by blast
qed

lemma sled_box_ok:
  assumes "sled_inv view ok C s" and r: "addressable r"
  shows "box_ok r (sled_box view C s r)"
proof -
  obtain ms where rep: "sled_rep view ok C s ms" using assms(1) by (auto simp: sled_inv_def)
  then have m: "sled_msgs C (view (ss_messages s)) (view (ss_index s)) ms" and o: "ok (ss_messages s)"
    by (simp_all add: sled_rep_def trees_ok_def)
  have box: "sled_box view C s r = (fst (sled_box view C s r), of_rcpt r ms)"
    by (simp add: sled_rep_box [OF rep])
  obtain q where q: "quota_for (of_rcpt r ms) q" using sled_rep_quota [OF rep r] by blast
  have sorted: "sorted_wrt (<) (map qm_arrival_seq (of_rcpt r ms))"
    by (rule sled_msgs_sorted_rcpt [OF m view_ok [OF o] r])
  then have "distinct (of_rcpt r ms)"
    by (simp add: strict_sorted_iff distinct_map)
  moreover have "inj_on msg_key (set (of_rcpt r ms))"
    using sled_msgs_key_unique [OF m] by (auto intro!: inj_onI)
  ultimately have "distinct (map msg_key (of_rcpt r ms))" by (simp add: distinct_map)
  moreover have "box_bytes (of_rcpt r ms) < 2 ^ 64"
    using q unat_lt_pow [of "qv_bytes q"] by (simp add: quota_for_def)
  ultimately show ?thesis
    using sorted sled_rep_seq(2) [OF rep r] by (subst box) (auto simp: box_ok_def)
qed

lemma stored_inj: "msgs_stored C mv ms \<Longrightarrow> bt_ok mv \<Longrightarrow> distinct ms \<and> inj_on (mkey C) (set ms)"
  by (auto simp: msgs_stored_def bt_ok_def comp_def strict_sorted_iff distinct_map)

lemmas sled_msgs_distinct = stored_inj [OF sled_msgs_stored, THEN conjunct1]

lemma stored_remove:
  assumes "msgs_stored C mv ms" and "bt_ok mv" and m: "m \<in> set ms"
  shows "msgs_stored C (bt_remove (mkey C m) mv) (filter (\<lambda>x. x \<noteq> m) ms)"
proof -
  have "filter (\<lambda>x. mkey C x \<noteq> mkey C m) ms = filter (\<lambda>x. x \<noteq> m) ms"
    by (rule filter_cong) (use stored_inj [OF assms(1,2)] m in \<open>auto dest: inj_onD\<close>)
  then have "bt_remove (mkey C m) mv = map (\<lambda>m. (mkey C m, mval C m)) (filter (\<lambda>x. x \<noteq> m) ms)"
    using assms(1) by (simp add: msgs_stored_def bt_remove_def filter_map comp_def)
  then show ?thesis using assms(1) by (simp add: msgs_stored_def)
qed

lemma sled_msgs_get:
  assumes "sled_msgs C mv iv ms" and "bt_ok mv" and "m \<in> set ms"
  shows "bt_get mv (mkey C m) = Some (mval C m)"
    and "bt_get iv (index_key C (qm_recipient m) (qm_message_id m) (mm_chunk_index (qm_meta m)))
      = Some (encode_u64 (qm_arrival_seq m))"
proof -
  show "bt_get mv (mkey C m) = Some (mval C m)"
    using assms by (simp add: bt_get_def map_of_keys_sorted bt_ok_def) (auto simp: sled_msgs_def)
  show "bt_get iv (index_key C (qm_recipient m) (qm_message_id m) (mm_chunk_index (qm_meta m)))
      = Some (encode_u64 (qm_arrival_seq m))"
    using assms(1,3) unfolding sled_msgs_def by (auto simp: msg_key_def)
qed

text \<open>Removing one message from the message tree and the index.\<close>

lemma sled_msgs_remove:
  assumes s: "sled_msgs C mv iv ms" and mv: "bt_ok mv" and iv: "bt_ok iv" and m: "m \<in> set ms"
  shows "sled_msgs C (bt_remove (mkey C m) mv)
    (bt_remove (index_key C (qm_recipient m) (qm_message_id m) (mm_chunk_index (qm_meta m))) iv)
    (filter (\<lambda>x. x \<noteq> m) ms)"
proof -
  let ?ms = "filter (\<lambda>x. x \<noteq> m) ms"
    and ?iv = "bt_remove (index_key C (qm_recipient m) (qm_message_id m) (mm_chunk_index (qm_meta m))) iv"
  have a: "addressable (qm_recipient x)" if "x \<in> set ms" for x using s that by (simp add: sled_msgs_def)
  have "msgs_stored C (bt_remove (mkey C m) mv) ?ms"
    by (rule stored_remove [OF sled_msgs_stored [OF s] mv m])
  moreover have "bt_get ?iv (index_key C r i c) = Some x
      \<longleftrightarrow> (\<exists>y\<in>set ?ms. qm_recipient y = r \<and> msg_key y = (i, c) \<and> x = encode_u64 (qm_arrival_seq y))"
    if r: "addressable r" for r i c x
  proof (cases "r = qm_recipient m \<and> (i, c) = msg_key m")
    case True
    then have "y = m" if "y \<in> set ms" "qm_recipient y = r" "msg_key y = (i, c)" for y
      using sled_msgs_key_unique [OF s that(1) m] that by simp
    moreover have "bt_get ?iv (index_key C r i c) = None"
      using True by (simp add: bt.get_remove [OF iv] msg_key_def)
    ultimately show ?thesis by auto
  next
    case False
    then have "index_key C r i c \<noteq> index_key C (qm_recipient m) (qm_message_id m) (mm_chunk_index (qm_meta m))"
      using index_key_eq [OF r a [OF m]] by (auto simp: msg_key_def)
    then have "bt_get ?iv (index_key C r i c) = bt_get iv (index_key C r i c)"
      by (simp add: bt.get_remove [OF iv])
    moreover have "bt_get iv (index_key C r i c) = Some x
        \<longleftrightarrow> (\<exists>y\<in>set ms. qm_recipient y = r \<and> msg_key y = (i, c) \<and> x = encode_u64 (qm_arrival_seq y))"
      using s r unfolding sled_msgs_def by blast
    ultimately show ?thesis using False by auto
  qed
  ultimately show ?thesis unfolding sled_msgs_def msgs_stored_def by blast
qed

end

end
