(* ===== verification/Sled_Pull.thy ===== *)
theory Sled_Pull
  imports Sled_Inv
begin

text \<open>
  \<open>SledStore::pull\<close> returns the batch of \<open>spec_batch\<close> and changes nothing.
\<close>

context sled_backend
begin

lemma parse_mkey: "addressable (qm_recipient m) \<Longrightarrow> parse_seq_from_key (mkey C m) = Inr (Some (qm_arrival_seq m))"
  by (simp add: mkey_def parse_message_key)

text \<open>The scan collects the selection up to the limit, and says whether any of it is left.\<close>

lemma sled_scan_selection:
  "\<forall>m\<in>set q. addressable (qm_recipient m) \<Longrightarrow> length items \<le> limit \<Longrightarrow>
   sled_scan C c now limit (map (\<lambda>m. Inr (mkey C m, mval C m)) q) items
     = Inr (items @ take (limit - length items) (selection c now q), limit - length items < length (selection c now q))"
proof (induction q arbitrary: items)
  case Nil
  then show ?case by (simp add: selection_def)
next
  case (Cons m q)
  have skip: "(case c of None \<Rightarrow> False | Some start \<Rightarrow> qm_arrival_seq m \<le> start) \<longleftrightarrow> \<not> after_cursor c m"
    by (auto simp: after_cursor_def split: option.splits)
  have head: "sled_scan C c now limit (Inr (mkey C m, mval C m) # rest) items =
      (if \<not> after_cursor c m \<or> \<not> live now m then sled_scan C c now limit rest items
       else if length items < limit then sled_scan C c now limit rest (items @ [m])
       else Inr (items, True))" for rest
    using Cons.prems(1) by (simp add: parse_mkey msg_val skip live_def not_less)
  show ?case
  proof (cases "after_cursor c m \<and> live now m")
    case False
    then show ?thesis
      using Cons unfolding list.map head by (auto simp: selection_def)
  next
    case True
    then have sel: "selection c now (m # q) = m # selection c now q" by (simp add: selection_def)
    show ?thesis
    proof (cases "length items < limit")
      case less: True
      then have "limit - length items = Suc (limit - length (items @ [m]))" by simp
      with less True show ?thesis
        using Cons.IH [of "items @ [m]"] Cons.prems unfolding list.map head sel by simp
    next
      case False
      with True Cons.prems(2) show ?thesis unfolding list.map head sel by simp
    qed
  qed
qed

lemma scan_of_rcpt:
  assumes "msgs_stored C mv ms" and "addressable r"
  shows "filter (\<lambda>e. has_prefix (message_prefix r) (fst e)) mv = map (\<lambda>m. (mkey C m, mval C m)) (of_rcpt r ms)"
proof -
  have "filter (\<lambda>m. has_prefix (message_prefix r) (mkey C m)) ms = of_rcpt r ms"
    using assms unfolding of_rcpt_def mkey_def msgs_stored_def
    by (intro filter_cong) (auto simp: message_prefix_key)
  then show ?thesis using assms(1) by (simp add: msgs_stored_def filter_map comp_def)
qed

lemma sled_pull_refines:
  assumes inv: "sled_inv view ok C s" and r: "addressable r" and cur: "resolve_cursor E r cursor = Inr c"
  shows "sled_pull E T C s r cursor limit now
    = (Inr (spec_batch E r c limit now (sled_box view C s r) (sled_box view C s r)), s)"
proof -
  obtain ms where rep: "sled_rep view ok C s ms" using inv by (auto simp: sled_inv_def)
  let ?q = "of_rcpt r ms"
  have m: "sled_msgs C (view (ss_messages s)) (view (ss_index s)) ms"
    and ok: "ok (ss_messages s)" "ok (ss_quota s)"
    using rep by (simp_all add: sled_rep_def trees_ok_def)
  obtain v where v: "quota_read C (view (ss_quota s)) r = Some v" "quota_for ?q v"
    using sled_rep_quota [OF rep r] by blast
  have box: "snd (sled_box view C s r) = ?q" by (simp add: sled_rep_box [OF rep])
  have a: "\<forall>x\<in>set ?q. addressable (qm_recipient x)" using r by simp
  have lim: "unat (min limit 4294967295) = page_limit limit" by (simp add: page_limit_def)
  have "tr_scan_prefix T (message_prefix r) (ss_messages s) = map (\<lambda>m. Inr (mkey C m, mval C m)) ?q"
    by (simp add: scan_view ok scan_of_rcpt [OF sled_msgs_stored [OF m] r] comp_def)
  then have scan: "sled_scan C c now (page_limit limit) (tr_scan_prefix T (message_prefix r) (ss_messages s)) []
      = Inr (take (page_limit limit) (selection c now ?q), page_limit limit < length (selection c now ?q))"
    using sled_scan_selection [OF a, of "[]" "page_limit limit"] by simp
  have quota: "read_quota_latest T C s r = Inr v"
    using read_quota_simps(1) [OF ok(2) v(1)] by (simp add: read_quota_latest_def)
  let ?items = "take (page_limit limit) (selection c now ?q)"
  have "length ?items \<le> length ?q" by (auto simp: selection_def intro: min.coboundedI1)
  moreover have "unat (qv_count v) = length ?q" using v(2) by (simp add: quota_for_def)
  moreover from this have "length ?q < 2 ^ 64" using unat_lt_pow [of "qv_count v"] by simp
  ultimately have "sat_sub (qv_count v) (word_of_nat (length ?items)) = word_of_nat (length ?q - length ?items)"
    by (intro sat_sub_of_nat) simp_all
  then show ?thesis
    unfolding sled_pull_def Let_def lim cur res_bind_simps scan quota prod.case
    by (auto simp: spec_batch_def Let_def box)
qed

lemma sled_pull_bad_cursor:
  "resolve_cursor E r cursor = Inl e \<Longrightarrow> sled_pull E T C s r cursor limit now = (Inl e, s)"
  by (simp add: sled_pull_def)

end

end
