(* ===== verification/Sled_Push.thy ===== *)
theory Sled_Push
  imports Sled_Inv
begin

text \<open>
  \<open>SledStore::push\<close> keeps the invariant and implements \<open>spec_push\<close>.
\<close>

section \<open>Push\<close>

text \<open>The messages after one more was stored: it goes between those of smaller and larger key.\<close>

definition put_msg :: "'c sled_codecs_scheme \<Rightarrow> queue_message \<Rightarrow> queue_message list \<Rightarrow> queue_message list" where
  "put_msg C m ms = filter (\<lambda>x. mkey C x < mkey C m) ms @ m # filter (\<lambda>x. mkey C m < mkey C x) ms"

text \<open>The store after \<open>msg\<close> was stored as number \<open>n\<close> with quota \<open>q\<close>.\<close>

definition pushed ::
  "('t, 'x) tree_ops_scheme \<Rightarrow> 'c sled_codecs_scheme \<Rightarrow> inbound_message \<Rightarrow> u64 \<Rightarrow> quota_value \<Rightarrow> 't sled_store \<Rightarrow> 't sled_store" where
  "pushed T C msg n q s =
     (let r = im_recipient msg; m = stored_message msg n in
      \<lparr>ss_messages = tree_ins T (mkey C m) (mval C m) (ss_messages s),
       ss_index = tree_ins T (index_key C r (im_message_id msg) (mm_chunk_index (im_meta msg))) (encode_u64 n) (ss_index s),
       ss_quota = tree_ins T (quota_key r) (qval C q) (ss_quota s),
       ss_seq = tree_ins T (seq_key r) (encode_u64 (sat_add n 1)) (ss_seq s)\<rparr>)"

context sled_backend
begin

lemma put_msg_view:
  assumes "mv = map (\<lambda>m. (mkey C m, mval C m)) ms" and "bt_ok mv"
  shows "bt_insert (mkey C m) (mval C m) mv = map (\<lambda>m. (mkey C m, mval C m)) (put_msg C m ms)"
  using bt.entries_insert [OF assms(2)]
  by (simp add: put_msg_def assms(1) filter_map comp_def)

lemma mkey_inj:
  assumes "msgs_stored C mv ms" and "x \<in> set ms" and "addressable (qm_recipient m)" and "mkey C x = mkey C m"
  shows "qm_recipient x = qm_recipient m \<and> qm_arrival_seq x = qm_arrival_seq m"
  using assms by (auto simp: msgs_stored_def mkey_def message_key_eq)

lemma set_put_msg:
  assumes "msgs_stored C mv ms" and "addressable (qm_recipient m)"
    and "\<forall>x\<in>set ms. qm_recipient x = qm_recipient m \<longrightarrow> qm_arrival_seq x < qm_arrival_seq m"
  shows "set (put_msg C m ms) = insert m (set ms)"
proof -
  have "mkey C x \<noteq> mkey C m" if "x \<in> set ms" for x
    using mkey_inj [OF assms(1) that assms(2)] assms(3) that by auto
  then have "mkey C x < mkey C m \<or> mkey C m < mkey C x" if "x \<in> set ms" for x
    using that by (meson linorder_neqE)
  then show ?thesis unfolding put_msg_def by auto
qed

lemma of_rcpt_put_msg:
  assumes "msgs_stored C mv ms" and "addressable (qm_recipient m)"
    and "\<forall>x\<in>set ms. qm_recipient x = qm_recipient m \<longrightarrow> qm_arrival_seq x < qm_arrival_seq m"
    and "bt_ok mv"
  shows "of_rcpt r (put_msg C m ms) = (if r = qm_recipient m then of_rcpt r ms @ [m] else of_rcpt r ms)"
proof -
  have sorted: "sorted_wrt (\<lambda>x y. mkey C x < mkey C y) ms"
    using assms(1,4) by (simp add: msgs_stored_def bt_ok_def sorted_wrt_map)
  have less: "mkey C x < mkey C m" if "x \<in> set ms" "qm_recipient x = qm_recipient m" for x
    using assms(3) that by (simp add: mkey_def message_key_less)
  have ne: "mkey C x \<noteq> mkey C m" if "x \<in> set ms" for x
    using mkey_inj [OF assms(1) that assms(2)] assms(3) that by auto
  have split: "filter (\<lambda>x. mkey C x < mkey C m) ms @ filter (\<lambda>x. mkey C m < mkey C x) ms = ms"
    using sorted ne
  proof (induction ms)
    case (Cons a ms)
    show ?case
    proof (cases "mkey C a < mkey C m")
      case True
      with Cons show ?thesis by auto
    next
      case False
      then have a: "mkey C m < mkey C a" using Cons.prems(2) [of a] by auto
      then have "\<forall>x\<in>set ms. mkey C m < mkey C x" using Cons.prems(1) by auto
      with a show ?thesis by (auto simp: filter_empty_conv filter_id_conv dest: less_asym)
    qed
  qed simp
  have "of_rcpt r (put_msg C m ms)
      = of_rcpt r (filter (\<lambda>x. mkey C x < mkey C m) ms) @ (if qm_recipient m = r then [m] else [])
        @ of_rcpt r (filter (\<lambda>x. mkey C m < mkey C x) ms)"
    by (simp add: put_msg_def)
  moreover have "of_rcpt r (filter (\<lambda>x. mkey C m < mkey C x) ms) = []" if "r = qm_recipient m"
    using less that by (auto simp: of_rcpt_def filter_empty_conv dest: less_asym)
  moreover have "of_rcpt r (filter (\<lambda>x. mkey C x < mkey C m) ms)
      @ of_rcpt r (filter (\<lambda>x. mkey C m < mkey C x) ms) = of_rcpt r ms"
    by (metis of_rcpt_simps(3) split)
  ultimately show ?thesis by auto
qed

text \<open>Storing one message: messages and index.\<close>

lemma stored_put:
  assumes m: "msgs_stored C mv ms" and mv: "bt_ok mv" and a: "addressable (qm_recipient m)"
    and seqs: "\<forall>x\<in>set ms. qm_recipient x = qm_recipient m \<longrightarrow> qm_arrival_seq x < qm_arrival_seq m"
  shows "msgs_stored C (bt_insert (mkey C m) (mval C m) mv) (put_msg C m ms)"
proof -
  have set: "set (put_msg C m ms) = insert m (set ms)" by (rule set_put_msg [OF m a seqs])
  have "bt_insert (mkey C m) (mval C m) mv = map (\<lambda>m. (mkey C m, mval C m)) (put_msg C m ms)"
    using m mv by (intro put_msg_view) (simp_all add: msgs_stored_def)
  moreover have "\<forall>x\<in>set (put_msg C m ms). addressable (qm_recipient x)"
    using m a by (auto simp: set msgs_stored_def)
  moreover have "x = y" if "x \<in> set (put_msg C m ms)" "y \<in> set (put_msg C m ms)"
      "qm_recipient x = qm_recipient y" "qm_arrival_seq x = qm_arrival_seq y" for x y
    using that m seqs unfolding set msgs_stored_def by auto
  ultimately show ?thesis unfolding msgs_stored_def by blast
qed

lemma sled_msgs_put:
  assumes m: "sled_msgs C mv iv ms" and mv: "bt_ok mv" and iv: "bt_ok iv" and a: "addressable (qm_recipient m)"
    and seqs: "\<forall>x\<in>set ms. qm_recipient x = qm_recipient m \<longrightarrow> qm_arrival_seq x < qm_arrival_seq m"
    and fresh: "\<forall>x\<in>set ms. qm_recipient x = qm_recipient m \<longrightarrow> msg_key x \<noteq> msg_key m"
    and key: "msg_key m = (i, c)"
  shows "sled_msgs C (bt_insert (mkey C m) (mval C m) mv)
    (bt_insert (index_key C (qm_recipient m) i c) (encode_u64 (qm_arrival_seq m)) iv) (put_msg C m ms)"
proof -
  note stored = sled_msgs_stored [OF m]
  have set: "set (put_msg C m ms) = insert m (set ms)" by (rule set_put_msg [OF stored a seqs])
  have "msgs_stored C (bt_insert (mkey C m) (mval C m) mv) (put_msg C m ms)"
    by (rule stored_put [OF stored mv a seqs])
  moreover have "bt_get (bt_insert (index_key C (qm_recipient m) i c) (encode_u64 (qm_arrival_seq m)) iv)
        (index_key C r j d) = Some x
      \<longleftrightarrow> (\<exists>y\<in>set (put_msg C m ms). qm_recipient y = r \<and> msg_key y = (j, d) \<and> x = encode_u64 (qm_arrival_seq y))"
    if r: "addressable r" for r j d x
  proof (cases "r = qm_recipient m \<and> j = i \<and> d = c")
    case True
    then show ?thesis
      using fresh key by (auto simp: set bt.get_insert [OF iv] index_key_eq [OF r a])
  next
    case False
    then have "bt_get (bt_insert (index_key C (qm_recipient m) i c) (encode_u64 (qm_arrival_seq m)) iv)
        (index_key C r j d) = bt_get iv (index_key C r j d)"
      by (simp only: bt.get_insert [OF iv] index_key_eq [OF r a] if_False)
    moreover have "bt_get iv (index_key C r j d) = Some x
        \<longleftrightarrow> (\<exists>y\<in>set ms. qm_recipient y = r \<and> msg_key y = (j, d) \<and> x = encode_u64 (qm_arrival_seq y))"
      using m r unfolding sled_msgs_def by blast
    ultimately show ?thesis using False key by (auto simp: set)
  qed
  ultimately show ?thesis unfolding sled_msgs_def msgs_stored_def by blast
qed

text \<open>Counters and quotas after one of them was written.\<close>

lemma seq_read_insert:
  "bt_ok sv \<Longrightarrow> seq_read (bt_insert (seq_key r) (encode_u64 n) sv) q = (if q = r then Some n else seq_read sv q)"
  by (simp add: seq_read_def bt.get_insert)

lemma quota_read_insert:
  "bt_ok qv \<Longrightarrow> quota_read C (bt_insert (quota_key r) (qval C v) qv) q = (if q = r then Some v else quota_read C qv q)"
  by (simp add: quota_read_def bt.get_insert quota_val)

lemma less_sat_add_one: "n \<noteq> - 1 \<Longrightarrow> k < sat_add n 1 \<longleftrightarrow> k \<le> n" for n :: u64
  using sat_add_one [of n] by (simp add: word_less_nat_alt word_le_nat_alt less_Suc_eq_le)

lemma seqs_ok_put:
  assumes "seqs_ok sv ms" and "bt_ok sv" and "seq_read sv (qm_recipient m) = Some (qm_arrival_seq m)"
    and "qm_arrival_seq m \<noteq> - 1" and "set ms' = insert m (set ms)"
  shows "seqs_ok (bt_insert (seq_key (qm_recipient m)) (encode_u64 (sat_add (qm_arrival_seq m) 1)) sv) ms'"
  unfolding seqs_ok_def
proof (intro allI impI)
  fix p assume p: "addressable p"
  then obtain k where "seq_read sv p = Some k" "\<forall>x\<in>set (of_rcpt p ms). qm_arrival_seq x < k"
    using assms(1) by (auto simp: seqs_ok_def)
  then show "\<exists>k. seq_read (bt_insert (seq_key (qm_recipient m)) (encode_u64 (sat_add (qm_arrival_seq m) 1)) sv) p = Some k
      \<and> (\<forall>x\<in>set (of_rcpt p ms'). qm_arrival_seq x < k)"
    using assms(3,5) by (cases "p = qm_recipient m")
      (auto simp: seq_read_insert [OF assms(2)] less_sat_add_one [OF assms(4)] less_imp_le)
qed

lemma seq_tx:
  assumes "ok t" and "seq_read (view t) r = Some n"
  shows "res_bind (tx_get T t (seq_key r)) (\<lambda>raw.
    res_bind (case raw of None \<Rightarrow> Inr 0 | Some v \<Rightarrow> map_err Abort (decode_u64 v)) f) = f n"
  using assms by (auto simp: tx_simps seq_read_def split: option.splits sum.splits)

lemma index_hit:
  assumes "sled_msgs C mv iv ms" and "addressable r"
  shows "bt_get iv (index_key C r i c) \<noteq> None \<longleftrightarrow> (i, c) \<in> msg_key ` set (of_rcpt r ms)"
proof -
  have "bt_get iv (index_key C r i c) \<noteq> None \<longleftrightarrow> (\<exists>x. bt_get iv (index_key C r i c) = Some x)" by simp
  also have "\<dots> \<longleftrightarrow> (\<exists>m\<in>set ms. qm_recipient m = r \<and> msg_key m = (i, c))"
    using assms unfolding sled_msgs_def by blast
  also have "\<dots> \<longleftrightarrow> (i, c) \<in> msg_key ` set (of_rcpt r ms)" by force
  finally show ?thesis .
qed

text \<open>The transaction of a push, branch by branch, whatever the index holds.\<close>

lemma push_tx_cases:
  assumes ok: "trees_ok ok s" and q: "quota_read C (view (ss_quota s)) (im_recipient msg) = Some q"
    and n: "seq_read (view (ss_seq s)) (im_recipient msg) = Some n"
    and hit: "hit \<longleftrightarrow> bt_get (view (ss_index s)) (index_key C (im_recipient msg) (im_message_id msg) (mm_chunk_index (im_meta msg))) \<noteq> None"
  shows "push_tx T C msg limits s =
    (if hit
     then Inr (\<lparr>ps_stored = False, ps_duplicate = True, ps_queue_len = qv_count q, ps_queue_bytes = qv_bytes q\<rparr>, s)
     else if max_messages_per_user limits < sat_add (qv_count q) 1
       \<or> max_queue_bytes_per_user limits < sat_add (qv_bytes q) (im_payload_bytes msg)
     then Inl (Abort QuotaExceeded)
     else
       (let q' = q\<lparr>qv_count := sat_add (qv_count q) 1, qv_bytes := sat_add (qv_bytes q) (im_payload_bytes msg)\<rparr> in
        Inr (\<lparr>ps_stored = True, ps_duplicate = False, ps_queue_len = qv_count q', ps_queue_bytes = qv_bytes q'\<rparr>,
             pushed T C msg n q' s)))"
proof -
  have oks: "ok (ss_messages s)" "ok (ss_index s)" "ok (ss_quota s)" "ok (ss_seq s)"
    using ok by (simp_all add: trees_ok_def)
  have key: "message_key C (im_recipient msg) n (im_message_id msg) (mm_chunk_index (im_meta msg)) = mkey C (stored_message msg n)"
    by (simp add: mkey_def)
  show ?thesis
    unfolding push_tx_def Let_def tx_simps(1) [OF oks(2)] res_bind_simps hit
      read_quota_simps(2) [OF oks(3) q] seq_tx [OF oks(4) n] key
    by (simp add: tx_simps oks abort_json_def msg_val quota_val pushed_def Let_def)
qed

lemma push_tx_run:
  assumes rep: "sled_rep view ok C s ms" and r: "addressable (im_recipient msg)"
    and q: "quota_read C (view (ss_quota s)) (im_recipient msg) = Some q"
    and n: "seq_read (view (ss_seq s)) (im_recipient msg) = Some n"
  shows "push_tx T C msg limits s =
    (if inbound_key msg \<in> msg_key ` set (of_rcpt (im_recipient msg) ms)
     then Inr (\<lparr>ps_stored = False, ps_duplicate = True, ps_queue_len = qv_count q, ps_queue_bytes = qv_bytes q\<rparr>, s)
     else if max_messages_per_user limits < sat_add (qv_count q) 1
       \<or> max_queue_bytes_per_user limits < sat_add (qv_bytes q) (im_payload_bytes msg)
     then Inl (Abort QuotaExceeded)
     else
       (let q' = q\<lparr>qv_count := sat_add (qv_count q) 1, qv_bytes := sat_add (qv_bytes q) (im_payload_bytes msg)\<rparr> in
        Inr (\<lparr>ps_stored = True, ps_duplicate = False, ps_queue_len = qv_count q', ps_queue_bytes = qv_bytes q'\<rparr>,
             pushed T C msg n q' s)))"
proof (rule push_tx_cases [OF _ q n])
  show "trees_ok ok s" using rep by (simp add: sled_rep_def)
  show "inbound_key msg \<in> msg_key ` set (of_rcpt (im_recipient msg) ms)
      \<longleftrightarrow> bt_get (view (ss_index s)) (index_key C (im_recipient msg) (im_message_id msg) (mm_chunk_index (im_meta msg))) \<noteq> None"
    using index_hit [OF _ r] rep unfolding sled_rep_def inbound_key_def by blast
qed

lemma pushed_ok:
  assumes "trees_ok ok s"
  shows "trees_ok ok (pushed T C msg n q s)"
  using assms by (simp add: trees_ok_def pushed_def Let_def tree_ok_simps)

lemma pushed_rep:
  assumes rep: "sled_rep view ok C s ms" and r: "addressable (im_recipient msg)"
    and n: "seq_read (view (ss_seq s)) (im_recipient msg) = Some n" and room: "n \<noteq> - 1"
    and fresh: "inbound_key msg \<notin> msg_key ` set (of_rcpt (im_recipient msg) ms)"
    and q: "quota_for (of_rcpt (im_recipient msg) ms @ [stored_message msg n]) q"
  shows "sled_rep view ok C (pushed T C msg n q s) (put_msg C (stored_message msg n) ms)"
proof -
  let ?r = "im_recipient msg" and ?m = "stored_message msg n"
  have ok: "ok (ss_messages s)" "ok (ss_index s)" "ok (ss_quota s)" "ok (ss_seq s)"
    and m: "sled_msgs C (view (ss_messages s)) (view (ss_index s)) ms"
    and seqs: "seqs_ok (view (ss_seq s)) ms" and quotas: "quotas_ok C (view (ss_quota s)) ms"
    using rep by (simp_all add: sled_rep_def trees_ok_def)
  have a: "addressable (qm_recipient ?m)" using r by simp
  have below: "\<forall>x\<in>set ms. qm_recipient x = qm_recipient ?m \<longrightarrow> qm_arrival_seq x < qm_arrival_seq ?m"
    using seqs r n by (auto simp: seqs_ok_def)
  have split: "of_rcpt q (put_msg C ?m ms) = (if q = ?r then of_rcpt q ms @ [?m] else of_rcpt q ms)" for q
    using of_rcpt_put_msg [OF sled_msgs_stored [OF m] a below view_ok [OF ok(1)]] by simp
  have new: "\<forall>x\<in>set ms. qm_recipient x = qm_recipient ?m \<longrightarrow> msg_key x \<noteq> msg_key ?m"
    using fresh by force
  have key: "msg_key ?m = (im_message_id msg, mm_chunk_index (im_meta msg))"
    by (simp add: inbound_key_def)
  have core: "sled_msgs C (view (ss_messages (pushed T C msg n q s))) (view (ss_index (pushed T C msg n q s)))
      (put_msg C ?m ms)"
    using sled_msgs_put [OF m view_ok [OF ok(1)] view_ok [OF ok(2)] a below new key]
    by (simp add: pushed_def Let_def tree_ok_simps ok)
  have "seqs_ok (view (ss_seq (pushed T C msg n q s))) (put_msg C ?m ms)"
    using seqs_ok_put [OF seqs view_ok [OF ok(4)], of ?m] n room set_put_msg [OF sled_msgs_stored [OF m] a below]
    by (simp add: pushed_def Let_def tree_ok_simps ok)
  moreover have "quotas_ok C (view (ss_quota (pushed T C msg n q s))) (put_msg C ?m ms)"
    using quotas q by (simp add: quotas_ok_def pushed_def Let_def tree_ok_simps ok quota_read_insert view_ok split)
  moreover have "trees_ok ok (pushed T C msg n q s)"
    using rep by (intro pushed_ok) (simp add: sled_rep_def)
  ultimately show ?thesis using core by (simp add: sled_rep_def)
qed

text \<open>The mailboxes after a push was stored.\<close>

lemma pushed_box:
  assumes rep: "sled_rep view ok C s ms" and r: "addressable (im_recipient msg)"
    and n: "seq_read (view (ss_seq s)) (im_recipient msg) = Some n" and room: "n \<noteq> - 1"
    and fresh: "inbound_key msg \<notin> msg_key ` set (of_rcpt (im_recipient msg) ms)"
    and q: "quota_for (of_rcpt (im_recipient msg) ms @ [stored_message msg n]) q"
  shows "sled_box view C (pushed T C msg n q s) p =
    (if p = im_recipient msg then (n + 1, of_rcpt p ms @ [stored_message msg n]) else sled_box view C s p)"
proof -
  let ?r = "im_recipient msg" and ?m = "stored_message msg n" and ?s = "pushed T C msg n q s"
  have ok: "ok (ss_seq s)" using rep by (simp add: sled_rep_def trees_ok_def)
  have split: "of_rcpt p (put_msg C ?m ms) = (if p = ?r then of_rcpt p ms @ [?m] else of_rcpt p ms)"
    using rep r n by (subst of_rcpt_put_msg [OF sled_msgs_stored]) (auto simp: sled_rep_def trees_ok_def seqs_ok_def view_ok)
  have sv: "view (ss_seq ?s) = bt_insert (seq_key ?r) (encode_u64 (sat_add n 1)) (view (ss_seq s))"
    by (simp add: pushed_def Let_def tree_ok_simps ok)
  have "sat_add n 1 = n + 1" using unat_not_max [OF room] by (simp add: sat_add_def)
  then show ?thesis
    using sled_rep_box [OF pushed_rep [OF assms]] sled_rep_box [OF rep]
    by (simp add: sv seq_read_insert view_ok ok split)
qed

lemma transaction_ok:
  assumes "f s = Inr (x, s')" and "\<forall>t\<in>set (trees s'). ok t"
  shows "transaction T trees f s = (Inr x, s')"
  using assms by (simp add: transaction_def commit_view)

lemma sled_push_run:
  assumes "trees_ok ok s" and "push_tx T C msg limits s = tx" and "\<And>x s'. tx = Inr (x, s') \<Longrightarrow> trees_ok ok s'"
  shows "sled_push T C s msg limits =
    (case tx of Inl e \<Rightarrow> (Inl (tx_result e), s) | Inr (x, s') \<Rightarrow> (Inr x, synced T s'))"
proof (cases tx)
  case (Inl e)
  with assms(2) show ?thesis by (simp add: sled_push_def transaction_def)
next
  case (Inr p)
  obtain x s' where p: "p = (x, s')" by fastforce
  have "trees_ok ok s'" using assms(3) Inr p by simp
  moreover from this have "transaction T (\<lambda>s. [ss_messages s, ss_index s, ss_quota s, ss_seq s])
      (push_tx T C msg limits) s = (Inr x, s')"
    using assms(2) Inr p by (intro transaction_ok) (simp_all add: trees_ok_def)
  ultimately show ?thesis
    using Inr p synced_run [of s' "\<lambda>_ s. (Inr x, s)"] by (simp add: sled_push_def)
qed

lemma sled_push_quota:
  assumes inv: "sled_inv view ok C s" and rep: "sled_rep view ok C s ms" and r: "addressable r"
    and q: "quota_for (of_rcpt r ms) q" and room: "fst (sled_box view C s r) \<noteq> - 1"
    and lim: "max_queue_bytes_per_user limits \<noteq> - 1"
  shows "(max_messages_per_user limits < sat_add (qv_count q) 1 \<or> max_queue_bytes_per_user limits < sat_add (qv_bytes q) p)
      \<longleftrightarrow> unat (max_messages_per_user limits) < length (of_rcpt r ms) + 1
        \<or> unat (max_queue_bytes_per_user limits) < box_bytes (of_rcpt r ms) + unat p"
    and "\<not> (unat (max_messages_per_user limits) < length (of_rcpt r ms) + 1
        \<or> unat (max_queue_bytes_per_user limits) < box_bytes (of_rcpt r ms) + unat p) \<Longrightarrow> qm_payload_bytes m = p \<Longrightarrow>
      quota_for (of_rcpt r ms @ [m]) (q\<lparr>qv_count := sat_add (qv_count q) 1, qv_bytes := sat_add (qv_bytes q) p\<rparr>)"
proof -
  have "sled_box view C s r = (fst (sled_box view C s r), of_rcpt r ms)" by (simp add: sled_rep_box [OF rep])
  then have "length (of_rcpt r ms) \<le> unat (fst (sled_box view C s r))"
    using box_ok_length [of r "fst (sled_box view C s r)" "of_rcpt r ms"] sled_box_ok [OF inv r] by simp
  then have "length (of_rcpt r ms) + 1 < 2 ^ 64" using unat_not_max [OF room] by simp
  moreover have "unat (qv_count q) = length (of_rcpt r ms)" "unat (qv_bytes q) = box_bytes (of_rcpt r ms)"
    using q by (simp_all add: quota_for_def)
  moreover have "unat (max_queue_bytes_per_user limits) < 2 ^ 64 - 1" using unat_not_max [OF lim] by simp
  ultimately show "(max_messages_per_user limits < sat_add (qv_count q) 1 \<or> max_queue_bytes_per_user limits < sat_add (qv_bytes q) p)
      \<longleftrightarrow> unat (max_messages_per_user limits) < length (of_rcpt r ms) + 1
        \<or> unat (max_queue_bytes_per_user limits) < box_bytes (of_rcpt r ms) + unat p"
    and "\<not> (unat (max_messages_per_user limits) < length (of_rcpt r ms) + 1
        \<or> unat (max_queue_bytes_per_user limits) < box_bytes (of_rcpt r ms) + unat p) \<Longrightarrow> qm_payload_bytes m = p \<Longrightarrow>
      quota_for (of_rcpt r ms @ [m]) (q\<lparr>qv_count := sat_add (qv_count q) 1, qv_bytes := sat_add (qv_bytes q) p\<rparr>)"
    using quota_full [OF _ _ _ lim] by (simp_all add: quota_for_def sat_simps)
qed

lemma sled_push_refines:
  assumes inv: "sled_inv view ok C s" and r: "addressable (im_recipient msg)"
    and lim: "max_queue_bytes_per_user limits \<noteq> - 1"
    and room: "fst (sled_box view C s (im_recipient msg)) \<noteq> - 1"
    and push: "sled_push T C s msg limits = (res, s')"
  shows "sled_inv view ok C s'
    \<and> spec_push limits msg (sled_box view C s (im_recipient msg)) = (res, sled_box view C s' (im_recipient msg))
    \<and> (\<forall>q. addressable q \<longrightarrow> q \<noteq> im_recipient msg \<longrightarrow> sled_box view C s' q = sled_box view C s q)"
proof -
  let ?r = "im_recipient msg"
  obtain ms where rep: "sled_rep view ok C s ms" using inv by (auto simp: sled_inv_def)
  define n where "n = fst (sled_box view C s ?r)"
  obtain q where q: "quota_read C (view (ss_quota s)) ?r = Some q" "quota_for (of_rcpt ?r ms) q"
    using sled_rep_quota [OF rep r] by blast
  have n: "seq_read (view (ss_seq s)) ?r = Some n" unfolding n_def by (rule sled_rep_seq(1) [OF rep r])
  have box: "sled_box view C s ?r = (n, of_rcpt ?r ms)"
    unfolding n_def by (simp add: sled_rep_box [OF rep])
  have ok: "trees_ok ok s" using rep by (simp add: sled_rep_def)
  note quota = sled_push_quota [OF inv rep r q(2) room lim, of "im_payload_bytes msg"]
  note run = sled_push_run [OF ok push_tx_run [OF rep r q(1) n, of limits]]
  consider (dup) "inbound_key msg \<in> msg_key ` set (of_rcpt ?r ms)"
    | (full) "inbound_key msg \<notin> msg_key ` set (of_rcpt ?r ms)"
        "unat (max_messages_per_user limits) < length (of_rcpt ?r ms) + 1
         \<or> unat (max_queue_bytes_per_user limits) < box_bytes (of_rcpt ?r ms) + unat (im_payload_bytes msg)"
    | (store) "inbound_key msg \<notin> msg_key ` set (of_rcpt ?r ms)"
        "\<not> (unat (max_messages_per_user limits) < length (of_rcpt ?r ms) + 1
         \<or> unat (max_queue_bytes_per_user limits) < box_bytes (of_rcpt ?r ms) + unat (im_payload_bytes msg))"
    by blast
  then show ?thesis
  proof cases
    case dup
    then have "(res, s') = (Inr \<lparr>ps_stored = False, ps_duplicate = True, ps_queue_len = qv_count q,
        ps_queue_bytes = qv_bytes q\<rparr>, synced T s)"
      using push run ok by simp
    with dup show ?thesis
      using synced_rep(2) [OF rep] quota_for_values [OF q(2)]
      by (auto simp: synced_box(2) [OF ok] box sled_inv_def)
  next
    case full
    then have "(res, s') = (Inl QuotaExceeded, s)"
      using push run ok unfolding quota(1) by simp
    with full show ?thesis using inv by (simp add: box)
  next
    case store
    let ?q = "q\<lparr>qv_count := sat_add (qv_count q) 1, qv_bytes := sat_add (qv_bytes q) (im_payload_bytes msg)\<rparr>"
    have out: "res = Inr \<lparr>ps_stored = True, ps_duplicate = False, ps_queue_len = qv_count ?q, ps_queue_bytes = qv_bytes ?q\<rparr>"
      and s': "s' = synced T (pushed T C msg n ?q s)"
      using push run store pushed_ok [OF ok] unfolding quota(1) by (simp_all add: Let_def)
    have q': "quota_for (of_rcpt ?r ms @ [stored_message msg n]) ?q" by (rule quota(2) [OF store(2)]) simp
    note stored = rep r n room [folded n_def] store(1) q'
    have "sled_inv view ok C s'" using synced_rep(2) [OF pushed_rep [OF stored]] by (auto simp: sled_inv_def s')
    moreover have "sled_box view C s' p
        = (if p = ?r then (n + 1, of_rcpt p ms @ [stored_message msg n]) else sled_box view C s p)" for p
      unfolding s' synced_box(2) [OF pushed_ok [OF ok]] by (rule pushed_box [OF stored])
    ultimately show ?thesis
      using store quota_for_values [OF q'] by (simp add: box out Let_def)
  qed
qed

end

end
