(* ===== verification/Sled_Ack.thy ===== *)
theory Sled_Ack
  imports Sled_Push
begin

text \<open>
  \<open>SledStore::ack\<close>: the transaction removes the named messages of the recipient with their
  index entries, keeps the invariant and gives the figures of \<open>spec_ack\<close>.
\<close>

text \<open>The messages left when those of \<open>r\<close> with a key in \<open>ks\<close> are removed.\<close>

definition drop_keys :: "string \<Rightarrow> dedup_key set \<Rightarrow> queue_message list \<Rightarrow> queue_message list" where
  "drop_keys r ks ms = filter (\<lambda>m. \<not> (qm_recipient m = r \<and> msg_key m \<in> ks)) ms"

lemma drop_keys_insert: "drop_keys r ks (drop_keys r {k} ms) = drop_keys r (insert k ks) ms"
  by (auto simp: drop_keys_def intro: filter_cong)

lemma of_rcpt_drop_keys:
  "of_rcpt q (drop_keys r ks ms) = (if q = r then filter (\<lambda>m. msg_key m \<notin> ks) (of_rcpt r ms) else of_rcpt q ms)"
  by (auto simp: drop_keys_def of_rcpt_def intro: filter_cong)

text \<open>The state of the loop: the trees of messages and index represent \<open>ms\<close>, the quota that of \<open>r\<close>.\<close>

definition ack_state ::
  "('t \<Rightarrow> (bytes, bytes) btree) \<Rightarrow> ('t \<Rightarrow> bool) \<Rightarrow> 'c sled_codecs_scheme \<Rightarrow> string \<Rightarrow> 't \<Rightarrow> 't
     \<Rightarrow> 't sled_store \<Rightarrow> quota_value \<Rightarrow> queue_message list \<Rightarrow> bool" where
  "ack_state view ok C r quota seq s q ms \<longleftrightarrow>
     trees_ok ok s \<and> ss_quota s = quota \<and> ss_seq s = seq
     \<and> sled_msgs C (view (ss_messages s)) (view (ss_index s)) ms \<and> quota_for (of_rcpt r ms) q"

lemma hits_count:
  assumes "distinct xs" and "set xs = set items" and "distinct (map msg_key q)"
  shows "length (filter (\<lambda>a. ack_key a \<in> msg_key ` set q) xs) = ack_count items (n, q)"
    and "length (filter (\<lambda>a. ack_key a \<notin> msg_key ` set q) xs) = length xs - ack_count items (n, q)"
proof -
  let ?hits = "filter (\<lambda>a. ack_key a \<in> msg_key ` set q) xs"
  have "distinct (map ack_key ?hits)" using assms(1) by (simp add: distinct_map inj_ack_key)
  moreover have "distinct (map msg_key (filter (acked items) q))"
    using assms(3) by (simp add: distinct_map_filter)
  moreover have "set (map ack_key ?hits) = set (map msg_key (filter (acked items) q))"
  proof -
    have "ack_key ` {a \<in> set items. ack_key a \<in> K} = ack_key ` set items \<inter> K"
      and "msg_key ` {m \<in> set q. msg_key m \<in> A} = msg_key ` set q \<inter> A" for K A
      by blast+
    then show ?thesis using assms(2) by (simp add: acked_def Int_commute)
  qed
  ultimately have "length (map ack_key ?hits) = length (map msg_key (filter (acked items) q))"
    by (metis distinct_card)
  then show hits: "length ?hits = ack_count items (n, q)" by (simp add: ack_count_def)
  show "length (filter (\<lambda>a. ack_key a \<notin> msg_key ` set q) xs) = length xs - ack_count items (n, q)"
    using sum_length_filter_compl [of "\<lambda>a. ack_key a \<in> msg_key ` set q" xs] hits by linarith
qed

context sled_backend
begin

lemma drop_one:
  assumes "sled_msgs C mv iv ms" and "m \<in> set ms"
  shows "drop_keys (qm_recipient m) {msg_key m} ms = filter (\<lambda>x. x \<noteq> m) ms"
  unfolding drop_keys_def
  by (rule filter_cong) (use assms sled_msgs_key_unique [OF assms(1) _ assms(2)] in auto)

lemma sled_ack_one_hit:
  assumes st: "ack_state view ok C r quota seq s q ms" and m: "m \<in> set ms" "qm_recipient m = r" "msg_key m = ack_key a"
  shows "\<exists>s' q'. sled_ack_one T C r a (s, q, out) = Inr (s', q', out\<lparr>ao_deleted := sat_add (ao_deleted out) 1\<rparr>)
    \<and> ack_state view ok C r quota seq s' q' (drop_keys r {ack_key a} ms)"
proof -
  let ?i = "ai_message_id a" and ?c = "ai_chunk_index a"
  have ok: "ok (ss_messages s)" "ok (ss_index s)" "ok (ss_quota s)" "ok (ss_seq s)"
    and sm: "sled_msgs C (view (ss_messages s)) (view (ss_index s)) ms" and q: "quota_for (of_rcpt r ms) q"
    using st by (auto simp: ack_state_def trees_ok_def)
  have id: "qm_message_id m = ?i" "mm_chunk_index (qm_meta m) = ?c"
    using m(3) by (simp_all add: msg_key_def ack_key_def)
  note get = sled_msgs_get [OF sm view_ok [OF ok(1)] m(1), unfolded id m(2)]
  have key: "message_key C r (qm_arrival_seq m) ?i ?c = mkey C m"
    by (simp add: mkey_def id m(2))
  let ?s = "s\<lparr>ss_messages := tree_del T (mkey C m) (ss_messages s), ss_index := tree_del T (index_key C r ?i ?c) (ss_index s)\<rparr>"
  let ?q = "q\<lparr>qv_count := sat_sub (qv_count q) 1, qv_bytes := sat_sub (qv_bytes q) (qm_payload_bytes m)\<rparr>"
  have run: "sled_ack_one T C r a (s, q, out) = Inr (?s, ?q, out\<lparr>ao_deleted := sat_add (ao_deleted out) 1\<rparr>)"
    by (simp add: sled_ack_one_def Let_def tx_simps ok get key abort_json_def msg_val)
  have "distinct (of_rcpt r ms)"
    using sled_msgs_distinct [OF sm view_ok [OF ok(1)]] by (simp add: of_rcpt_def)
  then have "quota_for (filter (\<lambda>x. x \<noteq> m) (of_rcpt r ms)) ?q"
    using m by (intro quota_for_remove [OF q]) simp_all
  moreover have "drop_keys r {ack_key a} ms = filter (\<lambda>x. x \<noteq> m) ms"
    using drop_one [OF sm m(1)] by (simp add: m)
  ultimately have "ack_state view ok C r quota seq ?s ?q (drop_keys r {ack_key a} ms)"
    using st ok sled_msgs_remove [OF sm view_ok [OF ok(1)] view_ok [OF ok(2)] m(1)]
    by (simp add: ack_state_def trees_ok_def tree_ok_simps id m(2) of_rcpt_filter)
  with run show ?thesis by blast
qed

lemma sled_ack_one_miss:
  assumes st: "ack_state view ok C r quota seq s q ms" and r: "addressable r"
    and miss: "ack_key a \<notin> msg_key ` set (of_rcpt r ms)"
  shows "sled_ack_one T C r a (s, q, out) = Inr (s, q, out\<lparr>ao_missing := sat_add (ao_missing out) 1\<rparr>)
    \<and> drop_keys r {ack_key a} ms = ms"
proof
  have ok: "ok (ss_index s)" and sm: "sled_msgs C (view (ss_messages s)) (view (ss_index s)) ms"
    using st by (simp_all add: ack_state_def trees_ok_def)
  have "bt_get (view (ss_index s)) (index_key C r (ai_message_id a) (ai_chunk_index a)) = None"
    using miss index_hit [OF sm r, of "ai_message_id a" "ai_chunk_index a"]
    unfolding ack_key_def by blast
  then show "sled_ack_one T C r a (s, q, out) = Inr (s, q, out\<lparr>ao_missing := sat_add (ao_missing out) 1\<rparr>)"
    by (simp add: sled_ack_one_def Let_def tx_simps ok)
  show "drop_keys r {ack_key a} ms = ms"
    unfolding drop_keys_def by (rule filter_True) (use miss in force)
qed

text \<open>The loop over distinct items.\<close>

lemma sled_ack_loop_spec:
  assumes "ack_state view ok C r quota seq s q ms" and "addressable r" and "distinct xs"
    and "unat (ao_deleted out) + length xs < 2 ^ 64" and "unat (ao_missing out) + length xs < 2 ^ 64"
  shows "\<exists>s' q' out'. sled_ack_loop T C r xs (s, q, out) = Inr (s', q', out')
    \<and> ack_state view ok C r quota seq s' q' (drop_keys r (ack_key ` set xs) ms)
    \<and> unat (ao_deleted out') = unat (ao_deleted out) + length (filter (\<lambda>a. ack_key a \<in> msg_key ` set (of_rcpt r ms)) xs)
    \<and> unat (ao_missing out') = unat (ao_missing out) + length (filter (\<lambda>a. ack_key a \<notin> msg_key ` set (of_rcpt r ms)) xs)"
  using assms
proof (induction xs arbitrary: s q ms out)
  case Nil
  then show ?case by (simp add: drop_keys_def)
next
  case (Cons a xs)
  let ?ms = "drop_keys r {ack_key a} ms"
  have rest: "ack_key b \<in> msg_key ` set (of_rcpt r ?ms) \<longleftrightarrow> ack_key b \<in> msg_key ` set (of_rcpt r ms)"
    if "b \<in> set xs" for b
    using that Cons.prems(3) unfolding of_rcpt_drop_keys by (auto simp: ack_key_inj image_iff)
  have filters: "filter (\<lambda>b. ack_key b \<in> msg_key ` set (of_rcpt r ?ms)) xs = filter (\<lambda>b. ack_key b \<in> msg_key ` set (of_rcpt r ms)) xs"
    "filter (\<lambda>b. ack_key b \<notin> msg_key ` set (of_rcpt r ?ms)) xs = filter (\<lambda>b. ack_key b \<notin> msg_key ` set (of_rcpt r ms)) xs"
    by (rule filter_cong [OF refl], simp only: rest)+
  show ?case
  proof (cases "ack_key a \<in> msg_key ` set (of_rcpt r ms)")
    case True
    then obtain m where "m \<in> set ms" "qm_recipient m = r" "msg_key m = ack_key a" by auto
    from sled_ack_one_hit [OF Cons.prems(1) this] obtain s1 q1 where
      one: "sled_ack_one T C r a (s, q, out) = Inr (s1, q1, out\<lparr>ao_deleted := sat_add (ao_deleted out) 1\<rparr>)"
      and st1: "ack_state view ok C r quota seq s1 q1 ?ms" by blast
    have "unat (sat_add (ao_deleted out) 1) = unat (ao_deleted out) + 1"
      using Cons.prems(4) by (simp add: sat_simps)
    then show ?thesis
      using Cons.IH [OF st1 Cons.prems(2), of "out\<lparr>ao_deleted := sat_add (ao_deleted out) 1\<rparr>"] Cons.prems(3-5) True
      by (auto simp: one filters drop_keys_insert simp del: of_rcpt_simps(4))
  next
    case False
    note one = sled_ack_one_miss [OF Cons.prems(1,2) False, of out]
    have "unat (sat_add (ao_missing out) 1) = unat (ao_missing out) + 1"
      using Cons.prems(5) by (simp add: sat_simps)
    moreover have "drop_keys r (ack_key ` set xs) ms = drop_keys r (ack_key ` set (a # xs)) ms"
      using one drop_keys_insert [of r "ack_key ` set xs" "ack_key a" ms] by simp
    ultimately show ?thesis
      using Cons.IH [OF Cons.prems(1,2), of "out\<lparr>ao_missing := sat_add (ao_missing out) 1\<rparr>"] Cons.prems(3-5) False one
      by (auto simp del: of_rcpt_simps(4))
  qed
qed

text \<open>Writing the quota the loop computed completes the state.\<close>

lemma acked_rep:
  assumes rep: "sled_rep view ok C s ms"
    and st: "ack_state view ok C r (ss_quota s) (ss_seq s) s1 v (drop_keys r K ms)"
  shows "sled_rep view ok C (s1\<lparr>ss_quota := tree_ins T (quota_key r) (qval C v) (ss_quota s)\<rparr>) (drop_keys r K ms)"
proof -
  have ok: "ok (ss_quota s)" and seqs: "seqs_ok (view (ss_seq s)) ms" and quotas: "quotas_ok C (view (ss_quota s)) ms"
    using rep by (simp_all add: sled_rep_def trees_ok_def)
  have st': "trees_ok ok s1" "ss_seq s1 = ss_seq s" "quota_for (of_rcpt r (drop_keys r K ms)) v"
    "sled_msgs C (view (ss_messages s1)) (view (ss_index s1)) (drop_keys r K ms)"
    using st by (simp_all add: ack_state_def)
  have "seqs_ok (view (ss_seq s)) (drop_keys r K ms)"
    using seqs unfolding seqs_ok_def by (fastforce simp: drop_keys_def)
  moreover have "quotas_ok C (view (tree_ins T (quota_key r) (qval C v) (ss_quota s))) (drop_keys r K ms)"
    using quotas st'(3)
    by (auto simp: quotas_ok_def tree_ok_simps ok quota_read_insert view_ok of_rcpt_drop_keys)
  ultimately show ?thesis
    using st' ok by (simp add: sled_rep_def trees_ok_def tree_ok_simps)
qed

text \<open>Any enumeration \<open>xs\<close> of the set of items.\<close>

lemma ack_tx_run:
  assumes rep: "sled_rep view ok C s ms" and r: "addressable r"
    and xs: "distinct xs" "set xs = set items" and len: "length xs < 2 ^ 64"
  shows "\<exists>s'. ack_tx T C r xs s
      = Inr (\<lparr>ao_deleted = word_of_nat (ack_count items (sled_box view C s r)),
             ao_missing = word_of_nat (length xs - ack_count items (sled_box view C s r)),
             ao_remaining = word_of_nat (length (snd (ack_box items (sled_box view C s r))))\<rparr>, s')
    \<and> sled_rep view ok C s' (drop_keys r (ack_key ` set items) ms) \<and> ss_seq s' = ss_seq s"
proof -
  let ?q = "of_rcpt r ms" and ?ms = "drop_keys r (ack_key ` set items) ms"
  define n where "n = fst (sled_box view C s r)"
  have ok: "ok (ss_messages s)" "ok (ss_index s)" "ok (ss_quota s)" "ok (ss_seq s)"
    and sm: "sled_msgs C (view (ss_messages s)) (view (ss_index s)) ms"
    using rep by (simp_all add: sled_rep_def trees_ok_def)
  obtain v where v: "quota_read C (view (ss_quota s)) r = Some v" "quota_for ?q v"
    using sled_rep_quota [OF rep r] by blast
  have st: "ack_state view ok C r (ss_quota s) (ss_seq s) s v ms"
    using ok sm v(2) by (simp add: ack_state_def trees_ok_def)
  have box: "sled_box view C s r = (n, ?q)" by (simp add: n_def sled_rep_box [OF rep])
  have "box_ok r (sled_box view C s r)" using rep by (intro sled_box_ok r) (auto simp: sled_inv_def)
  then have keys: "distinct (map msg_key ?q)" unfolding box by (simp add: box_ok_def)
  note count = hits_count [OF xs keys, of n]
  obtain s1 v1 out where loop: "sled_ack_loop T C r xs (s, v, ack_outcome_default) = Inr (s1, v1, out)"
    and st1: "ack_state view ok C r (ss_quota s) (ss_seq s) s1 v1 ?ms"
    and figures: "unat (ao_deleted out) = ack_count items (n, ?q)"
      "unat (ao_missing out) = length xs - ack_count items (n, ?q)"
    using sled_ack_loop_spec [OF st r xs(1), of ack_outcome_default] len
    by (auto simp: ack_outcome_default_def xs(2) count simp del: of_rcpt_simps(4))
  have st1': "ss_quota s1 = ss_quota s" "ss_seq s1 = ss_seq s" "quota_for (of_rcpt r ?ms) v1"
    using st1 by (simp_all add: ack_state_def)
  let ?s = "s1\<lparr>ss_quota := tree_ins T (quota_key r) (qval C v1) (ss_quota s)\<rparr>"
  have left: "of_rcpt r ?ms = snd (ack_box items (sled_box view C s r))"
    unfolding of_rcpt_drop_keys box ack_box_def acked_def by simp
  have run: "ack_tx T C r xs s = Inr (out\<lparr>ao_remaining := qv_count v1\<rparr>, ?s)"
    using loop by (simp add: ack_tx_def read_quota_simps(2) [OF ok(3) v(1)] abort_json_def quota_val st1'(1) tx_simps ok)
  have "qv_count v1 = word_of_nat (length (snd (ack_box items (sled_box view C s r))))"
    using quota_for_values [OF st1'(3)] unfolding left by simp
  then have "out\<lparr>ao_remaining := qv_count v1\<rparr> = \<lparr>ao_deleted = word_of_nat (ack_count items (sled_box view C s r)),
      ao_missing = word_of_nat (length xs - ack_count items (sled_box view C s r)),
      ao_remaining = word_of_nat (length (snd (ack_box items (sled_box view C s r))))\<rparr>"
    using word_eq_of_unat [OF figures(1)] word_eq_of_unat [OF figures(2)] unfolding box by simp
  moreover have "sled_rep view ok C ?s ?ms" by (rule acked_rep [OF rep st1])
  ultimately show ?thesis using run st1'(2) by auto
qed

lemma sled_ack_refines:
  assumes inv: "sled_inv view ok C s" and r: "addressable r" and len: "length items < 2 ^ 64"
    and ack: "sled_ack T C s r items = (res, s')"
  shows "sled_inv view ok C s' \<and> sled_box view C s' r = ack_box items (sled_box view C s r)
    \<and> res = Inr \<lparr>ao_deleted = word_of_nat (ack_count items (sled_box view C s r)),
        ao_missing = word_of_nat (length (remdups items) - ack_count items (sled_box view C s r)),
        ao_remaining = word_of_nat (length (snd (ack_box items (sled_box view C s r))))\<rparr>
    \<and> (\<forall>q. addressable q \<longrightarrow> q \<noteq> r \<longrightarrow> sled_box view C s' q = sled_box view C s q)"
proof -
  obtain ms where rep: "sled_rep view ok C s ms" using inv by (auto simp: sled_inv_def)
  have "length (remdups items) < 2 ^ 64" using len length_remdups_leq [of items] by linarith
  from ack_tx_run [OF rep r distinct_remdups set_remdups this] obtain s1 where
    run: "ack_tx T C r (remdups items) s
      = Inr (\<lparr>ao_deleted = word_of_nat (ack_count items (sled_box view C s r)),
             ao_missing = word_of_nat (length (remdups items) - ack_count items (sled_box view C s r)),
             ao_remaining = word_of_nat (length (snd (ack_box items (sled_box view C s r))))\<rparr>, s1)"
    (is "_ = Inr (?out, _)")
    and rep1: "sled_rep view ok C s1 (drop_keys r (ack_key ` set items) ms)" and seq: "ss_seq s1 = ss_seq s"
    by blast
  have ok1: "trees_ok ok s1" using rep1 by (simp add: sled_rep_def)
  have "transaction T (\<lambda>s. [ss_messages s, ss_index s, ss_quota s]) (ack_tx T C r (remdups items)) s = (Inr ?out, s1)"
    using ok1 by (intro transaction_ok run) (simp add: trees_ok_def)
  then have res: "res = Inr ?out" and s': "s' = synced3 T s1"
    using ack synced3_run [OF ok1, of "\<lambda>_ s. (Inr ?out, s)"] by (simp_all add: sled_ack_def)
  have box: "sled_box view C s1 q = (if q = r then ack_box items (sled_box view C s r) else sled_box view C s q)" for q
    by (simp add: sled_rep_box [OF rep] sled_rep_box [OF rep1] seq of_rcpt_drop_keys ack_box_def acked_def)
  show ?thesis using synced_rep(1) [OF rep1] by (auto simp: sled_inv_def res s' box synced_box(1) [OF ok1])
qed

end

end
