(* ===== verification/Sled_Purge.thy ===== *)
theory Sled_Purge
  imports Sled_Push
begin

text \<open>
  \<open>SledStore::purge_expired\<close>: what the loop removes, that the pending quotas agree with the
  messages left, and that writing them restores the invariant. Unlike the in-memory store the
  scan passes over live messages, so a batch that is not full has removed every expired message.
\<close>

text \<open>The quota of a recipient as the loop sees it: the pending one, or the one in the tree.\<close>

definition pending :: "'c sled_codecs_scheme \<Rightarrow> (string \<times> quota_value) list \<Rightarrow> (bytes, bytes) btree \<Rightarrow> string \<Rightarrow> quota_value option" where
  "pending C quotas qv r = (case map_of quotas r of Some q \<Rightarrow> Some q | None \<Rightarrow> quota_read C qv r)"

definition purge_state ::
  "('t \<Rightarrow> (bytes, bytes) btree) \<Rightarrow> ('t \<Rightarrow> bool) \<Rightarrow> 'c sled_codecs_scheme \<Rightarrow> 't \<Rightarrow> 't \<Rightarrow> (string \<times> quota_value) list
     \<Rightarrow> 't sled_store \<Rightarrow> queue_message list \<Rightarrow> bool" where
  "purge_state view ok C quota seq quotas s ms \<longleftrightarrow>
     trees_ok ok s \<and> ss_quota s = quota \<and> ss_seq s = seq
     \<and> sled_msgs C (view (ss_messages s)) (view (ss_index s)) ms \<and> distinct (map fst quotas)
     \<and> (\<forall>r. addressable r \<longrightarrow> (\<exists>q. pending C quotas (view quota) r = Some q \<and> quota_for (of_rcpt r ms) q))"

lemma pending_update:
  "pending C (AList.update r q quotas) qv p = (if p = r then Some q else pending C quotas qv p)"
  by (simp add: pending_def AList.update_conv')

context sled_backend
begin

lemma lookup_pending:
  assumes "ok (ss_quota s)" and "pending C quotas (view (ss_quota s)) r = Some q"
  shows "lookup_quota T C quotas s r = Inr q"
  using assms read_quota_simps(1) [OF assms(1), of r q]
  by (auto simp: lookup_quota_def pending_def read_quota_latest_def split: option.splits)

text \<open>One expired message: it goes from both trees, and its recipient's quota is adjusted.\<close>

lemma purge_one:
  assumes st: "purge_state view ok C quota seq quotas s ms" and m: "m \<in> set ms" and expired: "\<not> live now m"
    and room: "removed < target"
  shows "\<exists>quotas' s'. purge_scan T C now target (Inr (mkey C m, mval C m) # rest) removed quotas s
      = purge_scan T C now target rest (removed + 1) quotas' s'
    \<and> purge_state view ok C quota seq quotas' s' (filter (\<lambda>x. x \<noteq> m) ms)"
proof -
  let ?r = "qm_recipient m" and ?ms = "filter (\<lambda>x. x \<noteq> m) ms"
  let ?ik = "index_key C ?r (qm_message_id m) (mm_chunk_index (qm_meta m))"
  have ok: "ok (ss_messages s)" "ok (ss_index s)" "ok (ss_quota s)" "ok (ss_seq s)"
    and sm: "sled_msgs C (view (ss_messages s)) (view (ss_index s)) ms"
    and qs: "ss_quota s = quota" "ss_seq s = seq" "distinct (map fst quotas)"
    and pend: "\<forall>r. addressable r \<longrightarrow> (\<exists>q. pending C quotas (view quota) r = Some q \<and> quota_for (of_rcpt r ms) q)"
    using st by (auto simp: purge_state_def trees_ok_def)
  have r: "addressable ?r" using sm m by (simp add: sled_msgs_def)
  obtain q where q: "pending C quotas (view quota) ?r = Some q" "quota_for (of_rcpt ?r ms) q"
    using pend r by blast
  let ?q = "q\<lparr>qv_count := sat_sub (qv_count q) 1, qv_bytes := sat_sub (qv_bytes q) (qm_payload_bytes m)\<rparr>"
  let ?s = "s\<lparr>ss_messages := tree_del T (mkey C m) (ss_messages s), ss_index := tree_del T ?ik (ss_index s)\<rparr>"
  let ?quotas = "AList.update ?r ?q quotas"
  have "lookup_quota T C quotas ?s ?r = Inr q"
    using q(1) ok by (intro lookup_pending) (simp_all add: qs)
  then have "purge_scan T C now target (Inr (mkey C m, mval C m) # rest) removed quotas s
      = purge_scan T C now target rest (removed + 1) ?quotas ?s"
    using room expired tree_del_ok [OF ok(1), of "mkey C m"] tree_del_ok [OF ok(2), of ?ik]
    by (simp add: msg_val Let_def live_def)
  moreover have "purge_state view ok C quota seq ?quotas ?s ?ms"
  proof -
    have "quota_for (filter (\<lambda>x. x \<noteq> m) (of_rcpt ?r ms)) ?q"
      using sled_msgs_distinct [OF sm view_ok [OF ok(1)]] m
      by (intro quota_for_remove [OF q(2)]) (simp_all, simp add: of_rcpt_def)
    moreover have "of_rcpt p ?ms = of_rcpt p ms" if "p \<noteq> ?r" for p
      unfolding of_rcpt_filter by (rule filter_True) (use that in auto)
    ultimately have "\<forall>p. addressable p \<longrightarrow> (\<exists>q. pending C ?quotas (view quota) p = Some q \<and> quota_for (of_rcpt p ?ms) q)"
      using pend by (simp add: pending_update of_rcpt_filter)
    then show ?thesis
      using ok sled_msgs_remove [OF sm view_ok [OF ok(1)] view_ok [OF ok(2)] m] qs
      by (simp add: purge_state_def trees_ok_def tree_ok_simps AList.distinct_update)
  qed
  ultimately show ?thesis by blast
qed

text \<open>The loop removes the expired messages of an initial part of the entries.\<close>

lemma purge_scan_spec:
  assumes "purge_state view ok C quota seq quotas s ms" and "set xs \<subseteq> set ms" and "distinct xs" and "removed \<le> target"
  shows "\<exists>j quotas' s'. let gone = filter (\<lambda>m. \<not> live now m) (take j xs) in
    purge_scan T C now target (map (\<lambda>m. Inr (mkey C m, mval C m)) xs) removed quotas s
      = (Inr (removed + length gone, quotas'), s')
    \<and> purge_state view ok C quota seq quotas' s' (filter (\<lambda>m. m \<notin> set gone) ms)
    \<and> removed + length gone \<le> target \<and> (removed + length gone = target \<or> take j xs = xs)"
  using assms
proof (induction xs arbitrary: s ms quotas removed)
  case Nil
  then show ?case by (simp add: Let_def)
next
  case (Cons x xs)
  have xs: "set xs \<subseteq> set ms" "distinct xs" "x \<in> set ms" "x \<notin> set xs" using Cons.prems(2,3) by auto
  consider (full) "target \<le> removed" | (live) "removed < target" "live now x" | (gone) "removed < target" "\<not> live now x"
    by linarith
  then show ?case
  proof cases
    case full
    then show ?thesis
      using Cons.prems(1,4) by (intro exI [of _ 0]) (simp add: Let_def)
  next
    case live
    obtain j quotas' s' where ih: "purge_scan T C now target (map (\<lambda>m. Inr (mkey C m, mval C m)) xs) removed quotas s
        = (Inr (removed + length (filter (\<lambda>m. \<not> live now m) (take j xs)), quotas'), s')"
      "purge_state view ok C quota seq quotas' s' (filter (\<lambda>m. m \<notin> set (filter (\<lambda>m. \<not> live now m) (take j xs))) ms)"
      "removed + length (filter (\<lambda>m. \<not> live now m) (take j xs)) \<le> target"
      "removed + length (filter (\<lambda>m. \<not> live now m) (take j xs)) = target \<or> take j xs = xs"
      using Cons.IH [OF Cons.prems(1) xs(1,2) Cons.prems(4)] by (auto simp: Let_def)
    then show ?thesis
      using live by (intro exI [of _ "Suc j"] exI [of _ quotas'] exI [of _ s']) (auto simp: Let_def msg_val live_def)
  next
    case gone
    obtain quotas1 s1 where one: "purge_scan T C now target (Inr (mkey C x, mval C x) # map (\<lambda>m. Inr (mkey C m, mval C m)) xs) removed quotas s
        = purge_scan T C now target (map (\<lambda>m. Inr (mkey C m, mval C m)) xs) (removed + 1) quotas1 s1"
      and st1: "purge_state view ok C quota seq quotas1 s1 (filter (\<lambda>y. y \<noteq> x) ms)"
      using purge_one [OF Cons.prems(1) xs(3) gone(2,1)] by blast
    have sub: "set xs \<subseteq> set (filter (\<lambda>y. y \<noteq> x) ms)" using xs by auto
    have le: "removed + 1 \<le> target" using gone(1) by simp
    obtain j quotas' s' where ih: "purge_scan T C now target (map (\<lambda>m. Inr (mkey C m, mval C m)) xs) (removed + 1) quotas1 s1
        = (Inr (removed + 1 + length (filter (\<lambda>m. \<not> live now m) (take j xs)), quotas'), s')"
      "purge_state view ok C quota seq quotas' s'
        (filter (\<lambda>m. m \<notin> set (filter (\<lambda>m. \<not> live now m) (take j xs))) (filter (\<lambda>y. y \<noteq> x) ms))"
      "removed + 1 + length (filter (\<lambda>m. \<not> live now m) (take j xs)) \<le> target"
      "removed + 1 + length (filter (\<lambda>m. \<not> live now m) (take j xs)) = target \<or> take j xs = xs"
      using Cons.IH [OF st1 sub xs(2) le] by (auto simp: Let_def)
    have "filter (\<lambda>m. m \<notin> set (filter (\<lambda>m. \<not> live now m) (take j xs))) (filter (\<lambda>y. y \<noteq> x) ms)
        = filter (\<lambda>m. m \<notin> set (filter (\<lambda>m. \<not> live now m) (take (Suc j) (x # xs)))) ms"
      using gone(2) by (auto intro: filter_cong)
    with ih one gone show ?thesis
      by (intro exI [of _ "Suc j"] exI [of _ quotas'] exI [of _ s']) (simp add: Let_def)
  qed
qed

text \<open>Writing the pending quotas makes them those of the tree.\<close>

lemma write_quotas_spec:
  assumes "trees_ok ok s" and "distinct (map fst quotas)"
  shows "\<exists>quota. write_quotas T C quotas s = (Inr (), s\<lparr>ss_quota := quota\<rparr>) \<and> ok quota
    \<and> (\<forall>r. quota_read C (view quota) r = pending C quotas (view (ss_quota s)) r)"
  using assms
proof (induction quotas arbitrary: s)
  case Nil
  then show ?case by (intro exI [of _ "ss_quota s"]) (simp add: trees_ok_def pending_def)
next
  case (Cons p rest)
  obtain r q where p: "p = (r, q)" by fastforce
  have ok: "ok (ss_quota s)" using Cons.prems(1) by (simp add: trees_ok_def)
  let ?s = "s\<lparr>ss_quota := tree_ins T (quota_key r) (qval C q) (ss_quota s)\<rparr>"
  have ok1: "trees_ok ok ?s" using Cons.prems(1) by (simp add: trees_ok_def tree_ok_simps)
  obtain quota where ih: "write_quotas T C rest ?s = (Inr (), ?s\<lparr>ss_quota := quota\<rparr>)" "ok quota"
      "\<forall>r. quota_read C (view quota) r = pending C rest (view (ss_quota ?s)) r"
    using Cons.IH [OF ok1] Cons.prems(2) by auto
  have "map_of rest r = None" using Cons.prems(2) p by (simp add: map_of_eq_None_iff)
  then have "quota_read C (view quota) x = pending C (p # rest) (view (ss_quota s)) x" for x
    using ih(3) by (simp add: p pending_def tree_ok_simps ok quota_read_insert view_ok split: option.splits)
  moreover have "write_quotas T C (p # rest) s = (Inr (), s\<lparr>ss_quota := quota\<rparr>)"
    using ih(1) by (simp add: p quota_val tree_ins_ok ok)
  ultimately show ?case using ih(2) by blast
qed

lemma sled_purge_run:
  assumes rep: "sled_rep view ok C s ms"
  shows "\<exists>j s'. let gone = filter (\<lambda>m. \<not> live now m) (take j ms) in
    sled_purge_expired T C s now n = (Inr (length gone), synced3 T s')
    \<and> sled_rep view ok C s' (filter (\<lambda>m. m \<notin> set gone) ms) \<and> ss_seq s' = ss_seq s
    \<and> length gone \<le> min n 1024 \<and> (length gone = min n 1024 \<or> take j ms = ms)"
proof -
  have ok: "trees_ok ok s" "ok (ss_messages s)"
    and sm: "sled_msgs C (view (ss_messages s)) (view (ss_index s)) ms"
    and seqs: "seqs_ok (view (ss_seq s)) ms" and quotas: "quotas_ok C (view (ss_quota s)) ms"
    using rep by (simp_all add: sled_rep_def trees_ok_def)
  have st: "purge_state view ok C (ss_quota s) (ss_seq s) [] s ms"
    using ok sm quotas by (simp add: purge_state_def pending_def quotas_ok_def)
  have iter: "tr_iter T (ss_messages s) = map (\<lambda>m. Inr (mkey C m, mval C m)) ms"
    using sm by (simp add: iter_view [OF ok(2)] sled_msgs_def)
  obtain j quotas s1 where scan: "purge_scan T C now (min n sled_gc_batch_limit) (tr_iter T (ss_messages s)) 0 [] s
      = (Inr (length (filter (\<lambda>m. \<not> live now m) (take j ms)), quotas), s1)"
    and st1: "purge_state view ok C (ss_quota s) (ss_seq s) quotas s1
      (filter (\<lambda>m. m \<notin> set (filter (\<lambda>m. \<not> live now m) (take j ms))) ms)"
    and bound: "length (filter (\<lambda>m. \<not> live now m) (take j ms)) \<le> min n 1024"
      "length (filter (\<lambda>m. \<not> live now m) (take j ms)) = min n 1024 \<or> take j ms = ms"
    using purge_scan_spec [OF st subset_refl sled_msgs_distinct [OF sm view_ok [OF ok(2)]], of 0 "min n sled_gc_batch_limit" now]
    unfolding iter by (auto simp: Let_def sled_gc_batch_limit_def)
  let ?gone = "filter (\<lambda>m. \<not> live now m) (take j ms)" and ?ms = "filter (\<lambda>m. m \<notin> set (filter (\<lambda>m. \<not> live now m) (take j ms))) ms"
  have s1: "trees_ok ok s1" "ss_quota s1 = ss_quota s" "ss_seq s1 = ss_seq s" "distinct (map fst quotas)"
    "sled_msgs C (view (ss_messages s1)) (view (ss_index s1)) ?ms"
    "\<forall>r. addressable r \<longrightarrow> (\<exists>q. pending C quotas (view (ss_quota s)) r = Some q \<and> quota_for (of_rcpt r ?ms) q)"
    using st1 unfolding purge_state_def by blast+
  obtain quota where w: "write_quotas T C quotas s1 = (Inr (), s1\<lparr>ss_quota := quota\<rparr>)" "ok quota"
      "\<forall>r. quota_read C (view quota) r = pending C quotas (view (ss_quota s)) r"
    using write_quotas_spec [OF s1(1,4)] s1(2) by auto
  let ?s = "s1\<lparr>ss_quota := quota\<rparr>"
  have ok2: "trees_ok ok ?s" using s1(1) w(2) by (simp add: trees_ok_def)
  have "sled_purge_expired T C s now n = (Inr (length ?gone), synced3 T ?s)"
    using synced3_run [OF ok2, of "\<lambda>_ s. (Inr (length ?gone), s)"] by (simp add: sled_purge_expired_def scan w(1))
  moreover have "sled_rep view ok C ?s ?ms"
  proof -
    have "seqs_ok (view (ss_seq s)) ?ms"
      using seqs unfolding seqs_ok_def by fastforce
    then show ?thesis
      using ok2 s1 w(3) by (simp add: sled_rep_def quotas_ok_def)
  qed
  ultimately show ?thesis
    using bound s1(3) by (intro exI [of _ j] exI [of _ ?s]) (simp add: Let_def)
qed

text \<open>What is removed is counted.\<close>

lemma length_not_gone:
  assumes "distinct ms"
  shows "length (filter P (take j ms)) + length (filter (\<lambda>m. m \<notin> set (filter P (take j ms))) ms) = length ms"
proof -
  let ?gone = "filter P (take j ms)"
  have "set ?gone \<subseteq> set ms" by (auto dest: in_set_takeD)
  then have "set (filter (\<lambda>m. m \<in> set ?gone) ms) = set ?gone" by auto
  moreover have "distinct ?gone" "distinct (filter (\<lambda>m. m \<in> set ?gone) ms)" using assms by simp_all
  ultimately have "length (filter (\<lambda>m. m \<in> set ?gone) ms) = length ?gone" by (metis distinct_card)
  then show ?thesis using sum_length_filter_compl [of "\<lambda>m. m \<in> set ?gone" ms] by simp
qed

lemma rep_length:
  assumes "sled_rep view ok C s ms"
  shows "length (view (ss_messages s)) = length ms \<and> distinct ms"
proof -
  have sm: "sled_msgs C (view (ss_messages s)) (view (ss_index s)) ms" and ok: "ok (ss_messages s)"
    using assms by (simp_all add: sled_rep_def trees_ok_def)
  show ?thesis using sled_msgs_distinct [OF sm view_ok [OF ok]] sm by (simp add: sled_msgs_def)
qed

lemma sled_purge_refines:
  assumes inv: "sled_inv view ok C s" and purge: "sled_purge_expired T C s now n = (res, s')"
  shows "\<exists>k. res = Inr k \<and> sled_inv view ok C s' \<and> k \<le> min n 1024
    \<and> k + length (view (ss_messages s')) = length (view (ss_messages s))
    \<and> (\<forall>r. expiry_step now (sled_box view C s r) (sled_box view C s' r))
    \<and> (k = min n 1024 \<or> (\<forall>r. snd (sled_box view C s' r) = filter (live now) (snd (sled_box view C s r))))"
proof -
  obtain ms where rep: "sled_rep view ok C s ms" using inv by (auto simp: sled_inv_def)
  obtain j s1 where "sled_purge_expired T C s now n = (Inr (length (filter (\<lambda>m. \<not> live now m) (take j ms))), synced3 T s1)"
    and rep1': "sled_rep view ok C s1 (filter (\<lambda>m. m \<notin> set (filter (\<lambda>m. \<not> live now m) (take j ms))) ms)"
    and seq: "ss_seq s1 = ss_seq s"
    and bound: "length (filter (\<lambda>m. \<not> live now m) (take j ms)) \<le> min n 1024"
      "length (filter (\<lambda>m. \<not> live now m) (take j ms)) = min n 1024 \<or> take j ms = ms"
    using sled_purge_run [OF rep, of now n] unfolding Let_def by blast
  then have res: "res = Inr (length (filter (\<lambda>m. \<not> live now m) (take j ms)))" and s': "s' = synced3 T s1"
    using purge by simp_all
  have gone: "length (filter (\<lambda>m. \<not> live now m) (take j ms)) + length (view (ss_messages s')) = length (view (ss_messages s))"
    using length_not_gone [of ms "\<lambda>m. \<not> live now m" j] rep_length [OF rep] rep_length [OF synced_rep(1) [OF rep1']]
    by (simp add: s')
  have ok1: "trees_ok ok s1" using rep1' by (simp add: sled_rep_def)
  have seq': "ss_seq s' = ss_seq s" by (simp add: s' synced_sel(9) [OF ok1] seq)
  define keep where "keep m \<longleftrightarrow> m \<notin> set (take j ms)" for m
  have eq: "m \<notin> set (filter (\<lambda>m. \<not> live now m) (take j ms)) \<longleftrightarrow> live now m \<or> keep m" for m
    by (auto simp: keep_def)
  have rep1: "sled_rep view ok C s' (filter (\<lambda>m. live now m \<or> keep m) ms)"
    using synced_rep(1) [OF rep1'] unfolding eq s' .
  have box: "sled_box view C s' r = (fst (sled_box view C s r), filter (\<lambda>m. live now m \<or> keep m) (snd (sled_box view C s r)))" for r
    by (simp add: sled_rep_box [OF rep] sled_rep_box [OF rep1] seq' of_rcpt_filter)
  have "expiry_step now (sled_box view C s r) (sled_box view C s' r)" for r
    unfolding box expiry_step_def by auto
  moreover have "snd (sled_box view C s' r) = filter (live now) (snd (sled_box view C s r))" if all: "take j ms = ms" for r
  proof -
    have "filter (\<lambda>m. live now m \<or> keep m) (of_rcpt r ms) = filter (live now) (of_rcpt r ms)"
      by (rule filter_cong) (auto simp: keep_def all)
    then show ?thesis unfolding box by (simp add: sled_rep_box [OF rep])
  qed
  ultimately show ?thesis
    using bound rep1 gone by (auto simp: res sled_inv_def)
qed

end

end
