(* ===== verification/Relay_Contract.thy ===== *)
theory Relay_Contract
  imports Relay_Spec
begin

text \<open>
  The contract between the server and a storage backend, as the locale \<open>relay_store\<close>: an
  invariant \<open>inv\<close>, an abstraction \<open>box\<close> into mailboxes, and for each operation of the trait
  what it returns and what it does to the mailboxes. \<open>relay_system\<close> adds an initial state
  and proves what holds in every state the store can reach; \<open>relay_paging\<close> adds the base64
  law and proves that a client that follows the cursors receives every live message once.
\<close>

section \<open>Events, runs and paging clients\<close>

datatype store_event =
    EvPush inbound_message
  | EvPull string "string option" u64 u64
  | EvAck string "ack_item list"
  | EvPurge u64 usize

text \<open>The state a store operation leaves.\<close>

fun event_state :: "'s store_ops \<Rightarrow> relay_limits \<Rightarrow> store_event \<Rightarrow> 's \<Rightarrow> 's" where
  "event_state D limits (EvPush m) s = snd (op_push D s m limits)"
| "event_state D limits (EvPull r cur limit now) s = snd (op_pull D s r cur limit now)"
| "event_state D limits (EvAck r items) s = snd (op_ack D s r items)"
| "event_state D limits (EvPurge now n) s = snd (op_purge D s now n)"

text \<open>Events about recipients that the text formats can carry; vectors that fit memory.\<close>

fun event_ok :: "store_event \<Rightarrow> bool" where
  "event_ok (EvPush m) = addressable (im_recipient m)"
| "event_ok (EvPull r cur limit now) = addressable r"
| "event_ok (EvAck r items) = (addressable r \<and> length items < 2 ^ 64)"
| "event_ok (EvPurge now n) = True"

fun run_events :: "'s store_ops \<Rightarrow> relay_limits \<Rightarrow> store_event list \<Rightarrow> 's \<Rightarrow> 's" where
  "run_events D limits [] s = s"
| "run_events D limits (e # es) s = run_events D limits es (event_state D limits e s)"

text \<open>The states reached from \<open>s0\<close> by \<open>k\<close> operations.\<close>

inductive reached :: "'s store_ops \<Rightarrow> relay_limits \<Rightarrow> 's \<Rightarrow> nat \<Rightarrow> 's \<Rightarrow> bool"
  for D limits s0 where
  start: "reached D limits s0 0 s0"
| step: "reached D limits s0 k s \<Longrightarrow> event_ok e \<Longrightarrow>
    reached D limits s0 (Suc k) (event_state D limits e s)"

inductive_cases reached_SucE: "reached D limits s0 (Suc k) s"

lemma reached_run:
  "reached D limits s0 k s \<Longrightarrow> \<forall>e\<in>set es. event_ok e \<Longrightarrow>
     reached D limits s0 (k + length es) (run_events D limits es s)"
proof (induction es arbitrary: k s)
  case (Cons e es)
  then have "reached D limits s0 (Suc k) (event_state D limits e s)"
    by (auto intro: reached.step)
  with Cons.IH [of "Suc k"] Cons.prems(2) show ?case by simp
qed simp

text \<open>An event that may remove message \<open>m\<close> of \<open>r\<close>: an acknowledgement, or time running out.\<close>

fun spares :: "string \<Rightarrow> queue_message \<Rightarrow> store_event \<Rightarrow> bool" where
  "spares r m (EvPush _) = True"
| "spares r m (EvPull q cur limit now) = (q = r \<longrightarrow> live now m)"
| "spares r m (EvAck q items) = (q = r \<longrightarrow> \<not> acked items m)"
| "spares r m (EvPurge now n) = live now m"

text \<open>
  A client that pulls page after page with the cursor it was given, all at time \<open>now\<close>: the
  items of all pages and the state left, or \<open>None\<close> when a pull fails or \<open>fuel\<close> pulls were
  not enough.
\<close>

fun drain ::
  "'s store_ops \<Rightarrow> string \<Rightarrow> u64 \<Rightarrow> u64 \<Rightarrow> nat \<Rightarrow> string option \<Rightarrow> 's \<Rightarrow> (queue_message list \<times> 's) option" where
  "drain D r limit now 0 cur s = None"
| "drain D r limit now (Suc fuel) cur s =
     (case op_pull D s r cur limit now of
        (Inl _, _) \<Rightarrow> None
      | (Inr b, s') \<Rightarrow>
          (case pb_next_cursor b of
             None \<Rightarrow> Some (pb_items b, s')
           | Some c \<Rightarrow>
               map_option (\<lambda>(rest, t). (pb_items b @ rest, t)) (drain D r limit now fuel (Some c) s')))"

definition within_limits :: "relay_limits \<Rightarrow> mailbox \<Rightarrow> bool" where
  "within_limits limits b \<longleftrightarrow>
     length (snd b) \<le> unat (max_messages_per_user limits)
     \<and> box_bytes (snd b) \<le> unat (max_queue_bytes_per_user limits)"

lemma within_limits_filter:
  "within_limits limits (n, q) \<Longrightarrow> within_limits limits (n', filter P q)"
  unfolding within_limits_def
  by (auto intro: order_trans [OF length_filter_le] order_trans [OF box_bytes_filter_le])

lemma spec_push_within:
  "within_limits limits b \<Longrightarrow> spec_push limits m b = (res, b') \<Longrightarrow> within_limits limits b'"
  by (cases b) (auto simp: within_limits_def Let_def not_less split: if_splits)

lemma spec_push_keeps:
  "spec_push limits m b = (res, b') \<Longrightarrow> x \<in> set (snd b) \<Longrightarrow> x \<in> set (snd b')"
  by (cases b) (auto simp: Let_def split: if_splits)

lemma spec_push_duplicate:
  assumes "inbound_key m \<in> msg_key ` set (snd b)" and "spec_push limits m b = (res, b')"
  shows "(\<exists>ps. res = Inr ps \<and> \<not> ps_stored ps \<and> ps_duplicate ps) \<and> b' = b"
proof -
  obtain n q where b: "b = (n, q)" by fastforce
  have "inbound_key m \<in> msg_key ` set q" using assms(1) by (simp add: b)
  then have "(res, b') = (Inr \<lparr>ps_stored = False, ps_duplicate = True, ps_queue_len = word_of_nat (length q),
      ps_queue_bytes = word_of_nat (box_bytes q)\<rparr>, b)"
    using assms(2) unfolding b spec_push.simps by simp
  then show ?thesis by simp
qed

lemma unat_succ_le: "unat (n + 1) \<le> Suc (unat n)" for n :: u64
proof (cases "n = - 1")
  case False
  then show ?thesis using sat_add_one [OF False] unat_not_max [OF False]
    by (simp add: sat_add_def)
qed simp

lemma spec_push_key:
  "spec_push limits m b = (Inr res, b') \<Longrightarrow> inbound_key m \<in> msg_key ` set (snd b')"
  by (cases b; cases b') (auto simp: Let_def split: if_splits)

lemma spec_push_counter:
  "spec_push limits m b = (res, b') \<Longrightarrow> unat (fst b') \<le> Suc (unat (fst b))"
  by (cases b) (auto simp: Let_def unat_succ_le split: if_splits)

section \<open>The contract\<close>

locale relay_store =
  fixes E :: "'x externals_scheme"
    and D :: "'s store_ops"
    and inv :: "'s \<Rightarrow> bool"
    and box :: "'s \<Rightarrow> string \<Rightarrow> mailbox"
  assumes box_inv: "inv s \<Longrightarrow> addressable r \<Longrightarrow> box_ok r (box s r)"
    and push_contract:
      "inv s \<Longrightarrow> addressable (im_recipient m) \<Longrightarrow> max_queue_bytes_per_user limits \<noteq> - 1 \<Longrightarrow>
       fst (box s (im_recipient m)) \<noteq> - 1 \<Longrightarrow> op_push D s m limits = (pres, s') \<Longrightarrow>
       inv s' \<and> spec_push limits m (box s (im_recipient m)) = (pres, box s' (im_recipient m))
       \<and> (\<forall>r. addressable r \<longrightarrow> r \<noteq> im_recipient m \<longrightarrow> box s' r = box s r)"
    and pull_contract:
      "inv s \<Longrightarrow> addressable r \<Longrightarrow> resolve_cursor E r cur = Inr c \<Longrightarrow>
       op_pull D s r cur limit now = (lres, s') \<Longrightarrow>
       inv s' \<and> expiry_step now (box s r) (box s' r)
       \<and> lres = Inr (spec_batch E r c limit now (box s r) (box s' r))
       \<and> (\<forall>q. addressable q \<longrightarrow> q \<noteq> r \<longrightarrow> box s' q = box s q)"
    and pull_bad_cursor:
      "inv s \<Longrightarrow> addressable r \<Longrightarrow> resolve_cursor E r cur = Inl e \<Longrightarrow>
       op_pull D s r cur limit now = (lres, s') \<Longrightarrow>
       s' = s \<and> (\<forall>b. lres = Inr b \<longrightarrow> pb_items b = [] \<and> snd (box s r) = [])"
    and ack_contract:
      "inv s \<Longrightarrow> addressable r \<Longrightarrow> length items < 2 ^ 64 \<Longrightarrow> op_ack D s r items = (ares, s') \<Longrightarrow>
       inv s' \<and> box s' r = ack_box items (box s r)
       \<and> (\<exists>out. ares = Inr out \<and> spec_ack items (box s r) out)
       \<and> (\<forall>q. addressable q \<longrightarrow> q \<noteq> r \<longrightarrow> box s' q = box s q)"
    and purge_contract:
      "inv s \<Longrightarrow> op_purge D s now n = (gres, s') \<Longrightarrow>
       inv s' \<and> (\<exists>k. gres = Inr k \<and> k \<le> min n 1024)
       \<and> (\<forall>r. addressable r \<longrightarrow> expiry_step now (box s r) (box s' r))"
begin

text \<open>One event: the invariant, the counters, the quota, and the messages it spares.\<close>

lemma event_inv:
  assumes "inv s" and "event_ok e" and "max_queue_bytes_per_user limits \<noteq> - 1"
    and "\<forall>r. addressable r \<longrightarrow> fst (box s r) \<noteq> - 1"
  shows "inv (event_state D limits e s)"
proof (cases e)
  case (EvPush m)
  then show ?thesis
    using assms push_contract [of s m limits] by (cases "op_push D s m limits") simp
next
  case (EvPull r cur limit now)
  obtain res s' where p: "op_pull D s r cur limit now = (res, s')" by fastforce
  show ?thesis
  proof (cases "resolve_cursor E r cur")
    case (Inl err)
    then show ?thesis
      using assms(1,2) EvPull p pull_bad_cursor [OF assms(1) _ Inl p] by simp
  next
    case (Inr c)
    then show ?thesis
      using assms(1,2) EvPull p pull_contract [OF assms(1) _ Inr p] by simp
  qed
next
  case (EvAck r items)
  then show ?thesis
    using assms ack_contract [of s r items] by (cases "op_ack D s r items") simp
next
  case (EvPurge now n)
  then show ?thesis
    using assms purge_contract [of s now n] by (cases "op_purge D s now n") simp
qed

text \<open>What one event does to the mailbox of one recipient.\<close>

lemma pull_box:
  assumes "inv s" and "addressable q" and "addressable r" and "op_pull D s q cur limit now = (res, s')"
  shows "q = r \<and> expiry_step now (box s r) (box s' r) \<or> box s' r = box s r"
proof (cases "resolve_cursor E q cur")
  case (Inl err)
  then show ?thesis using pull_bad_cursor [OF assms(1,2) Inl assms(4)] by simp
next
  case (Inr c)
  from pull_contract [OF assms(1,2) Inr assms(4)] assms(3) show ?thesis by (cases "q = r") simp_all
qed

lemma event_box:
  assumes "inv s" and "event_ok e" and "max_queue_bytes_per_user limits \<noteq> - 1"
    and "\<forall>r. addressable r \<longrightarrow> fst (box s r) \<noteq> - 1" and "addressable r"
  obtains (push) m res where "e = EvPush m" and "im_recipient m = r"
      and "spec_push limits m (box s r) = (res, box (event_state D limits e s) r)"
    | (expire) now where "expiry_step now (box s r) (box (event_state D limits e s) r)"
      and "\<And>m. spares r m e \<Longrightarrow> live now m"
    | (ack) items where "e = EvAck r items"
      and "box (event_state D limits e s) r = ack_box items (box s r)"
    | (same) "box (event_state D limits e s) r = box s r"
proof (cases e)
  case (EvPush m)
  obtain res s' where p: "op_push D s m limits = (res, s')" by fastforce
  with assms EvPush push_contract [of s m limits res s'] show ?thesis
    by (cases "im_recipient m = r") (auto intro: push same)
next
  case (EvPull q cur limit now)
  obtain res s' where p: "op_pull D s q cur limit now = (res, s')" by fastforce
  have q: "addressable q" using assms(2) EvPull by simp
  from pull_box [OF assms(1) q assms(5) p] show ?thesis
    using EvPull p by (auto intro: expire [of now] same)
next
  case (EvAck q items)
  obtain res s' where p: "op_ack D s q items = (res, s')" by fastforce
  have q: "addressable q" "length items < 2 ^ 64" using assms(2) EvAck by simp_all
  note ac = ack_contract [OF assms(1) q p]
  show ?thesis
  proof (cases "q = r")
    case True
    then show ?thesis using EvAck p ac by (intro ack) simp_all
  next
    case False
    then show ?thesis using EvAck p ac assms(5) by (intro same) simp
  qed
next
  case (EvPurge now n)
  obtain res s' where p: "op_purge D s now n = (res, s')" by fastforce
  show ?thesis
    using EvPurge p purge_contract [OF assms(1) p] assms(5)
    by (intro expire [of now]) simp_all
qed

text \<open>
  A run from a state whose counters are at most \<open>k\<close>: the invariant, the counters and a message
  that the events spare.
\<close>

lemma run_from:
  assumes "inv s" and "\<forall>q. addressable q \<longrightarrow> unat (fst (box s q)) \<le> k" and "k + length es < 2 ^ 64 - 1"
    and lim: "max_queue_bytes_per_user limits \<noteq> - 1" and "\<forall>e\<in>set es. event_ok e"
  shows "inv (run_events D limits es s)
    \<and> (\<forall>q. addressable q \<longrightarrow> unat (fst (box (run_events D limits es s) q)) \<le> k + length es)
    \<and> (\<forall>r m. addressable r \<longrightarrow> (\<forall>e\<in>set es. spares r m e) \<longrightarrow> m \<in> set (snd (box s r)) \<longrightarrow>
         m \<in> set (snd (box (run_events D limits es s) r)))"
  using assms(1-3,5)
proof (induction es arbitrary: k s)
  case (Cons e es)
  let ?s = "event_state D limits e s"
  have e: "event_ok e" using Cons.prems(4) by simp
  have room: "\<forall>q. addressable q \<longrightarrow> fst (box s q) \<noteq> - 1"
    using Cons.prems(2,3) by (force simp: unat_max_word)
  note cases = event_box [OF Cons.prems(1) e lim room, case_names push expire ack same]
  have "unat (fst (box ?s q)) \<le> Suc k" if q: "addressable q" for q
  proof (cases rule: cases [OF q])
    case (1 m res)
    then show ?thesis using Cons.prems(2) q spec_push_counter [OF 1(3)] by fastforce
  next
    case (2 now)
    then show ?thesis using Cons.prems(2) q unfolding expiry_step_def by (metis le_SucI fst_conv)
  qed (use Cons.prems(2) q in \<open>auto simp: ack_box_def le_SucI\<close>)
  moreover have "m \<in> set (snd (box ?s r))"
    if "addressable r" "spares r m e" "m \<in> set (snd (box s r))" for r m
    using that
  proof (cases rule: cases [OF that(1)])
    case (1 x res)
    then show ?thesis using spec_push_keeps that(3) by blast
  next
    case (2 now)
    then show ?thesis using expiry_step_keeps that(2,3) by blast
  qed (use that in \<open>simp_all add: ack_box_def\<close>)
  moreover have "inv ?s" using event_inv [OF Cons.prems(1) e lim room] .
  ultimately show ?case
    using Cons.IH [of ?s "Suc k"] Cons.prems(3,4) by simp
qed simp

end

section \<open>Reachable states\<close>

locale relay_system = relay_store +
  fixes init :: 'b
  assumes init_inv: "inv init"
    and init_box: "box init r = (0, [])"
begin

text \<open>
  In a state reached by \<open>k\<close> operations no counter is above \<open>k\<close>, so with fewer than
  \<open>2 ^ 64 - 1\<close> operations no counter is exhausted and the contract applies throughout.
\<close>

lemma reached_inv:
  assumes "reached D limits init k s" and "k < 2 ^ 64 - 1"
    and lim: "max_queue_bytes_per_user limits \<noteq> - 1"
  shows "inv s \<and> (\<forall>r. addressable r \<longrightarrow>
    unat (fst (box s r)) \<le> k \<and> within_limits limits (box s r))"
  using assms(1,2)
proof (induction rule: reached.induct)
  case start
  show ?case by (simp add: init_inv init_box within_limits_def)
next
  case (step k s e)
  have "k < 2 ^ 64 - 1" using step.prems by simp
  with step.IH have inv: "inv s"
    and ih: "addressable r \<Longrightarrow> unat (fst (box s r)) \<le> k \<and> within_limits limits (box s r)" for r
    by auto
  have room: "\<forall>r. addressable r \<longrightarrow> fst (box s r) \<noteq> - 1"
  proof (intro allI impI notI)
    fix r assume "addressable r" and "fst (box s r) = - 1"
    then have "unat (fst (box s r)) = 2 ^ 64 - 1" by (simp add: unat_max_word)
    with ih [OF \<open>addressable r\<close>] step.prems show False by simp
  qed
  have "unat (fst (box (event_state D limits e s) r)) \<le> Suc k
      \<and> within_limits limits (box (event_state D limits e s) r)" if r: "addressable r" for r
  proof (cases rule: event_box [OF inv step.hyps(2) lim room r, case_names push expire ack same])
    case (push m res)
    then show ?thesis
      using ih [OF r] spec_push_counter [OF push(3)] spec_push_within [OF _ push(3)] by simp
  next
    case (expire now)
    then show ?thesis
      using ih [OF r] within_limits_filter [of limits "fst (box s r)" "snd (box s r)"]
      unfolding expiry_step_def by (metis le_Suc_eq prod.collapse)
  next
    case (ack items)
    then show ?thesis
      using ih [OF r] within_limits_filter [of limits "fst (box s r)" "snd (box s r)"]
      by (simp add: ack_box_def)
  next
    case same
    then show ?thesis using ih [OF r] by simp
  qed
  moreover have "inv (event_state D limits e s)"
    using event_inv [OF inv step.hyps(2) lim room] .
  ultimately show ?case by blast
qed

lemma reached_room:
  assumes "reached D limits init k s" and "k < 2 ^ 64 - 1"
    and "max_queue_bytes_per_user limits \<noteq> - 1" and "addressable r"
  shows "fst (box s r) \<noteq> - 1"
proof
  assume "fst (box s r) = - 1"
  then have "unat (fst (box s r)) = 2 ^ 64 - 1" by (simp add: unat_max_word)
  with reached_inv [OF assms(1-3)] assms(2,4) show False by force
qed

text \<open>A stored message stays until it is acknowledged or its deadline passes.\<close>

lemma message_survives:
  assumes "reached D limits init k s" and "k + length es < 2 ^ 64 - 1"
    and lim: "max_queue_bytes_per_user limits \<noteq> - 1"
    and es: "\<forall>e\<in>set es. event_ok e \<and> spares r m e"
    and r: "addressable r" and "m \<in> set (snd (box s r))"
  shows "m \<in> set (snd (box (run_events D limits es s) r))"
proof -
  have k: "k < 2 ^ 64 - 1" using assms(2) by simp
  note inv = reached_inv [OF assms(1) k lim]
  show ?thesis
    using run_from [OF conjunct1 [OF inv] _ assms(2) lim] inv es r assms(6) by blast
qed

end

section \<open>Paging\<close>

lemma selection_sorted:
  "sorted_wrt (<) (map qm_arrival_seq q) \<Longrightarrow> sorted_wrt (\<lambda>x y. qm_arrival_seq x < qm_arrival_seq y) (selection c now q)"
  by (simp add: sorted_wrt_map selection_def sorted_wrt_filter_sub)

lemma selection_from:
  "x \<in> set (selection c now q) \<Longrightarrow>
     selection (Some (qm_arrival_seq x)) now q
       = filter (\<lambda>m. qm_arrival_seq x < qm_arrival_seq m) (selection c now q)"
  unfolding selection_def filter_filter
  by (rule filter_cong) (auto simp: after_cursor_def split: option.splits)

text \<open>The selection behind a cursor that points at the end of a page is the rest of it.\<close>

lemma selection_next_page:
  assumes ok: "sorted_wrt (<) (map qm_arrival_seq q)" and page: "take n (selection c now q) \<noteq> []"
  shows "selection (Some (qm_arrival_seq (last (take n (selection c now q))))) now q = drop n (selection c now q)"
proof -
  let ?sel = "selection c now q"
  let ?k = "qm_arrival_seq (last (take n ?sel))"
  have sorted: "sorted_wrt (\<lambda>x y. qm_arrival_seq x < qm_arrival_seq y) (take n ?sel @ drop n ?sel)"
    using selection_sorted [OF ok] by simp
  obtain xs x where xs: "take n ?sel = xs @ [x]"
    using page by (metis append_butlast_last_id)
  have "last (take n ?sel) \<in> set ?sel"
    using last_in_set [OF page] set_take_subset [of n ?sel] by blast
  then have "selection (Some ?k) now q = filter (\<lambda>m. ?k < qm_arrival_seq m) ?sel"
    by (rule selection_from)
  also have "\<dots> = filter (\<lambda>m. ?k < qm_arrival_seq m) (take n ?sel @ drop n ?sel)"
    by simp
  also have "\<dots> = drop n ?sel"
  proof -
    have "filter (\<lambda>m. ?k < qm_arrival_seq m) (take n ?sel) = []"
      using sorted unfolding xs by (auto simp: filter_empty_conv sorted_wrt_append dest: less_asym)
    moreover have "filter (\<lambda>m. ?k < qm_arrival_seq m) (drop n ?sel) = drop n ?sel"
      using sorted unfolding xs by (auto simp: filter_id_conv sorted_wrt_append)
    ultimately show ?thesis by (simp only: filter_append append_Nil)
  qed
  finally show ?thesis .
qed

text \<open>
  What paging needs of a store, less than the whole contract: the queue is in the order of its
  numbers, and a pull returns the next page of it with a cursor when more is left.
\<close>

locale relay_pages = cursor_codec E for E :: "'x externals_scheme" +
  fixes D :: "'s store_ops"
    and inv :: "'s \<Rightarrow> bool"
    and box :: "'s \<Rightarrow> string \<Rightarrow> mailbox"
  assumes queue_sorted: "inv s \<Longrightarrow> addressable r \<Longrightarrow> sorted_wrt (<) (map qm_arrival_seq (snd (box s r)))"
    and pull_page:
      "inv s \<Longrightarrow> addressable r \<Longrightarrow> resolve_cursor E r cur = Inr c \<Longrightarrow> op_pull D s r cur limit now = (res, s') \<Longrightarrow>
       inv s' \<and> expiry_step now (box s r) (box s' r)
       \<and> (\<exists>b. res = Inr b \<and> pb_items b = take (page_limit limit) (selection c now (snd (box s r)))
          \<and> pb_next_cursor b =
            (if page_limit limit < length (selection c now (snd (box s r))) \<and> pb_items b \<noteq> []
             then Some (encode_cursor E r (qm_arrival_seq (last (pb_items b)))) else None))"
begin

lemma drain_selection:
  assumes "inv s" and r: "addressable r" and limit: "0 < page_limit limit"
    and "resolve_cursor E r cur = Inr c"
    and "length (selection c now (snd (box s r))) < fuel"
  shows "\<exists>s'. drain D r limit now fuel cur s = Some (selection c now (snd (box s r)), s')
    \<and> inv s' \<and> (\<forall>t\<ge>now. selection None t (snd (box s' r)) = selection None t (snd (box s r)))"
  using assms(1,4,5)
proof (induction fuel arbitrary: s cur c)
  case (Suc fuel)
  let ?sel = "selection c now (snd (box s r))" and ?n = "page_limit limit"
  obtain res s1 where p: "op_pull D s r cur limit now = (res, s1)" by fastforce
  obtain b where exp: "expiry_step now (box s r) (box s1 r)" and inv1: "inv s1"
    and b: "res = Inr b" and items: "pb_items b = take ?n ?sel"
    and next_c: "pb_next_cursor b = (if ?n < length ?sel \<and> take ?n ?sel \<noteq> []
      then Some (encode_cursor E r (qm_arrival_seq (last (take ?n ?sel)))) else None)"
    using pull_page [OF Suc.prems(1) r Suc.prems(2) p] by metis
  have keep: "selection c' t (snd (box s1 r)) = selection c' t (snd (box s r))" if "now \<le> t" for c' t
    using expiry_step_selection [OF exp that] .
  show ?case
  proof (cases "?n < length ?sel")
    case False
    then have "take ?n ?sel = ?sel" by simp
    with False p b items next_c inv1 keep show ?thesis by simp
  next
    case True
    then have ne: "take ?n ?sel \<noteq> []" using limit by auto
    let ?k = "qm_arrival_seq (last (take ?n ?sel))"
    have rest: "selection (Some ?k) now (snd (box s1 r)) = drop ?n ?sel"
      using selection_next_page [OF queue_sorted [OF Suc.prems(1) r] ne] keep [of now] by simp
    have len: "length (drop ?n ?sel) < fuel"
      using limit Suc.prems(3) True by simp
    obtain s2 where d: "drain D r limit now fuel (Some (encode_cursor E r ?k)) s1 = Some (drop ?n ?sel, s2)"
      and inv2: "inv s2"
      and keep2: "\<forall>t\<ge>now. selection None t (snd (box s2 r)) = selection None t (snd (box s1 r))"
      using Suc.IH [OF inv1 resolve_own_cursor [OF r, of ?k]] len unfolding rest by blast
    have c: "pb_next_cursor b = Some (encode_cursor E r ?k)"
      using next_c True ne by simp
    show ?thesis
      using p b d inv2 keep2 keep by (simp add: c items)
  qed
qed simp

text \<open>
  Following the cursors from the start returns every live message, once and in arrival
  order, in at most one pull more than there are messages.
\<close>

lemma drain_complete:
  assumes "inv s" and "addressable r" and "0 < limit"
  shows "\<exists>s'. drain D r limit now (Suc (length (snd (box s r)))) None s
    = Some (filter (live now) (snd (box s r)), s')"
proof -
  have "0 < page_limit limit"
    using assms(3) by (simp add: page_limit_def unat_gt_0 min_def word_gt_0)
  moreover have "length (selection None now (snd (box s r))) < Suc (length (snd (box s r)))"
    by (simp add: selection_def less_Suc_eq_le)
  moreover have "selection None now (snd (box s r)) = filter (live now) (snd (box s r))"
    by (simp add: selection_def after_cursor_def)
  ultimately show ?thesis
    using drain_selection [OF assms(1,2), of limit None None now "Suc (length (snd (box s r)))"]
    by (auto simp: resolve_cursor_def simp del: drain.simps)
qed

end

text \<open>The contract gives what paging needs.\<close>

locale relay_paging = relay_store + cursor_codec

sublocale relay_paging \<subseteq> relay_pages E D inv box
proof unfold_locales
  fix s r
  assume "inv s" "addressable r"
  then show "sorted_wrt (<) (map qm_arrival_seq (snd (box s r)))"
    using box_inv by (simp add: box_ok_def)
next
  fix s r cur c limit now res s'
  assume "inv s" "addressable r" "resolve_cursor E r cur = Inr c" "op_pull D s r cur limit now = (res, s')"
  note pc = pull_contract [OF this]
  let ?b = "spec_batch E r c limit now (box s r) (box s' r)" and ?sel = "selection c now (snd (box s r))"
  have "pb_items ?b = take (page_limit limit) ?sel
      \<and> pb_next_cursor ?b = (if page_limit limit < length ?sel \<and> pb_items ?b \<noteq> []
          then Some (encode_cursor E r (qm_arrival_seq (last (pb_items ?b)))) else None)"
    by (simp add: spec_batch_def Let_def min_less_iff_disj)
  then show "inv s' \<and> expiry_step now (box s r) (box s' r)
      \<and> (\<exists>b. res = Inr b \<and> pb_items b = take (page_limit limit) ?sel
         \<and> pb_next_cursor b = (if page_limit limit < length ?sel \<and> pb_items b \<noteq> []
             then Some (encode_cursor E r (qm_arrival_seq (last (pb_items b)))) else None))"
    using pc by blast
qed

context relay_paging
begin

lemma pages: "relay_pages E D inv box"
  by (rule relay_pages_axioms)

end

section \<open>What a client may rely on\<close>

locale relay_service = relay_system + cursor_codec

sublocale relay_service \<subseteq> relay_paging
  by unfold_locales

context relay_service
begin

lemma stored_in_box_inv:
  assumes "inv s" and "addressable (im_recipient m)" and "max_queue_bytes_per_user limits \<noteq> - 1"
    and "fst (box s (im_recipient m)) \<noteq> - 1" and "op_push D s m limits = (Inr res, s')" and "ps_stored res"
  shows "stored_message m (fst (box s (im_recipient m))) \<in> set (snd (box s' (im_recipient m)))"
proof -
  let ?b = "box s (im_recipient m)"
  from push_contract [OF assms(1-5)]
  have "spec_push limits m ?b = (Inr res, box s' (im_recipient m))" by simp
  with assms(6) show ?thesis
    by (cases ?b; cases "box s' (im_recipient m)") (auto simp: Let_def split: if_splits)
qed

lemma stored_in_box:
  assumes "reached D limits init k s" and "k < 2 ^ 64 - 1"
    and "max_queue_bytes_per_user limits \<noteq> - 1" and "addressable (im_recipient m)"
    and "op_push D s m limits = (Inr res, s')" and "ps_stored res"
  shows "stored_message m (fst (box s (im_recipient m))) \<in> set (snd (box s' (im_recipient m)))"
  using reached_inv [OF assms(1-3)] reached_room [OF assms(1-4)] assms(3-6) by (blast intro: stored_in_box_inv)

text \<open>
  An accepted message is delivered: after any further operations that neither acknowledge
  it nor run past its deadline, a client of its recipient that pulls all pages receives it.
\<close>

lemma accepted_delivered:
  assumes reach: "reached D limits init k s" and k: "k + length es + 1 < 2 ^ 64 - 1"
    and lim: "max_queue_bytes_per_user limits \<noteq> - 1" and r: "addressable (im_recipient m)"
    and push: "op_push D s m limits = (Inr res, s1)" and stored: "ps_stored res"
    and es: "\<forall>e\<in>set es. event_ok e
      \<and> spares (im_recipient m) (stored_message m (fst (box s (im_recipient m)))) e"
    and now: "now < im_deadline_ms m" and limit: "0 < limit"
  shows "let s2 = run_events D limits es s1; r = im_recipient m in
    \<exists>items s3. drain D r limit now (Suc (length (snd (box s2 r)))) None s2 = Some (items, s3)
      \<and> stored_message m (fst (box s r)) \<in> set items
      \<and> items = filter (live now) (snd (box s2 r))"
proof -
  let ?r = "im_recipient m" and ?s2 = "run_events D limits es s1"
  let ?m = "stored_message m (fst (box s ?r))"
  have k1: "k < 2 ^ 64 - 1" using k by simp
  have m1: "?m \<in> set (snd (box s1 ?r))"
    by (rule stored_in_box [OF reach k1 lim r push stored])
  have "reached D limits init (Suc k) (event_state D limits (EvPush m) s)"
    using reach r by (intro reached.step) simp_all
  then have reach1: "reached D limits init (Suc k) s1"
    using push by simp
  have k2: "Suc k + length es < 2 ^ 64 - 1" using k by simp
  have m2: "?m \<in> set (snd (box ?s2 ?r))"
    by (rule message_survives [OF reach1 k2 lim es r m1])
  have "reached D limits init (Suc k + length es) ?s2"
    using es by (intro reached_run [OF reach1]) simp
  then have "inv ?s2" using reached_inv [OF _ k2 lim] by blast
  from drain_complete [OF this r limit, of now] m2 now show ?thesis
    by (auto simp: Let_def live_def simp del: drain.simps)
qed

lemma duplicate_push:
  assumes "reached D limits init k s" and "k < 2 ^ 64 - 1"
    and "max_queue_bytes_per_user limits \<noteq> - 1" and "addressable (im_recipient m)"
    and "inbound_key m \<in> msg_key ` set (snd (box s (im_recipient m)))"
    and "op_push D s m limits = (res, s')"
  shows "(\<exists>ps. res = Inr ps \<and> \<not> ps_stored ps \<and> ps_duplicate ps)
    \<and> (\<forall>r. addressable r \<longrightarrow> box s' r = box s r)"
proof -
  let ?b = "box s (im_recipient m)"
  have "inv s" using reached_inv [OF assms(1-3)] by simp
  from push_contract [OF this assms(4,3) reached_room [OF assms(1-4)] assms(6)]
  have p: "spec_push limits m ?b = (res, box s' (im_recipient m))"
      "\<forall>r. addressable r \<longrightarrow> r \<noteq> im_recipient m \<longrightarrow> box s' r = box s r" by simp_all
  show ?thesis
    using spec_push_duplicate [OF assms(5) p(1)] p(2) by metis
qed

lemma ack_box_twice: "ack_box items (ack_box items b) = ack_box items b"
  by (simp add: ack_box_def)

lemma ack_count_after: "ack_count items (ack_box items b) = 0"
  by (simp add: ack_count_def ack_box_def)

lemma ack_again:
  assumes "inv s" and "addressable r" and "length items < 2 ^ 64"
    and "op_ack D s r items = (res1, s1)" and "op_ack D s1 r items = (res2, s2)"
  shows "\<exists>out1 out2. res1 = Inr out1 \<and> res2 = Inr out2 \<and> ao_deleted out2 = 0
    \<and> ao_remaining out2 = ao_remaining out1 \<and> box s2 r = box s1 r
    \<and> (\<forall>m\<in>set (snd (box s1 r)). \<not> acked items m)"
proof -
  note a1 = ack_contract [OF assms(1-4)]
  then have "inv s1" by simp
  note a2 = ack_contract [OF this assms(2,3,5)]
  obtain out1 out2 where o: "res1 = Inr out1" "res2 = Inr out2"
      "spec_ack items (box s r) out1" "spec_ack items (box s1 r) out2"
    using a1 a2 by blast
  have b: "box s1 r = ack_box items (box s r)" "box s2 r = box s1 r"
    using a1 a2 by (simp_all add: ack_box_twice)
  have "ao_deleted out2 = 0" "ao_remaining out2 = ao_remaining out1"
    using o(3,4) unfolding b(1) spec_ack_def by (simp_all add: ack_count_after ack_box_twice)
  moreover have "\<forall>m\<in>set (snd (box s1 r)). \<not> acked items m"
    unfolding b(1) by (simp add: ack_box_def)
  ultimately show ?thesis using o b(2) by blast
qed

end

end
