(* ===== verification/Sled_Contract.thy ===== *)
theory Sled_Contract
  imports Sled_Pull Sled_Ack Sled_Purge Relay_Contract
begin

text \<open>
  The persistent backend satisfies the contract of a relay store: \<open>sled_opened\<close> is a backend
  whose trees were empty when they were opened, and every result of \<open>Relay_Contract\<close> holds for
  it. What the client relies on is then the same as for the in-memory store.
\<close>

locale sled_opened = sled_backend T view ok C
  for T :: "('t, 'x) tree_ops_scheme" and view and ok and C :: "'c sled_codecs_scheme" +
  fixes init :: "'t sled_store"
  assumes init_ok: "trees_ok ok init"
    and init_empty: "view (ss_messages init) = []" "view (ss_index init) = []"
      "view (ss_quota init) = []" "view (ss_seq init) = []"
begin

lemma init_rep: "sled_rep view ok C init []"
  using init_ok init_empty
  by (simp add: sled_rep_def sled_msgs_def seqs_ok_def quotas_ok_def seq_read_def quota_read_def
      quota_for_def quota_default_def bt_get_def)

end

sublocale sled_opened \<subseteq> sled: relay_system E "sled_ops E T C" "sled_inv view ok C" "sled_box view C" init
  for E :: "'e externals_scheme"
proof unfold_locales
  fix s r
  assume "sled_inv view ok C s" "addressable r"
  then show "box_ok r (sled_box view C s r)" by (rule sled_box_ok)
next
  fix s s' m limits res
  assume "sled_inv view ok C s" "addressable (im_recipient m)" "max_queue_bytes_per_user limits \<noteq> - 1"
    "fst (sled_box view C s (im_recipient m)) \<noteq> - 1" "op_push (sled_ops E T C) s m limits = (res, s')"
  then show "sled_inv view ok C s'
      \<and> spec_push limits m (sled_box view C s (im_recipient m)) = (res, sled_box view C s' (im_recipient m))
      \<and> (\<forall>r. addressable r \<longrightarrow> r \<noteq> im_recipient m \<longrightarrow> sled_box view C s' r = sled_box view C s r)"
    using sled_push_refines [of s m limits res s'] by (simp add: sled_ops_def)
next
  fix s s' r cur c limit now res
  assume "sled_inv view ok C s" "addressable r" "resolve_cursor E r cur = Inr c"
    "op_pull (sled_ops E T C) s r cur limit now = (res, s')"
  then show "sled_inv view ok C s' \<and> expiry_step now (sled_box view C s r) (sled_box view C s' r)
      \<and> res = Inr (spec_batch E r c limit now (sled_box view C s r) (sled_box view C s' r))
      \<and> (\<forall>q. addressable q \<longrightarrow> q \<noteq> r \<longrightarrow> sled_box view C s' q = sled_box view C s q)"
    using sled_pull_refines [of s r E cur c limit now] by (auto simp: sled_ops_def)
next
  fix s s' r cur e limit now res
  assume "resolve_cursor E r cur = Inl e" "op_pull (sled_ops E T C) s r cur limit now = (res, s')"
  then show "s' = s \<and> (\<forall>b. res = Inr b \<longrightarrow> pb_items b = [] \<and> snd (sled_box view C s r) = [])"
    using sled_pull_bad_cursor [of E r cur e s limit now] by (auto simp: sled_ops_def)
next
  fix s s' r items res
  assume "sled_inv view ok C s" "addressable r" "length items < 2 ^ 64" "op_ack (sled_ops E T C) s r items = (res, s')"
  then show "sled_inv view ok C s' \<and> sled_box view C s' r = ack_box items (sled_box view C s r)
      \<and> (\<exists>out. res = Inr out \<and> spec_ack items (sled_box view C s r) out)
      \<and> (\<forall>q. addressable q \<longrightarrow> q \<noteq> r \<longrightarrow> sled_box view C s' q = sled_box view C s q)"
    using sled_ack_refines [of s r items res s'] by (simp add: sled_ops_def spec_ack_def distinct_remdups_id)
next
  fix s s' now n res
  assume "sled_inv view ok C s" "op_purge (sled_ops E T C) s now n = (res, s')"
  then show "sled_inv view ok C s' \<and> (\<exists>k. res = Inr k \<and> k \<le> min n 1024)
      \<and> (\<forall>r. addressable r \<longrightarrow> expiry_step now (sled_box view C s r) (sled_box view C s' r))"
    using sled_purge_refines [of s now n res s'] by (auto simp: sled_ops_def)
next
  show "sled_inv view ok C init" using init_rep by (auto simp: sled_inv_def)
  show "sled_box view C init r = (0, [])" for r
    using sled_rep_box [OF init_rep] init_empty by (simp add: seq_read_def bt_get_def)
qed

context sled_opened
begin

lemma system: "relay_system E (sled_ops E T C) (sled_inv view ok C) (sled_box view C) init"
  for E :: "'e externals_scheme"
  by (rule sled.relay_system_axioms)

lemma service: "cursor_codec E \<Longrightarrow> relay_service E (sled_ops E T C) (sled_inv view ok C) (sled_box view C) init"
  for E :: "'e externals_scheme"
  by (intro relay_service.intro sled.relay_system_axioms)

text \<open>The first push, to any recipient, with or without a colon.\<close>

lemma first_push:
  assumes "max_messages_per_user limits \<noteq> 0" and "im_payload_bytes msg \<le> max_queue_bytes_per_user limits"
  shows "\<exists>s1. sled_push T C init msg limits
      = (Inr \<lparr>ps_stored = True, ps_duplicate = False, ps_queue_len = 1, ps_queue_bytes = im_payload_bytes msg\<rparr>, s1)
    \<and> trees_ok ok s1 \<and> view (ss_messages s1) = [(mkey C (stored_message msg 0), mval C (stored_message msg 0))]
    \<and> (\<forall>r. r \<noteq> im_recipient msg \<longrightarrow> bt_get (view (ss_quota s1)) (quota_key r) = None)"
proof -
  let ?q = "quota_default\<lparr>qv_count := 1, qv_bytes := im_payload_bytes msg\<rparr>"
  have ok: "ok (ss_messages init)" "ok (ss_index init)" "ok (ss_quota init)" "ok (ss_seq init)"
    using init_ok by (simp_all add: trees_ok_def)
  have z: "sat_add 0 p = p" for p :: u64
    using unat_lt_pow [of p] by (simp add: sat_add_def)
  have tx: "push_tx T C msg limits init
      = Inr (\<lparr>ps_stored = True, ps_duplicate = False, ps_queue_len = 1, ps_queue_bytes = im_payload_bytes msg\<rparr>,
          pushed T C msg 0 ?q init)"
    using assms
    by (simp add: push_tx_def Let_def tx_simps ok init_empty bt_get_def read_quota_tx_def quota_default_def
        abort_json_def msg_val quota_val pushed_def mkey_def not_less z)
  have ok1: "trees_ok ok (pushed T C msg 0 ?q init)" by (rule pushed_ok [OF init_ok])
  have "view (ss_messages (pushed T C msg 0 ?q init)) = [(mkey C (stored_message msg 0), mval C (stored_message msg 0))]"
    by (simp add: pushed_def Let_def tree_ok_simps ok init_empty)
  moreover have "bt_get (view (ss_quota (pushed T C msg 0 ?q init))) (quota_key r) = None" if "r \<noteq> im_recipient msg" for r
    using that by (simp add: pushed_def Let_def tree_ok_simps ok init_empty bt_get_def)
  moreover have "sled_push T C init msg limits
      = (Inr \<lparr>ps_stored = True, ps_duplicate = False, ps_queue_len = 1, ps_queue_bytes = im_payload_bytes msg\<rparr>,
         synced T (pushed T C msg 0 ?q init))"
    using ok1 sled_push_run [OF init_ok tx] by simp
  ultimately show ?thesis
    using synced_sel(2,4,8) [OF ok1] by simp
qed

end

end
