(* ===== verification/Std_Base64.thy ===== *)
theory Std_Base64
  imports Relay_Store
begin

text \<open>
  The standard base64 alphabet with padding (RFC 4648, section 4), as a function pair that
  satisfies \<open>cursor_codec\<close>: the instance at which the properties that assume the codec are
  evaluated. The relay itself uses the \<open>base64\<close> crate, which stays a parameter of the
  model.
\<close>

section \<open>Alphabet\<close>

definition b64_alphabet :: string where
  "b64_alphabet = ''ABCDEFGHIJKLMNOPQRSTUVWXYZabcdefghijklmnopqrstuvwxyz0123456789+/''"

definition b64_char :: "nat \<Rightarrow> char" where
  "b64_char n = b64_alphabet ! n"

definition b64_val :: "char \<Rightarrow> nat option" where
  "b64_val c =
     (let n = of_char c in
      if 65 \<le> n \<and> n \<le> 90 then Some (n - 65)
      else if 97 \<le> n \<and> n \<le> 122 then Some (n - 71)
      else if 48 \<le> n \<and> n \<le> 57 then Some (n + 4)
      else if n = 43 then Some 62
      else if n = 47 then Some 63
      else None)"

lemma b64_val_alphabet: "map b64_val b64_alphabet = map Some [0..<64]"
  by (simp add: b64_alphabet_def b64_val_def upt_conv_Cons)

lemma b64_val_char [simp]: "n < 64 \<Longrightarrow> b64_val (b64_char n) = Some n"
proof -
  assume n: "n < 64"
  have "length b64_alphabet = 64" by (simp add: b64_alphabet_def)
  with n have "b64_val (b64_char n) = map b64_val b64_alphabet ! n"
    by (simp add: b64_char_def)
  with n show ?thesis by (simp add: b64_val_alphabet)
qed

lemma b64_val_pad [simp]: "b64_val (CHR ''='') = None"
  by code_simp

lemma b64_char_not_pad: "n < 64 \<Longrightarrow> b64_char n \<noteq> CHR ''=''"
  by (metis b64_val_char b64_val_pad option.distinct(1))

section \<open>Encoding and decoding\<close>

fun std_encode :: "bytes \<Rightarrow> string" where
  "std_encode [] = []"
| "std_encode [a] =
     (let n = of_char a * 16
      in [b64_char (n div 64), b64_char (n mod 64), CHR ''='', CHR ''=''])"
| "std_encode [a, b] =
     (let n = (of_char a * 256 + of_char b) * 4
      in [b64_char (n div 4096), b64_char (n div 64 mod 64), b64_char (n mod 64), CHR ''=''])"
| "std_encode (a # b # c # cs) =
     (let n = of_char a * 65536 + of_char b * 256 + of_char c
      in [b64_char (n div 262144), b64_char (n div 4096 mod 64), b64_char (n div 64 mod 64),
          b64_char (n mod 64)] @ std_encode cs)"

text \<open>
  Decoding accepts canonical padding only, and rejects a last symbol with stray low bits.
\<close>

fun std_decode :: "string \<Rightarrow> bytes option" where
  "std_decode [] = Some []"
| "std_decode (w # x # y # z # rest) =
     (if rest = [] \<and> y = CHR ''='' \<and> z = CHR ''='' then
        (case (b64_val w, b64_val x) of
           (Some p, Some q) \<Rightarrow>
             let n = p * 64 + q in
             if n mod 16 = 0 then Some [char_of (n div 16)] else None
         | _ \<Rightarrow> None)
      else if rest = [] \<and> z = CHR ''='' then
        (case (b64_val w, b64_val x, b64_val y) of
           (Some p, Some q, Some r) \<Rightarrow>
             let n = (p * 64 + q) * 64 + r in
             if n mod 4 = 0 then Some [char_of (n div 1024), char_of (n div 4 mod 256)] else None
         | _ \<Rightarrow> None)
      else
        (case (b64_val w, b64_val x, b64_val y, b64_val z) of
           (Some p, Some q, Some r, Some s) \<Rightarrow>
             let n = ((p * 64 + q) * 64 + r) * 64 + s in
             map_option (\<lambda>bs. char_of (n div 65536) # char_of (n div 256 mod 256)
               # char_of (n mod 256) # bs) (std_decode rest)
         | _ \<Rightarrow> None))"
| "std_decode _ = None"

lemma sextets2: "n div 64 * 64 + n mod 64 = n" for n :: nat
  by simp

lemma sextets3: "(n div 4096 * 64 + n div 64 mod 64) * 64 + n mod 64 = n" for n :: nat
proof -
  have "n div 4096 = n div 64 div 64" by (simp add: div_mult2_eq [symmetric])
  then show ?thesis by simp
qed

lemma sextets4:
  "((n div 262144 * 64 + n div 4096 mod 64) * 64 + n div 64 mod 64) * 64 + n mod 64 = n" for n :: nat
proof -
  have "n div 262144 = n div 4096 div 64" "n div 4096 = n div 64 div 64"
    by (simp_all add: div_mult2_eq [symmetric])
  then show ?thesis by simp
qed

lemmas sextets_norm = sextets3 [simplified] sextets4 [simplified]

lemma decode_group2:
  assumes "n < 4096" and "n mod 16 = 0"
  shows "std_decode [b64_char (n div 64), b64_char (n mod 64), CHR ''='', CHR ''='']
    = Some [char_of (n div 16)]"
proof -
  have "n div 64 < 64" using assms(1) by linarith
  with assms(2) show ?thesis by simp
qed

lemma decode_group3:
  assumes "n < 262144" and "n mod 4 = 0"
  shows "std_decode [b64_char (n div 4096), b64_char (n div 64 mod 64), b64_char (n mod 64), CHR ''='']
    = Some [char_of (n div 1024), char_of (n div 4 mod 256)]"
proof -
  have "n div 4096 < 64" using assms(1) by linarith
  with assms(2) show ?thesis
    by (simp add: b64_char_not_pad sextets_norm del: char_of_mod_256)
qed

lemma decode_group4:
  assumes "n < 16777216"
  shows "std_decode ([b64_char (n div 262144), b64_char (n div 4096 mod 64),
      b64_char (n div 64 mod 64), b64_char (n mod 64)] @ s)
    = map_option (\<lambda>bs. char_of (n div 65536) # char_of (n div 256 mod 256)
        # char_of (n mod 256) # bs) (std_decode s)"
proof -
  have "n div 262144 < 64" using assms by linarith
  then show ?thesis
    by (simp add: b64_char_not_pad sextets_norm del: char_of_mod_256)
qed

text \<open>Two and three bytes read as one number, and taken apart again.\<close>

lemma bytes2:
  fixes a b n :: nat
  assumes "a < 256" and "b < 256" and "n = (a * 256 + b) * 4"
  shows "n < 262144" and "n mod 4 = 0" and "n div 1024 = a" and "n div 4 mod 256 = b"
proof -
  have n: "n = a * 1024 + b * 4" using assms(3) by simp
  show "n < 262144" using assms(1,2) unfolding n by linarith
  show "n mod 4 = 0" using assms(3) by simp
  show "n div 1024 = a" using assms(2) unfolding n by simp
  have "n div 4 = a * 256 + b" using assms(3) by simp
  then show "n div 4 mod 256 = b" using assms(2) by simp
qed

lemma bytes3:
  fixes a b c n :: nat
  assumes "a < 256" and "b < 256" and "c < 256" and n: "n = a * 65536 + b * 256 + c"
  shows "n < 16777216" and "n div 65536 = a" and "n div 256 mod 256 = b" and "n mod 256 = c"
proof -
  show "n < 16777216" using assms by linarith
  have bc: "b * 256 + c < 65536" using assms by linarith
  have "n = (b * 256 + c) + a * 65536" using n by simp
  then show "n div 65536 = a" using bc by simp
  have m: "n = c + (a * 256 + b) * 256" using n by simp
  then have "n div 256 = a * 256 + b" using assms(3) by simp
  then show "n div 256 mod 256 = b" using assms(2) by simp
  show "n mod 256 = c" using assms(3) by (subst m) (simp only: mod_mult_self1 mod_less)
qed

lemma std_decode_encode: "std_decode (std_encode b) = Some b"
proof (induction b rule: std_encode.induct)
  case (2 a)
  have "of_char a * 16 < (4096 :: nat)"
    using nat_of_char_less_256 [of a] by linarith
  from decode_group2 [OF this] show ?case
    by (simp only: std_encode.simps Let_def) simp
next
  case (3 a b)
  note n = bytes2 [OF nat_of_char_less_256 [of a] nat_of_char_less_256 [of b] refl]
  show ?case
    by (simp only: std_encode.simps Let_def decode_group3 [OF n(1,2)] n(3,4)) simp
next
  case (4 a b c cs)
  note n = bytes3 [OF nat_of_char_less_256 [of a] nat_of_char_less_256 [of b]
      nat_of_char_less_256 [of c] refl]
  show ?case
    by (simp only: std_encode.simps Let_def decode_group4 [OF n(1)] n(2,3,4) "4.IH") simp
qed simp

definition std_externals :: externals where
  "std_externals = \<lparr>b64_encode = std_encode, b64_decode = std_decode\<rparr>"

interpretation std: cursor_codec std_externals
  by unfold_locales (simp add: std_externals_def std_decode_encode)

end
