(* ===== verification/Std_Sled.thy ===== *)
theory Std_Sled
  imports Sled_Contract Std_Base64
begin

text \<open>
  A reference instance of the libraries the persistent backend calls, to show that the laws of
  \<open>sled_backend\<close> hold together: an in-memory ordered map for a tree, the hyphenated
  hexadecimal form of a UUID, and a binary form of the stored values in place of JSON.
\<close>

section \<open>Trees\<close>

definition std_tree :: "(bytes, bytes) btree tree_ops" where
  "std_tree = \<lparr>tr_get = (\<lambda>t k. Inr (bt_get t k)),
     tr_insert = (\<lambda>k v t. Inr (bt_insert k v t)),
     tr_remove = (\<lambda>k t. Inr (bt_remove k t)),
     tr_scan_prefix = (\<lambda>p t. map Inr (filter (\<lambda>e. has_prefix p (fst e)) t)),
     tr_iter = map Inr,
     tr_flush = Inr,
     tr_commit = (\<lambda>_. Inr ())\<rparr>"

definition std_init :: "(bytes, bytes) btree sled_store" where
  "std_init = \<lparr>ss_messages = [], ss_index = [], ss_quota = [], ss_seq = []\<rparr>"

section \<open>UUIDs\<close>

definition hex_alphabet :: string where
  "hex_alphabet = ''0123456789abcdef''"

definition hex_digit :: "nat \<Rightarrow> char" where
  "hex_digit d = hex_alphabet ! d"

fun hexs :: "nat \<Rightarrow> nat \<Rightarrow> string" where
  "hexs 0 n = []"
| "hexs (Suc w) n = hexs w (n div 16) @ [hex_digit (n mod 16)]"

definition std_uuid_text :: "uuid \<Rightarrow> string" where
  "std_uuid_text i =
     (let h = hexs 32 (unat i) in
      take 8 h @ ''-'' @ take 4 (drop 8 h) @ ''-'' @ take 4 (drop 12 h) @ ''-'' @ take 4 (drop 16 h)
        @ ''-'' @ drop 20 h)"

lemma length_hexs [simp]: "length (hexs w n) = w"
  by (induction w arbitrary: n) auto

lemma hex_alphabet_chars: "\<forall>c\<in>set hex_alphabet. ascii_char c \<and> c \<noteq> CHR '':''"
  by (simp add: hex_alphabet_def ascii_char_def)

lemma hex_digit_eq: "a < 16 \<Longrightarrow> b < 16 \<Longrightarrow> hex_digit a = hex_digit b \<longleftrightarrow> a = b"
  unfolding hex_digit_def by (rule nth_eq_iff_index_eq) (simp_all add: hex_alphabet_def)

lemma set_hexs: "set (hexs w n) \<subseteq> set hex_alphabet"
proof (induction w arbitrary: n)
  case (Suc w)
  have "hex_digit (n mod 16) \<in> set hex_alphabet"
    unfolding hex_digit_def by (rule nth_mem) (simp add: hex_alphabet_def)
  with Suc show ?case by simp
qed simp

lemma hexs_inj: "m < 16 ^ w \<Longrightarrow> n < 16 ^ w \<Longrightarrow> hexs w m = hexs w n \<Longrightarrow> m = n"
proof (induction w arbitrary: m n)
  case (Suc w)
  then have "m div 16 = n div 16"
    by (intro Suc.IH) (simp_all add: less_mult_imp_div_less mult.commute)
  moreover have "m mod 16 = n mod 16" using Suc.prems(3) by (simp add: hex_digit_eq)
  ultimately show ?case by (metis div_mult_mod_eq)
qed simp

lemma std_uuid_inj: "std_uuid_text i = std_uuid_text j \<longleftrightarrow> i = j"
proof
  define unhyphen where
    "unhyphen t = take 8 t @ take 4 (drop 9 t) @ take 4 (drop 14 t) @ take 4 (drop 19 t) @ drop 24 t" for t :: string
  have cut: "take 8 h @ take 4 (drop 8 h) @ take 4 (drop 12 h) @ take 4 (drop 16 h) @ drop 20 h = h" for h :: string
    using append_take_drop_id [of 4 "drop 16 h"] append_take_drop_id [of 4 "drop 12 h"]
      append_take_drop_id [of 4 "drop 8 h"] append_take_drop_id [of 8 h] by simp
  have un: "unhyphen (std_uuid_text k) = hexs 32 (unat k)" for k
    by (simp add: unhyphen_def std_uuid_text_def Let_def cut)
  assume "std_uuid_text i = std_uuid_text j"
  then have "hexs 32 (unat i) = hexs 32 (unat j)" using un by metis
  moreover have "unat k < 16 ^ 32" for k :: uuid using unat_lt_pow [of k] by simp
  ultimately have "unat i = unat j" by (intro hexs_inj)
  then show "i = j" by (simp only: word_unat_eq_iff)
qed simp

lemma set_std_uuid: "c \<in> set (std_uuid_text i) \<Longrightarrow> ascii_char c \<and> c \<noteq> CHR '':''"
proof -
  assume "c \<in> set (std_uuid_text i)"
  then have "c = CHR ''-'' \<or> c \<in> set (hexs 32 (unat i))"
    unfolding std_uuid_text_def Let_def by (auto dest: in_set_takeD in_set_dropD)
  then show ?thesis
  proof
    assume "c \<in> set (hexs 32 (unat i))"
    then have "c \<in> set hex_alphabet" using set_hexs by blast
    with hex_alphabet_chars show ?thesis by blast
  qed (simp add: ascii_char_def)
qed

section \<open>Values\<close>

definition put_text :: "string \<Rightarrow> bytes" where
  "put_text s = replicate (length s) (CHR ''#'') @ CHR '';'' # s"

definition get_text :: "bytes \<Rightarrow> string \<times> bytes" where
  "get_text b =
     (let n = length (takeWhile (\<lambda>c. c = CHR ''#'') b); rest = drop (Suc n) b in (take n rest, drop n rest))"

definition put_word :: "nat \<Rightarrow> 'a::len word \<Rightarrow> bytes" where
  "put_word w v = be_bytes w (unat v)"

definition get_word :: "nat \<Rightarrow> bytes \<Rightarrow> 'a::len word \<times> bytes" where
  "get_word w b = (word_of_nat (foldl (\<lambda>a c. a * 256 + of_char c) 0 (take w b)), drop w b)"

lemma get_put_text [simp]: "get_text (put_text s @ t) = (s, t)"
proof -
  have "takeWhile (\<lambda>c. c = CHR ''#'') (replicate n (CHR ''#'') @ CHR '';'' # x) = replicate n (CHR ''#'')" for n x
    by (induction n) auto
  then show ?thesis by (simp add: get_text_def put_text_def)
qed

lemma get_put_word: "LENGTH('a) \<le> 8 * w \<Longrightarrow> get_word w (put_word w v @ t) = (v, t)" for v :: "'a::len word"
proof -
  assume "LENGTH('a) \<le> 8 * w"
  then have "(2::nat) ^ LENGTH('a) \<le> 2 ^ (8 * w)" by (intro power_increasing) simp_all
  also have "\<dots> = 256 ^ w" by (simp add: power_mult)
  finally have "unat v < 256 ^ w" using unat_lt_pow [of v] by linarith
  then show ?thesis by (simp add: get_word_def put_word_def be_bytes_value)
qed

definition std_msg_to_vec :: "queue_message \<Rightarrow> string + bytes" where
  "std_msg_to_vec m = Inr (put_text (qm_recipient m) @ put_text (qm_ciphertext_b64 m)
     @ put_text (mm_kind (qm_meta m)) @ put_word 16 (qm_message_id m)
     @ put_word 8 (mm_total_len (qm_meta m)) @ put_word 4 (mm_chunk_index (qm_meta m))
     @ put_word 4 (mm_chunk_count (qm_meta m)) @ put_word 8 (mm_sent_ms (qm_meta m))
     @ put_word 8 (qm_arrival_ms m) @ put_word 8 (qm_deadline_ms m) @ put_word 8 (qm_payload_bytes m)
     @ put_word 8 (qm_arrival_seq m))"

definition std_msg_from_slice :: "bytes \<Rightarrow> string + queue_message" where
  "std_msg_from_slice b =
     (let (recipient, b) = get_text b; (ciphertext, b) = get_text b; (kind, b) = get_text b;
          (i, b) = get_word 16 b; (total, b) = get_word 8 b; (idx, b) = get_word 4 b;
          (cnt, b) = get_word 4 b; (sent, b) = get_word 8 b; (arrival, b) = get_word 8 b;
          (deadline, b) = get_word 8 b; (payload, b) = get_word 8 b; (seq, b) = get_word 8 b in
      if b \<noteq> [] then Inl ''trailing characters''
      else Inr \<lparr>qm_recipient = recipient, qm_message_id = i, qm_ciphertext_b64 = ciphertext,
        qm_meta = \<lparr>mm_kind = kind, mm_total_len = total, mm_chunk_index = idx, mm_chunk_count = cnt,
          mm_sent_ms = sent\<rparr>,
        qm_arrival_ms = arrival, qm_deadline_ms = deadline, qm_payload_bytes = payload, qm_arrival_seq = seq\<rparr>)"

definition std_codecs :: sled_codecs where
  "std_codecs = \<lparr>uuid_text = std_uuid_text, msg_to_vec = std_msg_to_vec, msg_from_slice = std_msg_from_slice,
     quota_to_vec = (\<lambda>q. Inr (put_word 8 (qv_bytes q) @ put_word 8 (qv_count q))),
     quota_from_slice = (\<lambda>b.
       let (n, b) = get_word 8 b; (c, b) = get_word 8 b in
       if b \<noteq> [] then Inl ''trailing characters'' else Inr \<lparr>qv_bytes = n, qv_count = c\<rparr>)\<rparr>"

lemma get_last_word: "LENGTH('a) \<le> 8 * w \<Longrightarrow> get_word w (put_word w v) = (v, [])" for v :: "'a::len word"
  using get_put_word [of w v "[]"] by simp

section \<open>The instance\<close>

interpretation std_sled: sled_opened std_tree "\<lambda>t. t" bt_ok std_codecs std_init
proof unfold_locales
  fix m
  show "\<exists>v. msg_to_vec std_codecs m = Inr v \<and> msg_from_slice std_codecs v = Inr m"
    by (simp add: std_codecs_def std_msg_to_vec_def std_msg_from_slice_def get_put_word get_last_word)
next
  fix q
  show "\<exists>v. quota_to_vec std_codecs q = Inr v \<and> quota_from_slice std_codecs v = Inr q"
    by (simp add: std_codecs_def get_put_word get_last_word)
next
  fix i
  show "CHR '':'' \<notin> set (uuid_text std_codecs i)"
    by (auto simp: std_codecs_def dest: set_std_uuid)
  show "list_all ascii_char (uuid_text std_codecs i)"
    by (simp add: std_codecs_def list_all_iff set_std_uuid)
qed (auto simp: std_codecs_def std_tree_def std_init_def std_uuid_inj trees_ok_def bt.ok_insert bt.ok_remove bt.ok_empty bt.get_entries)

end
