(* ===== verification/F64.thy ===== *)
theory F64
  imports Complex_Main "HOL-Library.Log_Nat"
begin

text \<open>
  Rust's \<open>f64\<close> as the rate limiter uses it: finite values as exact rationals, and \<open>rnd\<close>,
  IEEE 754 rounding to the nearest value with a 53-bit significand, ties to even. The sums
  and products of the limiter stay between \<open>2 ^ -30\<close> and \<open>2 ^ 97\<close> or are zero, so neither
  overflow nor subnormal numbers occur and the exponent is left unbounded.
\<close>

type_synonym f64 = rat

section \<open>Rounding\<close>

text \<open>The binary exponent: \<open>2 powi bexp x \<le> x < 2 powi (bexp x + 1)\<close>.\<close>

definition bexp :: "rat \<Rightarrow> int" where
  "bexp x = (case quotient_of x of (a, b) \<Rightarrow>
     let k = bitlen a - bitlen b in if 2 powi k \<le> x then k else k - 1)"

definition round_even :: "rat \<Rightarrow> int" where
  "round_even y =
     (let f = \<lfloor>y\<rfloor>; d = y - of_int f in
      if d < 1 / 2 \<or> d = 1 / 2 \<and> even f then f else f + 1)"

definition rnd_pos :: "rat \<Rightarrow> f64" where
  "rnd_pos x = (let u = 2 powi (bexp x - 52) in of_int (round_even (x / u)) * u)"

definition rnd :: "rat \<Rightarrow> f64" where
  "rnd x = (if x = 0 then 0 else if x < 0 then - rnd_pos (- x) else rnd_pos x)"

definition f64_add :: "f64 \<Rightarrow> f64 \<Rightarrow> f64" where
  "f64_add a b = rnd (a + b)"

definition f64_sub :: "f64 \<Rightarrow> f64 \<Rightarrow> f64" where
  "f64_sub a b = rnd (a - b)"

definition f64_mul :: "f64 \<Rightarrow> f64 \<Rightarrow> f64" where
  "f64_mul a b = rnd (a * b)"

definition f64_div :: "f64 \<Rightarrow> f64 \<Rightarrow> f64" where
  "f64_div a b = rnd (a / b)"

text \<open>A cast from an integer type.\<close>

definition f64_of_nat :: "nat \<Rightarrow> f64" where
  "f64_of_nat n = rnd (of_nat n)"

section \<open>Correctness of the rounding\<close>

lemma powi_2_less: "(2 :: rat) powi a < 2 powi b \<longleftrightarrow> a < b"
proof
  show "a < b" if "(2 :: rat) powi a < 2 powi b"
    using power_int_increasing [of b a "2 :: rat"] that by fastforce
qed (simp add: power_int_strict_increasing)

lemma powi_2_add: "(2 :: rat) powi (a + b) = 2 powi a * 2 powi b"
  by (simp add: power_int_add)

lemma powi_2_diff: "(2 :: rat) powi (a - b) = 2 powi a / 2 powi b"
  by (simp add: power_int_diff)

lemma bitlen_powi:
  assumes "0 < a"
  shows "(2 :: rat) powi (bitlen a - 1) \<le> of_int a \<and> (of_int a :: rat) < 2 powi bitlen a"
proof -
  have pos: "0 < bitlen a"
    using assms bitlen_nonneg [of a] bitlen_eq_zero_iff [of a] by linarith
  have "2 ^ nat (bitlen a - 1) \<le> a" "a < 2 ^ nat (bitlen a)"
    using bitlen_bounds [OF assms] by simp_all
  then have "(of_int (2 ^ nat (bitlen a - 1)) :: rat) \<le> of_int a"
      "(of_int a :: rat) < of_int (2 ^ nat (bitlen a))"
    by (simp_all only: of_int_le_iff of_int_less_iff)
  with pos show ?thesis by (simp add: power_int_def)
qed

lemma bexp_bounds:
  assumes "0 < x"
  shows "2 powi bexp x \<le> x \<and> x < 2 powi (bexp x + 1)"
proof -
  obtain a b where q: "quotient_of x = (a, b)" by fastforce
  have x: "x = of_int a / of_int b" and b: "0 < b"
    using quotient_of_div [OF q] quotient_of_denom_pos [OF q] by simp_all
  then have a: "0 < a" using assms by (simp add: zero_less_divide_iff)
  let ?k = "bitlen a - bitlen b"
  note A = bitlen_powi [OF a] and B = bitlen_powi [OF b]
  have pb: "(0 :: rat) < of_int b" using b by simp
  have "x < 2 powi bitlen a / of_int b"
    unfolding x using A pb by (simp add: divide_strict_right_mono)
  also have "\<dots> \<le> 2 powi bitlen a / 2 powi (bitlen b - 1)"
    using B pb by (intro divide_left_mono) (simp_all add: zero_less_mult_iff)
  also have "\<dots> = 2 powi (?k + 1)"
    by (simp flip: powi_2_diff add: algebra_simps)
  finally have hi: "x < 2 powi (?k + 1)" .
  have "2 powi (?k - 1) = 2 powi (bitlen a - 1) / (2 :: rat) powi bitlen b"
    by (simp flip: powi_2_diff add: algebra_simps)
  also have "\<dots> \<le> of_int a / 2 powi bitlen b"
    using A by (simp add: divide_right_mono)
  also have "\<dots> \<le> x"
    unfolding x using A B pb a by (intro divide_left_mono) (simp_all add: zero_less_mult_iff)
  finally have lo: "2 powi (?k - 1) \<le> x" .
  show ?thesis
    using hi lo by (simp add: bexp_def q Let_def)
qed

lemma bexp_mono: "0 < x \<Longrightarrow> x \<le> y \<Longrightarrow> bexp x \<le> bexp y"
proof -
  assume "0 < x" "x \<le> y"
  then have "2 powi bexp x < (2 :: rat) powi (bexp y + 1)"
    using bexp_bounds [of x] bexp_bounds [of y] by linarith
  then show ?thesis unfolding powi_2_less by simp
qed

lemma round_even_bounds: "\<lfloor>y\<rfloor> \<le> round_even y \<and> round_even y \<le> \<lfloor>y\<rfloor> + 1"
  by (simp add: round_even_def Let_def)

lemma round_even_of_int [simp]: "round_even (of_int n) = n"
  by (simp add: round_even_def)

lemma round_even_mono:
  assumes "x \<le> y"
  shows "round_even x \<le> round_even y"
proof (cases "\<lfloor>x\<rfloor> = \<lfloor>y\<rfloor>")
  case True
  with assms show ?thesis by (auto simp: round_even_def Let_def)
next
  case False
  with assms have "\<lfloor>x\<rfloor> + 1 \<le> \<lfloor>y\<rfloor>"
    using floor_mono [OF assms] by linarith
  with round_even_bounds [of x] round_even_bounds [of y] show ?thesis by linarith
qed

lemma rnd_pos_bounds:
  assumes "0 < x"
  shows "2 powi bexp x \<le> rnd_pos x \<and> rnd_pos x \<le> 2 powi (bexp x + 1)"
proof -
  let ?u = "(2 :: rat) powi (bexp x - 52)"
  have "2 powi bexp x = (of_int (2 ^ 52) :: rat) * ?u" "2 powi (bexp x + 1) = (of_int (2 ^ 53) :: rat) * ?u"
    using powi_2_add [of 52 "bexp x - 52"] powi_2_add [of 53 "bexp x - 52"] by (simp_all add: add.commute)
  moreover have "of_int (2 ^ 52) \<le> x / ?u" "x / ?u \<le> of_int (2 ^ 53)"
    using bexp_bounds [OF assms] calculation by (simp_all add: pos_le_divide_eq pos_divide_le_eq)
  then have "2 ^ 52 \<le> round_even (x / ?u)" "round_even (x / ?u) \<le> 2 ^ 53"
    using round_even_mono round_even_of_int by (metis, metis)
  then have "(of_int (2 ^ 52) :: rat) \<le> of_int (round_even (x / ?u))"
      "of_int (round_even (x / ?u)) \<le> (of_int (2 ^ 53) :: rat)"
    by (simp_all only: of_int_le_iff)
  ultimately show ?thesis
    by (simp add: rnd_pos_def Let_def mult_right_mono)
qed

lemma rnd_pos_mono:
  assumes "0 < x" and "x \<le> y"
  shows "rnd_pos x \<le> rnd_pos y"
proof (cases "bexp x = bexp y")
  case True
  have "round_even (x / 2 powi (bexp x - 52)) \<le> round_even (y / 2 powi (bexp x - 52))"
    using assms(2) by (intro round_even_mono divide_right_mono) simp_all
  then have "(of_int (round_even (x / 2 powi (bexp x - 52))) :: rat)
      \<le> of_int (round_even (y / 2 powi (bexp x - 52)))"
    by (simp only: of_int_le_iff)
  then show ?thesis
    unfolding rnd_pos_def Let_def True [symmetric] by (intro mult_right_mono) simp_all
next
  case False
  then have "bexp x + 1 \<le> bexp y" using bexp_mono [OF assms] by simp
  then have "(2 :: rat) powi (bexp x + 1) \<le> 2 powi bexp y"
    by (intro power_int_increasing) simp_all
  with rnd_pos_bounds [OF assms(1)] rnd_pos_bounds [of y] assms show ?thesis by linarith
qed

lemma rnd_zero [simp]: "rnd 0 = 0"
  by (simp add: rnd_def)

lemma rnd_nonneg: "0 \<le> x \<Longrightarrow> 0 \<le> rnd x"
proof -
  assume "0 \<le> x"
  then consider "x = 0" | "0 < x" by linarith
  then show ?thesis
  proof cases
    case 2
    have "(0 :: rat) < 2 powi bexp x" by simp
    with rnd_pos_bounds [OF 2] have "0 \<le> rnd_pos x" by linarith
    with 2 show ?thesis by (simp add: rnd_def)
  qed simp
qed

lemma rnd_mono: "0 \<le> x \<Longrightarrow> x \<le> y \<Longrightarrow> rnd x \<le> rnd y"
proof (cases "x = 0")
  case False
  assume "0 \<le> x" "x \<le> y"
  with False show ?thesis by (simp add: rnd_def rnd_pos_mono)
qed (simp add: rnd_nonneg)

section \<open>Exact values\<close>

text \<open>A value with at most 53 significant bits is not rounded.\<close>

lemma rnd_exact_less:
  assumes "0 \<le> m" and "m < 2 ^ 53"
  shows "rnd (of_int m * 2 powi e) = of_int m * 2 powi e"
proof (cases "m = 0")
  case False
  let ?x = "(of_int m :: rat) * 2 powi e"
  have pos: "0 < ?x" using False assms(1) by simp
  have "(of_int m :: rat) < of_int (2 ^ 53)" using assms(2) by (simp only: of_int_less_iff)
  then have "?x < 2 powi 53 * 2 powi e" by simp
  then have "(2 :: rat) powi bexp ?x < 2 powi (53 + e)"
    using bexp_bounds [OF pos] unfolding powi_2_add by linarith
  then have lt: "bexp ?x < 53 + e" unfolding powi_2_less .
  define k where "k = bexp ?x"
  define n where "n = nat (e - (k - 52))"
  have "(2 :: rat) powi e = 2 powi (e - (k - 52)) * 2 powi (k - 52)"
    by (subst powi_2_add [symmetric]) simp
  also have "(2 :: rat) powi (e - (k - 52)) = of_int (2 ^ n)"
    using lt by (simp add: n_def k_def power_int_def)
  finally have e: "(2 :: rat) powi e = of_int (2 ^ n) * 2 powi (k - 52)" .
  have "?x / 2 powi (k - 52) = of_int (m * 2 ^ n)"
    unfolding e by simp
  then have "rnd_pos ?x = of_int (m * 2 ^ n) * 2 powi (k - 52)"
    unfolding rnd_pos_def Let_def k_def [symmetric] by (simp only: round_even_of_int)
  also have "\<dots> = ?x" unfolding e by simp
  finally show ?thesis using pos by (simp add: rnd_def)
qed simp

lemma rnd_exact:
  assumes "0 \<le> m" and "m \<le> 2 ^ 53"
  shows "rnd (of_int m * 2 powi e) = of_int m * 2 powi e"
proof (cases "m = 2 ^ 53")
  case True
  then have "(of_int m :: rat) * 2 powi e = of_int 1 * 2 powi (e + 53)"
    by (simp add: powi_2_add)
  then show ?thesis using rnd_exact_less [of 1 "e + 53"] by simp
qed (use assms rnd_exact_less in simp)

lemma rnd_of_nat: "n \<le> 2 ^ 53 \<Longrightarrow> rnd (of_nat n) = of_nat n"
  using rnd_exact [of "int n" 0] by simp

lemma f64_of_nat_exact: "n \<le> 2 ^ 53 \<Longrightarrow> f64_of_nat n = of_nat n"
  by (simp add: f64_of_nat_def rnd_of_nat)

lemma rnd_one [simp]: "rnd 1 = 1"
  using rnd_of_nat [of 1] by simp

lemma rnd_value:
  assumes "0 < x" and "rnd x = x"
  obtains m where "x = of_int m * 2 powi (bexp x - 52)" and "0 \<le> m" and "m \<le> 2 ^ 53"
proof -
  let ?u = "(2 :: rat) powi (bexp x - 52)" and ?m = "round_even (x / 2 powi (bexp x - 52))"
  have x: "x = of_int ?m * ?u"
    using assms by (simp add: rnd_def rnd_pos_def Let_def)
  have "of_int ?m * ?u \<le> of_int (2 ^ 53) * ?u"
    using rnd_pos_bounds [OF assms(1)] powi_2_add [of 53 "bexp x - 52"]
    by (simp add: rnd_pos_def Let_def add.commute)
  then have "(of_int ?m :: rat) \<le> of_int (2 ^ 53)" by (rule mult_right_le_imp_le) simp
  then have "?m \<le> 2 ^ 53" by (simp only: of_int_le_iff)
  moreover have "0 \<le> ?m"
    using assms(1) by (simp add: round_even_def Let_def)
  ultimately show thesis using that x by blast
qed

text \<open>Subtracting one from a value of the range of the limiter is exact.\<close>

lemma rnd_minus_one:
  assumes "rnd t = t" and "1 \<le> t" and "t < 2 ^ 53"
  shows "rnd (t - 1) = t - 1"
proof -
  have pos: "0 < t" using assms(2) by simp
  obtain m where t: "t = of_int m * 2 powi (bexp t - 52)" and m: "0 \<le> m" "m \<le> 2 ^ 53"
    using rnd_value [OF pos assms(1)] .
  have "(2 :: rat) powi bexp t < 2 powi 53"
    using bexp_bounds [OF pos] assms(3) by simp
  then have "bexp t < 53" unfolding powi_2_less .
  then have e: "0 \<le> 52 - bexp t" by simp
  define n where "n = nat (52 - bexp t)"
  have one: "(1 :: rat) = of_int (2 ^ n) * 2 powi (bexp t - 52)"
  proof -
    have "of_int (2 ^ n) = (2 :: rat) powi (52 - bexp t)"
      using e by (simp add: n_def power_int_def)
    then show ?thesis by (simp flip: powi_2_add)
  qed
  have eq: "t - 1 = of_int (m - 2 ^ n) * 2 powi (bexp t - 52)"
    by (subst t, subst one) (simp add: left_diff_distrib)
  have "0 \<le> of_int (m - 2 ^ n) * (2 :: rat) powi (bexp t - 52)"
    using assms(2) eq by linarith
  then have "\<not> (of_int (m - 2 ^ n) :: rat) < 0"
    using mult_neg_pos [of "of_int (m - 2 ^ n) :: rat" "2 powi (bexp t - 52)"] by fastforce
  then have "0 \<le> m - 2 ^ n" by (simp only: of_int_less_0_iff not_less)
  moreover have "m - 2 ^ n \<le> 2 ^ 53" using m by (smt (verit) zero_le_power)
  ultimately show ?thesis unfolding eq by (rule rnd_exact)
qed

lemma rnd_idem: "0 \<le> x \<Longrightarrow> rnd (rnd x) = rnd x"
proof (cases "x = 0")
  case False
  assume "0 \<le> x"
  with False have pos: "0 < x" by simp
  let ?u = "(2 :: rat) powi (bexp x - 52)" and ?m = "round_even (x / 2 powi (bexp x - 52))"
  have r: "rnd x = of_int ?m * ?u"
    using pos by (simp add: rnd_def rnd_pos_def Let_def)
  have "of_int ?m * ?u \<le> of_int (2 ^ 53) * ?u"
    using rnd_pos_bounds [OF pos] powi_2_add [of 53 "bexp x - 52"]
    by (simp add: rnd_pos_def Let_def add.commute)
  then have "(of_int ?m :: rat) \<le> of_int (2 ^ 53)" by (rule mult_right_le_imp_le) simp
  then have m: "?m \<le> 2 ^ 53" by (simp only: of_int_le_iff)
  have "0 \<le> ?m" using pos by (simp add: round_even_def Let_def)
  from rnd_exact [OF this m, of "bexp x - 52"] show ?thesis unfolding r .
qed simp

text \<open>The familiar consequence, evaluated: \<open>0.1 + 0.2\<close> is not \<open>0.3\<close>.\<close>

lemma f64_tenths: "f64_add (rnd (1 / 10)) (rnd (2 / 10)) \<noteq> rnd (3 / 10)"
  by code_simp

section \<open>The rounding error\<close>

text \<open>The unit roundoff of the format.\<close>

definition f64_eps :: rat where
  "f64_eps = 1 / 2 ^ 53"

lemma f64_eps_pos: "0 < f64_eps"
  by (simp add: f64_eps_def)

lemma round_even_error: "of_int (round_even y) \<le> y + 1 / 2"
proof -
  have f: "of_int \<lfloor>y\<rfloor> \<le> y" by simp
  show ?thesis
  proof (cases "y - of_int \<lfloor>y\<rfloor> < 1 / 2 \<or> y - of_int \<lfloor>y\<rfloor> = 1 / 2 \<and> even \<lfloor>y\<rfloor>")
    case True
    then have "round_even y = \<lfloor>y\<rfloor>" by (simp add: round_even_def Let_def)
    then show ?thesis using f by linarith
  next
    case False
    then have "round_even y = \<lfloor>y\<rfloor> + 1" and "1 / 2 \<le> y - of_int \<lfloor>y\<rfloor>"
      by (auto simp: round_even_def Let_def)
    then show ?thesis by simp
  qed
qed

lemma rnd_upper:
  assumes "0 \<le> x"
  shows "rnd x \<le> x * (1 + f64_eps)"
proof (cases "x = 0")
  case False
  then have pos: "0 < x" using assms by simp
  let ?u = "(2 :: rat) powi (bexp x - 52)"
  have "rnd x = of_int (round_even (x / ?u)) * ?u"
    using pos by (simp add: rnd_def rnd_pos_def Let_def)
  also have "\<dots> \<le> (x / ?u + 1 / 2) * ?u"
    using round_even_error by (intro mult_right_mono) simp_all
  also have "\<dots> = x + ?u / 2"
    by (simp add: distrib_right)
  also have "?u = 2 * (2 powi bexp x * f64_eps)"
    by (simp add: powi_2_diff f64_eps_def)
  also have "x + 2 * (2 powi bexp x * f64_eps) / 2 \<le> x + x * f64_eps"
    using bexp_bounds [OF pos] f64_eps_pos by (simp add: mult_right_mono)
  finally show ?thesis by (simp add: algebra_simps)
qed simp

end
