(* ===== verification/Metrics.thy ===== *)
theory Metrics
  imports Relay_Config
begin

text \<open>
  \<open>src/metrics.rs\<close>: the counters of the \<open>metrics\<close> build and their snapshot. An
  \<open>AtomicU64\<close> is a 64-bit word; \<open>fetch_add\<close> wraps around as word addition does.
\<close>

section \<open>Counters\<close>

record relay_metrics =
  m_push_total :: u64
  m_push_stored :: u64
  m_duplicates :: u64
  m_pull_total :: u64
  m_ack_total :: u64
  m_ack_deleted :: u64
  m_rate_limited :: u64
  m_gc_removed :: u64

definition relay_metrics_default :: relay_metrics where
  "relay_metrics_default =
     \<lparr>m_push_total = 0, m_push_stored = 0, m_duplicates = 0, m_pull_total = 0,
      m_ack_total = 0, m_ack_deleted = 0, m_rate_limited = 0, m_gc_removed = 0\<rparr>"

record metrics_snapshot =
  sn_push_total :: u64
  sn_push_stored :: u64
  sn_duplicates :: u64
  sn_pull_total :: u64
  sn_ack_total :: u64
  sn_ack_deleted :: u64
  sn_rate_limited :: u64
  sn_gc_removed :: u64

definition snapshot :: "relay_metrics \<Rightarrow> metrics_snapshot" where
  "snapshot m =
     \<lparr>sn_push_total = m_push_total m, sn_push_stored = m_push_stored m,
      sn_duplicates = m_duplicates m, sn_pull_total = m_pull_total m,
      sn_ack_total = m_ack_total m, sn_ack_deleted = m_ack_deleted m,
      sn_rate_limited = m_rate_limited m, sn_gc_removed = m_gc_removed m\<rparr>"

text \<open>A counter update under \<open>#[cfg(feature = "metrics")]\<close>.\<close>

definition metered :: "features \<Rightarrow> (relay_metrics \<Rightarrow> relay_metrics) \<Rightarrow> relay_metrics \<Rightarrow> relay_metrics" where
  "metered F f m = (if feat_metrics F then f m else m)"

end
