(* ===== verification/Rate_Limiter.thy ===== *)
theory Rate_Limiter
  imports F64 Relay_Config Metrics
begin

text \<open>
  The token-bucket rate limiter of \<open>src/server.rs\<close>: \<open>RateKey\<close>, \<open>Bucket\<close>,
  \<open>RateLimiter\<close> and \<open>allow\<close>. \<open>Instant\<close> is a count of nanoseconds; adding a duration to
  it panics when the seconds no longer fit the platform's signed 64-bit seconds, so an
  operation that may panic returns an option, with the state it leaves beside it. The map of
  buckets is behind a mutex that a panic releases without poisoning it.
\<close>

section \<open>Time\<close>

type_synonym instant = nat

definition nanos_per_sec :: nat where
  "nanos_per_sec = 1000000000"

text \<open>\<open>Instant + Duration::from_secs\<close>; \<open>None\<close> is the panic on overflow.\<close>

definition instant_add :: "instant \<Rightarrow> u64 \<Rightarrow> instant option" where
  "instant_add now secs =
     (if now div nanos_per_sec + unat secs < 2 ^ 63 then Some (now + unat secs * nanos_per_sec)
      else None)"

text \<open>\<open>Duration::as_secs_f64\<close> of a duration in nanoseconds.\<close>

definition as_secs_f64 :: "nat \<Rightarrow> f64" where
  "as_secs_f64 d =
     f64_add (f64_of_nat (d div nanos_per_sec))
       (f64_div (f64_of_nat (d mod nanos_per_sec)) (f64_of_nat nanos_per_sec))"

section \<open>State\<close>

datatype ip_addr = V4 "32 word" | V6 "128 word"

record rate_key =
  rk_ip :: ip_addr
  rk_label :: string

record bucket =
  bk_tokens :: f64
  bk_last :: instant
  bk_burst :: f64
  bk_rate :: f64
  bk_ban_until :: "instant option"

record rate_limiter =
  lim_enabled :: bool
  lim_ban_seconds :: u64
  lim_buckets :: "rate_key \<rightharpoonup> bucket"

definition limiter_new :: "bool \<Rightarrow> u64 \<Rightarrow> rate_limiter" where
  "limiter_new enabled ban_seconds =
     \<lparr>lim_enabled = enabled, lim_ban_seconds = ban_seconds, lim_buckets = Map.empty\<rparr>"

section \<open>Allow\<close>

text \<open>The part of \<open>allow\<close> that works on the entry of the map.\<close>

definition refill :: "instant \<Rightarrow> bucket \<Rightarrow> bucket" where
  "refill now entry =
     (let elapsed = as_secs_f64 (now - bk_last entry) in
      entry\<lparr>bk_ban_until := None,
            bk_tokens := min (f64_add (bk_tokens entry) (f64_mul elapsed (bk_rate entry))) (bk_burst entry),
            bk_last := now\<rparr>)"

definition banned :: "instant \<Rightarrow> bucket \<Rightarrow> bool" where
  "banned now entry = (case bk_ban_until entry of Some until \<Rightarrow> now < until | None \<Rightarrow> False)"

definition bucket_allow :: "u64 \<Rightarrow> instant \<Rightarrow> bucket \<Rightarrow> bool option \<times> bucket" where
  "bucket_allow ban_seconds now entry =
     (if banned now entry then (Some False, entry)
      else
        let entry' = refill now entry in
        if 1 \<le> bk_tokens entry'
        then (Some True, entry'\<lparr>bk_tokens := f64_sub (bk_tokens entry') 1\<rparr>)
        else
          (case instant_add now ban_seconds of
             None \<Rightarrow> (None, entry')
           | Some until \<Rightarrow> (Some False, entry'\<lparr>bk_ban_until := Some until\<rparr>)))"

definition fresh_bucket :: "instant \<Rightarrow> f64 \<Rightarrow> f64 \<Rightarrow> bucket" where
  "fresh_bucket now rate burst =
     \<lparr>bk_tokens = burst, bk_last = now, bk_burst = burst, bk_rate = rate, bk_ban_until = None\<rparr>"

definition allow ::
  "rate_limiter \<Rightarrow> instant \<Rightarrow> ip_addr \<Rightarrow> string \<Rightarrow> f64 \<Rightarrow> f64 \<Rightarrow> bool option \<times> rate_limiter" where
  "allow rl now ip label rate burst =
     (if \<not> lim_enabled rl then (Some True, rl)
      else
        let key = \<lparr>rk_ip = ip, rk_label = label\<rparr>;
            entry = (case lim_buckets rl key of None \<Rightarrow> fresh_bucket now rate burst | Some b \<Rightarrow> b)
        in (case bucket_allow (lim_ban_seconds rl) now entry of
              (res, entry') \<Rightarrow> (res, rl\<lparr>lim_buckets := (lim_buckets rl)(key \<mapsto> entry')\<rparr>)))"

text \<open>A sequence of calls for one key, one per instant of the list.\<close>

fun allow_calls ::
  "rate_limiter \<Rightarrow> instant list \<Rightarrow> ip_addr \<Rightarrow> string \<Rightarrow> f64 \<Rightarrow> f64 \<Rightarrow> bool option list \<times> rate_limiter" where
  "allow_calls rl [] ip label rate burst = ([], rl)"
| "allow_calls rl (now # ts) ip label rate burst =
     (case allow rl now ip label rate burst of
        (r, rl') \<Rightarrow>
          (case allow_calls rl' ts ip label rate burst of (rs, rl'') \<Rightarrow> (r # rs, rl'')))"

section \<open>The invariant of a bucket\<close>

text \<open>
  A bucket as the server creates it: the burst is a positive integer of 32 bits, the rate is
  one or more per second, and the tokens are a value of the format between zero and the burst.
\<close>

definition bucket_ok :: "bucket \<Rightarrow> bool" where
  "bucket_ok b \<longleftrightarrow>
     0 \<le> bk_tokens b \<and> bk_tokens b \<le> bk_burst b \<and> rnd (bk_tokens b) = bk_tokens b
     \<and> rnd (bk_burst b) = bk_burst b \<and> 1 \<le> bk_burst b \<and> bk_burst b < 2 ^ 53
     \<and> 1 \<le> bk_rate b"

definition limiter_ok :: "rate_limiter \<Rightarrow> bool" where
  "limiter_ok rl \<longleftrightarrow> (\<forall>key b. lim_buckets rl key = Some b \<longrightarrow> bucket_ok b)"

lemma limiter_ok_new [simp]: "limiter_ok (limiter_new en ban)"
  by (simp add: limiter_ok_def limiter_new_def)

lemma as_secs_f64_nonneg: "0 \<le> as_secs_f64 d"
  by (simp add: as_secs_f64_def f64_add_def f64_div_def f64_of_nat_def rnd_nonneg)

lemma as_secs_f64_zero [simp]: "as_secs_f64 0 = 0"
  by (simp add: as_secs_f64_def f64_add_def f64_div_def f64_of_nat_def)

text \<open>A second or more is at least \<open>1.0\<close>.\<close>

lemma as_secs_f64_ge_one:
  assumes "nanos_per_sec \<le> d"
  shows "1 \<le> as_secs_f64 d"
proof -
  have "1 \<le> d div nanos_per_sec"
    using div_le_mono [OF assms, of nanos_per_sec] by (simp add: nanos_per_sec_def)
  then have "(of_nat 1 :: rat) \<le> of_nat (d div nanos_per_sec)"
    by (simp only: of_nat_le_iff)
  then have "rnd 1 \<le> rnd (of_nat (d div nanos_per_sec))"
    by (intro rnd_mono) simp_all
  then have one: "1 \<le> f64_of_nat (d div nanos_per_sec)"
    by (simp add: f64_of_nat_def)
  have "0 \<le> f64_div (f64_of_nat (d mod nanos_per_sec)) (f64_of_nat nanos_per_sec)"
    by (simp add: f64_div_def f64_of_nat_def rnd_nonneg)
  with one have "rnd 1 \<le> rnd (f64_of_nat (d div nanos_per_sec)
      + f64_div (f64_of_nat (d mod nanos_per_sec)) (f64_of_nat nanos_per_sec))"
    by (intro rnd_mono) simp_all
  then show ?thesis by (simp add: as_secs_f64_def f64_add_def)
qed

lemma refill_sel [simp]:
  "bk_ban_until (refill now b) = None" "bk_last (refill now b) = now"
  "bk_burst (refill now b) = bk_burst b" "bk_rate (refill now b) = bk_rate b"
  "bk_tokens (refill now b) = min (f64_add (bk_tokens b)
     (f64_mul (as_secs_f64 (now - bk_last b)) (bk_rate b))) (bk_burst b)"
  by (simp_all add: refill_def Let_def)

lemma refill_inc_nonneg: "1 \<le> bk_rate b \<Longrightarrow> 0 \<le> f64_mul (as_secs_f64 d) (bk_rate b)"
  by (simp add: f64_mul_def rnd_nonneg as_secs_f64_nonneg)

lemma refill_tokens_ge: "bucket_ok b \<Longrightarrow> bk_tokens b \<le> bk_tokens (refill now b)"
proof -
  assume ok: "bucket_ok b"
  let ?inc = "f64_mul (as_secs_f64 (now - bk_last b)) (bk_rate b)"
  have "0 \<le> ?inc" using ok by (intro refill_inc_nonneg) (simp add: bucket_ok_def)
  then have "rnd (bk_tokens b) \<le> rnd (bk_tokens b + ?inc)"
    using ok by (intro rnd_mono) (simp_all add: bucket_ok_def)
  with ok show ?thesis by (simp add: bucket_ok_def f64_add_def)
qed

lemma bucket_ok_refill: "bucket_ok b \<Longrightarrow> bucket_ok (refill now b)"
proof -
  assume ok: "bucket_ok b"
  let ?x = "bk_tokens b + f64_mul (as_secs_f64 (now - bk_last b)) (bk_rate b)"
  have "0 \<le> ?x"
    using ok refill_inc_nonneg [of b "now - bk_last b"] by (simp add: bucket_ok_def)
  then have "rnd (f64_add (bk_tokens b) (f64_mul (as_secs_f64 (now - bk_last b)) (bk_rate b)))
      = f64_add (bk_tokens b) (f64_mul (as_secs_f64 (now - bk_last b)) (bk_rate b))"
    unfolding f64_add_def by (rule rnd_idem)
  with ok refill_tokens_ge [OF ok, of now] show ?thesis
    by (auto simp: bucket_ok_def min_def split: if_splits)
qed

lemma bucket_ok_take:
  assumes "bucket_ok b" and "1 \<le> bk_tokens b"
  shows "f64_sub (bk_tokens b) 1 = bk_tokens b - 1"
    and "bucket_ok (b\<lparr>bk_tokens := f64_sub (bk_tokens b) 1\<rparr>)"
proof -
  have sub: "rnd (bk_tokens b - 1) = bk_tokens b - 1"
    using assms by (intro rnd_minus_one) (auto simp: bucket_ok_def)
  then show "f64_sub (bk_tokens b) 1 = bk_tokens b - 1"
    by (simp add: f64_sub_def)
  with assms sub show "bucket_ok (b\<lparr>bk_tokens := f64_sub (bk_tokens b) 1\<rparr>)"
    by (simp add: bucket_ok_def)
qed

lemma bucket_ok_allow:
  "bucket_ok b \<Longrightarrow> bucket_allow ban now b = (res, b') \<Longrightarrow> bucket_ok b'"
proof -
  assume ok: "bucket_ok b" and a: "bucket_allow ban now b = (res, b')"
  note r = bucket_ok_refill [OF ok, of now]
  have until: "bucket_ok (refill now b\<lparr>bk_ban_until := u\<rparr>)" for u
    using r by (simp add: bucket_ok_def)
  show ?thesis
    using a ok r until bucket_ok_take(2) [OF r]
    by (auto simp: bucket_allow_def Let_def simp del: refill_sel split: if_splits option.splits)
qed

text \<open>A burst and a rate of the configuration: 32-bit integers of at least one.\<close>

lemma bucket_ok_fresh_nat:
  assumes "1 \<le> burst" and "1 \<le> rate" and "burst < 2 ^ 53" and "rate < 2 ^ 53"
  shows "bucket_ok (fresh_bucket now (f64_of_nat rate) (f64_of_nat burst))"
proof -
  have "(of_nat burst :: rat) < of_nat (2 ^ 53)"
    using assms(3) by (simp only: of_nat_less_iff)
  then show ?thesis
    using assms by (simp add: bucket_ok_def fresh_bucket_def f64_of_nat_exact rnd_of_nat)
qed

lemma bucket_ok_fresh:
  fixes burst rate :: u32
  assumes "0 < burst" and "0 < rate"
  shows "bucket_ok (fresh_bucket now (f64_of_nat (unat rate)) (f64_of_nat (unat burst)))"
proof (rule bucket_ok_fresh_nat)
  have small: "unat w < 2 ^ 53" for w :: u32
    using unat_lt_pow [of w] by simp
  show "unat burst < 2 ^ 53" "unat rate < 2 ^ 53" by (rule small)+
  show "1 \<le> unat burst" "1 \<le> unat rate"
    using assms by (simp_all add: unat_gt_0 word_gt_0 Suc_leI)
qed

lemma limiter_ok_allow:
  assumes "limiter_ok rl" and "bucket_ok (fresh_bucket now rate burst)"
    and "allow rl now ip label rate burst = (res, rl')"
  shows "limiter_ok rl'"
proof -
  have "bucket_ok b'" if "bucket_allow (lim_ban_seconds rl) now
      (case lim_buckets rl key of None \<Rightarrow> fresh_bucket now rate burst | Some b \<Rightarrow> b) = (r, b')" for key r b'
    by (rule bucket_ok_allow [OF _ that])
      (use assms(1,2) in \<open>simp add: limiter_ok_def split: option.split\<close>)
  with assms(1,3) show ?thesis
    by (auto simp: allow_def Let_def limiter_ok_def split: if_splits prod.splits)
qed

section \<open>What the limiter admits\<close>

text \<open>
  One call takes at most what it adds: the tokens after it, plus one if it admits, exceed the
  tokens before it by no more than the refill of the elapsed time and one rounding.
\<close>

lemma as_secs_f64_upper:
  "as_secs_f64 d \<le> of_nat d / of_nat nanos_per_sec * (1 + f64_eps) ^ 2"
proof -
  let ?N = "of_nat nanos_per_sec :: rat" and ?e = "1 + f64_eps"
  let ?s = "of_nat (d div nanos_per_sec) :: rat" and ?n = "of_nat (d mod nanos_per_sec) :: rat"
  have N: "f64_of_nat nanos_per_sec = ?N" "0 < ?N"
    by (simp_all add: f64_of_nat_exact nanos_per_sec_def)
  have "d mod nanos_per_sec < nanos_per_sec" by (simp add: nanos_per_sec_def)
  moreover have "nanos_per_sec \<le> 2 ^ 53" by (simp add: nanos_per_sec_def)
  ultimately have n: "f64_of_nat (d mod nanos_per_sec) = ?n"
    by (intro f64_of_nat_exact) linarith
  have "rnd ?s \<le> ?s * ?e" by (rule rnd_upper) simp
  moreover have "rnd (?n / ?N) \<le> ?n / ?N * ?e" by (rule rnd_upper) (use N in simp)
  ultimately have sum: "rnd ?s + rnd (?n / ?N) \<le> (?s + ?n / ?N) * ?e"
    by (simp add: distrib_right)
  have "?s + ?n / ?N = (?s * ?N + ?n) / ?N"
    using N by (simp add: add_divide_distrib)
  also have "?s * ?N + ?n = of_nat (d div nanos_per_sec * nanos_per_sec + d mod nanos_per_sec)"
    by (simp only: of_nat_add of_nat_mult)
  finally have d: "?s + ?n / ?N = of_nat d / ?N" by (simp only: div_mult_mod_eq)
  have "as_secs_f64 d = rnd (rnd ?s + rnd (?n / ?N))"
    by (simp only: as_secs_f64_def f64_add_def f64_div_def n N(1)) (simp add: f64_of_nat_def)
  also have "\<dots> \<le> (rnd ?s + rnd (?n / ?N)) * ?e"
    using N by (intro rnd_upper add_nonneg_nonneg rnd_nonneg) simp_all
  also have "\<dots> \<le> (?s + ?n / ?N) * ?e * ?e"
    using sum f64_eps_pos by (intro mult_right_mono) simp_all
  finally show ?thesis by (simp add: d power2_eq_square mult.assoc)
qed

definition refill_bound :: "f64 \<Rightarrow> nat \<Rightarrow> rat" where
  "refill_bound rate d = of_nat d / of_nat nanos_per_sec * rate * (1 + f64_eps) ^ 3"

lemma refill_upper:
  assumes "1 \<le> rate"
  shows "f64_mul (as_secs_f64 d) rate \<le> refill_bound rate d"
proof -
  have "f64_mul (as_secs_f64 d) rate \<le> as_secs_f64 d * rate * (1 + f64_eps)"
    using assms unfolding f64_mul_def by (intro rnd_upper) (simp add: as_secs_f64_nonneg)
  also have "\<dots> \<le> of_nat d / of_nat nanos_per_sec * (1 + f64_eps) ^ 2 * rate * (1 + f64_eps)"
    using assms f64_eps_pos as_secs_f64_upper [of d] by (intro mult_right_mono) simp_all
  finally show ?thesis
    by (simp add: refill_bound_def power3_eq_cube power2_eq_square mult.assoc mult.left_commute)
qed

lemma refill_tokens_upper:
  assumes "bucket_ok b"
  shows "bk_tokens (refill now b)
    \<le> bk_tokens b + refill_bound (bk_rate b) (now - bk_last b) + bk_burst b * f64_eps"
proof -
  let ?inc = "f64_mul (as_secs_f64 (now - bk_last b)) (bk_rate b)"
  let ?x = "bk_tokens b + ?inc"
  have inc: "?inc \<le> refill_bound (bk_rate b) (now - bk_last b)"
    using assms by (intro refill_upper) (simp add: bucket_ok_def)
  have x: "0 \<le> ?x" and burst: "0 \<le> bk_burst b * f64_eps"
    using assms refill_inc_nonneg [of b "now - bk_last b"] f64_eps_pos by (simp_all add: bucket_ok_def)
  have "bk_tokens (refill now b) \<le> ?x + bk_burst b * f64_eps"
  proof (cases "?x \<le> bk_burst b")
    case True
    have "f64_add (bk_tokens b) ?inc \<le> ?x * (1 + f64_eps)"
      unfolding f64_add_def using x by (rule rnd_upper)
    also have "\<dots> = ?x + ?x * f64_eps" by (simp add: distrib_left)
    also have "\<dots> \<le> ?x + bk_burst b * f64_eps"
      using True f64_eps_pos by (simp add: mult_right_mono)
    finally show ?thesis by simp
  next
    case False
    then show ?thesis using burst by simp
  qed
  with inc show ?thesis by linarith
qed

lemma bucket_allow_step:
  assumes ok: "bucket_ok b" and now: "bk_last b \<le> now" and a: "bucket_allow ban now b = (res, b')"
  shows "bk_rate b' = bk_rate b \<and> bk_burst b' = bk_burst b \<and> bk_last b \<le> bk_last b' \<and> bk_last b' \<le> now
    \<and> bk_tokens b' + of_bool (res = Some True)
        \<le> bk_tokens b + refill_bound (bk_rate b) (bk_last b' - bk_last b) + bk_burst b * f64_eps
    \<and> (banned now b \<longrightarrow> b' = b \<and> res = Some False)
    \<and> (\<not> banned now b \<longrightarrow> bk_last b' = now \<and> bk_tokens b' + of_bool (res = Some True) \<le> bk_burst b)"
proof (cases "banned now b")
  case True
  have "0 \<le> bk_burst b * f64_eps" using ok f64_eps_pos by (simp add: bucket_ok_def)
  with True a now show ?thesis by (auto simp: bucket_allow_def refill_bound_def)
next
  case False
  let ?r = "refill now b"
  have le: "bk_tokens ?r \<le> bk_burst b" by simp
  note up = refill_tokens_upper [OF ok, of now]
  show ?thesis
  proof (cases "1 \<le> bk_tokens ?r")
    case True
    note take = bucket_ok_take(1) [OF bucket_ok_refill [OF ok] True]
    have "res = Some True" and b': "b' = ?r\<lparr>bk_tokens := f64_sub (bk_tokens ?r) 1\<rparr>"
      using a False True by (simp_all only: bucket_allow_def Let_def if_True if_False prod.inject)
    then show ?thesis
      using up le False now unfolding b' take by (simp del: refill_sel(5))
  next
    case less: False
    then have "res \<noteq> Some True" and b': "b' = ?r \<or> (\<exists>u. b' = ?r\<lparr>bk_ban_until := Some u\<rparr>)"
      using a False by (auto simp: bucket_allow_def Let_def simp del: refill_sel split: option.splits)
    then have "bk_tokens b' = bk_tokens ?r" "bk_last b' = now" "bk_rate b' = bk_rate b" "bk_burst b' = bk_burst b"
      by (auto simp del: refill_sel(5))
    then show ?thesis
      using up le False now \<open>res \<noteq> Some True\<close> by simp
  qed
qed

fun bucket_calls :: "u64 \<Rightarrow> instant list \<Rightarrow> bucket \<Rightarrow> bool option list \<times> bucket" where
  "bucket_calls ban [] b = ([], b)"
| "bucket_calls ban (now # ts) b =
     (case bucket_allow ban now b of (r, b') \<Rightarrow>
        (case bucket_calls ban ts b' of (rs, b'') \<Rightarrow> (r # rs, b'')))"

definition admitted :: "bool option list \<Rightarrow> nat" where
  "admitted rs = length (filter (\<lambda>r. r = Some True) rs)"

lemma admitted_simps [simp]:
  "admitted [] = 0"
  "admitted (r # rs) = of_bool (r = Some True) + admitted rs"
  by (simp_all add: admitted_def)

lemma refill_bound_add: "refill_bound rate (a + b) = refill_bound rate a + refill_bound rate b"
  by (simp add: refill_bound_def add_divide_distrib distrib_right)

lemma refill_bound_mono: "0 \<le> rate \<Longrightarrow> a \<le> b \<Longrightarrow> refill_bound rate a \<le> refill_bound rate b"
  using f64_eps_pos unfolding refill_bound_def
  by (intro mult_right_mono divide_right_mono) simp_all

lemma bucket_calls_potential:
  assumes "bucket_ok b" and "sorted (bk_last b # ts)" and "bucket_calls ban ts b = (rs, b')"
  shows "bk_last b \<le> bk_last b' \<and> bk_last b' \<le> last (bk_last b # ts) \<and> 0 \<le> bk_tokens b'
    \<and> bk_tokens b' + of_nat (admitted rs)
      \<le> bk_tokens b + refill_bound (bk_rate b) (bk_last b' - bk_last b)
        + of_nat (length ts) * (bk_burst b * f64_eps)"
  using assms
proof (induction ts arbitrary: b rs)
  case Nil
  then show ?case by (simp add: bucket_ok_def refill_bound_def)
next
  case (Cons now ts)
  obtain r b1 rs' where a: "bucket_allow ban now b = (r, b1)"
    and c: "bucket_calls ban ts b1 = (rs', b')" and rs: "rs = r # rs'"
    using Cons.prems(3) by (auto split: prod.splits)
  have now: "bk_last b \<le> now" using Cons.prems(2) by simp
  note s = bucket_allow_step [OF Cons.prems(1) now a]
  have ok1: "bucket_ok b1" using bucket_ok_allow [OF Cons.prems(1) a] .
  have "sorted (bk_last b1 # ts)" using s Cons.prems(2) by auto
  note ih = Cons.IH [OF ok1 this c]
  have "bk_last b1 \<le> last (bk_last b1 # ts)" "last (bk_last b1 # ts) \<le> last (now # ts)"
    using s \<open>sorted (bk_last b1 # ts)\<close> by auto
  moreover have "refill_bound (bk_rate b) (bk_last b' - bk_last b)
      = refill_bound (bk_rate b) (bk_last b1 - bk_last b) + refill_bound (bk_rate b) (bk_last b' - bk_last b1)"
    using s ih by (simp flip: refill_bound_add)
  ultimately show ?case
    using s ih by (auto simp: rs distrib_right)
qed

lemma bucket_calls_window:
  assumes "bucket_ok b" and "sorted (bk_last b # now # ts)" and "bucket_calls ban (now # ts) b = (rs, b')"
  shows "of_nat (admitted rs) \<le> bk_burst b + refill_bound (bk_rate b) (last (now # ts) - now)
        + of_nat (length ts) * (bk_burst b * f64_eps)"
  using assms
proof (induction ts arbitrary: b now rs)
  case Nil
  then obtain r where a: "bucket_allow ban now b = (r, b')" and rs: "rs = [r]"
    by (auto split: prod.splits)
  have "0 \<le> bk_tokens b'" "1 \<le> bk_burst b"
    using bucket_ok_allow [OF Nil.prems(1) a] Nil.prems(1) by (simp_all add: bucket_ok_def)
  then show ?case
    using bucket_allow_step [OF Nil.prems(1) _ a] Nil.prems(2) by (simp add: rs refill_bound_def)
next
  case (Cons t ts)
  obtain r b1 rs' where a: "bucket_allow ban now b = (r, b1)"
    and c: "bucket_calls ban (t # ts) b1 = (rs', b')" and rs: "rs = r # rs'"
    using Cons.prems(3) by (auto split: prod.splits)
  have now: "bk_last b \<le> now" and ts: "sorted (now # t # ts)" using Cons.prems(2) by simp_all
  note s = bucket_allow_step [OF Cons.prems(1) now a]
  have ok1: "bucket_ok b1" using bucket_ok_allow [OF Cons.prems(1) a] .
  have rate: "0 \<le> bk_rate b" and eps: "0 \<le> bk_burst b * f64_eps"
    using Cons.prems(1) f64_eps_pos by (simp_all add: bucket_ok_def)
  have l: "now \<le> t" "t \<le> last (t # ts)" using ts by auto
  show ?case
  proof (cases "banned now b")
    case True
    then have b1: "b1 = b" "r = Some False" using s by auto
    have "sorted (bk_last b # t # ts)" using Cons.prems(2) by simp
    then have "of_nat (admitted rs') \<le> bk_burst b + refill_bound (bk_rate b) (last (t # ts) - t)
        + of_nat (length ts) * (bk_burst b * f64_eps)"
      using Cons.IH [OF Cons.prems(1)] c unfolding b1 by blast
    moreover have "refill_bound (bk_rate b) (last (t # ts) - t) \<le> refill_bound (bk_rate b) (last (now # t # ts) - now)"
      using rate l by (intro refill_bound_mono) auto
    ultimately show ?thesis using eps b1 by (simp add: rs distrib_right)
  next
    case False
    then have f: "bk_last b1 = now" "bk_tokens b1 + of_bool (r = Some True) \<le> bk_burst b" using s by auto
    have "sorted (bk_last b1 # t # ts)" using f ts by simp
    note p = bucket_calls_potential [OF ok1 this c]
    have "refill_bound (bk_rate b) (bk_last b' - bk_last b1) \<le> refill_bound (bk_rate b) (last (now # t # ts) - now)"
      using rate p f by (intro refill_bound_mono) auto
    then show ?thesis using p f s by (simp add: rs)
  qed
qed

end
