(* ===== verification/Rate_Props.thy ===== *)
theory Rate_Props
  imports Rate_Limiter
begin

text \<open>
  What the rate limiter guarantees: the exact burst, the exact length of a ban, the bound on
  what a sequence of calls admits, and where a large ban makes it panic.
\<close>

section \<open>One bucket\<close>

definition entry_at :: "rate_limiter \<Rightarrow> instant \<Rightarrow> rate_key \<Rightarrow> f64 \<Rightarrow> f64 \<Rightarrow> bucket" where
  "entry_at rl now key rate burst =
     (case lim_buckets rl key of None \<Rightarrow> fresh_bucket now rate burst | Some b \<Rightarrow> b)"

lemma entry_at_sel [simp]:
  "lim_buckets rl key = None \<Longrightarrow> entry_at rl now key rate burst = fresh_bucket now rate burst"
  "lim_buckets rl key = Some b \<Longrightarrow> entry_at rl now key rate burst = b"
  by (simp_all add: entry_at_def)

lemma allow_bucket:
  assumes "lim_enabled rl"
    and "bucket_allow (lim_ban_seconds rl) now (entry_at rl now \<lparr>rk_ip = ip, rk_label = label\<rparr> rate burst) = (r, b)"
  shows "allow rl now ip label rate burst
    = (r, rl\<lparr>lim_buckets := (lim_buckets rl)(\<lparr>rk_ip = ip, rk_label = label\<rparr> \<mapsto> b)\<rparr>)"
  using assms by (simp add: allow_def Let_def entry_at_def)

lemma allow_banned:
  assumes "lim_buckets rl \<lparr>rk_ip = ip, rk_label = label\<rparr> = Some b" and "banned now b" and "lim_enabled rl"
  shows "allow rl now ip label rate burst = (Some False, rl)"
proof -
  have "allow rl now ip label rate burst
      = (Some False, rl\<lparr>lim_buckets := (lim_buckets rl)(\<lparr>rk_ip = ip, rk_label = label\<rparr> \<mapsto> b)\<rparr>)"
    using assms by (intro allow_bucket) (simp_all add: bucket_allow_def)
  then show ?thesis using assms(1) by (simp add: fun_upd_idem)
qed

lemma allow_calls_bucket_Some:
  assumes "lim_enabled rl" and "lim_buckets rl \<lparr>rk_ip = ip, rk_label = label\<rparr> = Some b"
    and "bucket_calls (lim_ban_seconds rl) ts b = (rs, b')"
  shows "allow_calls rl ts ip label rate burst
    = (rs, rl\<lparr>lim_buckets := (lim_buckets rl)(\<lparr>rk_ip = ip, rk_label = label\<rparr> \<mapsto> b')\<rparr>)"
  using assms
proof (induction ts arbitrary: rl b rs)
  case Nil
  then have "(lim_buckets rl)(\<lparr>rk_ip = ip, rk_label = label\<rparr> \<mapsto> b') = lim_buckets rl"
    by (auto simp: fun_upd_idem)
  with Nil show ?case by simp
next
  case (Cons now ts)
  obtain r b1 rs' where a: "bucket_allow (lim_ban_seconds rl) now b = (r, b1)"
    and c: "bucket_calls (lim_ban_seconds rl) ts b1 = (rs', b')" and rs: "rs = r # rs'"
    using Cons.prems(3) by (auto split: prod.splits)
  let ?rl = "rl\<lparr>lim_buckets := (lim_buckets rl)(\<lparr>rk_ip = ip, rk_label = label\<rparr> \<mapsto> b1)\<rparr>"
  have "allow rl now ip label rate burst = (r, ?rl)"
    using Cons.prems(1,2) a by (intro allow_bucket) simp_all
  moreover have "allow_calls ?rl ts ip label rate burst
      = (rs', ?rl\<lparr>lim_buckets := (lim_buckets ?rl)(\<lparr>rk_ip = ip, rk_label = label\<rparr> \<mapsto> b')\<rparr>)"
    using Cons.prems(1) c by (intro Cons.IH) simp_all
  ultimately show ?case by (auto simp: rs fun_eq_iff intro!: rate_limiter.equality)
qed

lemma allow_calls_bucket:
  assumes "lim_enabled rl"
    and "bucket_calls (lim_ban_seconds rl) (now # ts) (entry_at rl now \<lparr>rk_ip = ip, rk_label = label\<rparr> rate burst) = (rs, b')"
  shows "allow_calls rl (now # ts) ip label rate burst
    = (rs, rl\<lparr>lim_buckets := (lim_buckets rl)(\<lparr>rk_ip = ip, rk_label = label\<rparr> \<mapsto> b')\<rparr>)"
proof -
  let ?key = "\<lparr>rk_ip = ip, rk_label = label\<rparr>"
  obtain r b1 rs' where a: "bucket_allow (lim_ban_seconds rl) now (entry_at rl now ?key rate burst) = (r, b1)"
    and c: "bucket_calls (lim_ban_seconds rl) ts b1 = (rs', b')" and rs: "rs = r # rs'"
    using assms(2) by (auto split: prod.splits)
  let ?rl = "rl\<lparr>lim_buckets := (lim_buckets rl)(?key \<mapsto> b1)\<rparr>"
  have "allow_calls ?rl ts ip label rate burst
      = (rs', ?rl\<lparr>lim_buckets := (lim_buckets ?rl)(?key \<mapsto> b')\<rparr>)"
    using assms(1) c by (intro allow_calls_bucket_Some) simp_all
  then show ?thesis
    using allow_bucket [OF assms(1) a] by (simp add: rs)
qed

lemma allow_calls_fresh:
  assumes "lim_enabled rl" and "lim_buckets rl \<lparr>rk_ip = ip, rk_label = label\<rparr> = None"
  shows "fst (allow_calls rl (now # ts) ip label rate burst)
    = fst (bucket_calls (lim_ban_seconds rl) (now # ts) (fresh_bucket now rate burst))"
proof -
  obtain rs b' where "bucket_calls (lim_ban_seconds rl) (now # ts)
      (entry_at rl now \<lparr>rk_ip = ip, rk_label = label\<rparr> rate burst) = (rs, b')" by fastforce
  from allow_calls_bucket [OF assms(1) this] this show ?thesis by (simp only: entry_at_sel(1) [OF assms(2)] fst_conv)
qed

section \<open>Calls at one instant\<close>

text \<open>No time passes, so nothing is refilled: every call takes one token while there is one.\<close>

lemma refill_same_tokens: "bucket_ok b \<Longrightarrow> bk_last b = now \<Longrightarrow> bk_tokens (refill now b) = bk_tokens b"
  by (simp add: f64_mul_def f64_add_def bucket_ok_def)

lemma bucket_calls_burst:
  assumes "bucket_ok b" and "bk_last b = now" and "bk_ban_until b = None" and "bk_tokens b = of_nat k"
    and "n \<le> k"
  shows "bucket_calls ban (replicate n now) b = (replicate n (Some True), b\<lparr>bk_tokens := of_nat (k - n)\<rparr>)"
  using assms
proof (induction n arbitrary: b k)
  case (Suc n)
  let ?b = "b\<lparr>bk_tokens := of_nat (k - 1)\<rparr>"
  have r: "refill now b = b"
    using refill_same_tokens [OF Suc.prems(1,2)] Suc.prems(2,3)
    by (simp add: refill_def Let_def)
  have "(of_nat 1 :: rat) \<le> of_nat k"
    using Suc.prems(5) by (simp only: of_nat_le_iff)
  then have one: "1 \<le> bk_tokens b" using Suc.prems(4) by simp
  have sub: "f64_sub (bk_tokens b) 1 = of_nat (k - 1)"
    using bucket_ok_take(1) [OF Suc.prems(1) one] Suc.prems(4,5) by (simp add: of_nat_diff)
  have a: "bucket_allow ban now b = (Some True, ?b)"
    using one sub Suc.prems(3) by (simp add: bucket_allow_def banned_def r)
  have "bucket_ok ?b" using bucket_ok_take(2) [OF Suc.prems(1) one] sub by simp
  then have "bucket_calls ban (replicate n now) ?b
      = (replicate n (Some True), ?b\<lparr>bk_tokens := of_nat (k - 1 - n)\<rparr>)"
    using Suc.prems by (intro Suc.IH) simp_all
  with a show ?case by simp
qed simp

lemma bucket_allow_empty:
  assumes "bucket_ok b" and "bk_last b = now" and "bk_tokens b < 1" and "\<not> banned now b"
  shows "bucket_allow ban now b =
    (case instant_add now ban of None \<Rightarrow> (None, b\<lparr>bk_ban_until := None\<rparr>)
     | Some until \<Rightarrow> (Some False, b\<lparr>bk_ban_until := Some until\<rparr>))"
proof -
  have "refill now b = b\<lparr>bk_ban_until := None\<rparr>"
    using refill_same_tokens [OF assms(1,2)] assms(2) by (simp add: refill_def Let_def)
  with assms(3,4) show ?thesis
    by (simp add: bucket_allow_def split: option.split)
qed

lemma bucket_calls_empty:
  assumes "bucket_ok b" and "bk_last b = now" and "bk_tokens b < 1"
    and "bk_ban_until b \<in> {None, instant_add now ban}" and "instant_add now ban = Some until"
  shows "fst (bucket_calls ban (replicate n now) b) = replicate n (Some False)"
  using assms
proof (induction n arbitrary: b)
  case (Suc n)
  show ?case
  proof (cases "banned now b")
    case True
    then show ?thesis
      using Suc.IH [OF Suc.prems] by (auto simp: bucket_allow_def split: prod.split)
  next
    case False
    let ?b = "b\<lparr>bk_ban_until := Some until\<rparr>"
    have "bucket_ok ?b" using Suc.prems(1) by (simp add: bucket_ok_def)
    then have "fst (bucket_calls ban (replicate n now) ?b) = replicate n (Some False)"
      using Suc.prems by (intro Suc.IH) simp_all
    then show ?thesis
      using bucket_allow_empty [OF Suc.prems(1-3) False, of ban] Suc.prems(5)
      by (auto split: prod.split)
  qed
qed simp

lemma bucket_calls_append:
  "bucket_calls ban (ts @ us) b =
     (case bucket_calls ban ts b of (rs, b') \<Rightarrow> (case bucket_calls ban us b' of (rs', b'') \<Rightarrow> (rs @ rs', b'')))"
  by (induction ts arbitrary: b) (simp_all split: prod.splits)

section \<open>Properties\<close>

lemma fresh_sel [simp]:
  "bk_last (fresh_bucket now rate burst) = now" "bk_tokens (fresh_bucket now rate burst) = burst"
  "bk_ban_until (fresh_bucket now rate burst) = None"
  by (simp_all add: fresh_bucket_def)

lemma unat_pos: "0 < w \<Longrightarrow> 1 \<le> unat w" for w :: "'a::len word"
  by (simp add: unat_gt_0 word_gt_0 Suc_leI)

lemma unat_u32_small: "unat w < 2 ^ 53" for w :: u32
  using unat_lt_pow [of w] by simp

text \<open>
  The burst is exact. A client that has not been seen before and sends \<open>n\<close> requests at
  one instant gets the first \<open>burst\<close> of them admitted and all others refused.
\<close>

theorem burst_exact:
  fixes rate burst :: u32
  assumes "lim_enabled rl" and "lim_buckets rl \<lparr>rk_ip = ip, rk_label = label\<rparr> = None"
    and "0 < rate" and "0 < burst" and "instant_add now (lim_ban_seconds rl) \<noteq> None"
  shows "fst (allow_calls rl (replicate n now) ip label (f64_of_nat (unat rate)) (f64_of_nat (unat burst)))
    = map (\<lambda>i. Some (i < unat burst)) [0..<n]"
proof (cases n)
  case (Suc m)
  define k where "k = unat burst"
  let ?b = "fresh_bucket now (f64_of_nat (unat rate)) (f64_of_nat k)"
  let ?ban = "lim_ban_seconds rl"
  have ok: "bucket_ok ?b" unfolding k_def by (rule bucket_ok_fresh [OF assms(4,3)])
  have k: "f64_of_nat k = of_nat k"
    using unat_u32_small [of burst] by (simp add: k_def f64_of_nat_exact)
  have "fst (bucket_calls ?ban (replicate n now) ?b) = map (\<lambda>i. Some (i < k)) [0..<n]"
  proof (cases "n \<le> k")
    case True
    then have "map (\<lambda>i. Some (i < k)) [0..<n] = replicate n (Some True)"
      by (intro replicate_eqI) auto
    then show ?thesis
      using bucket_calls_burst [OF ok _ _ _ True, of now ?ban] by (simp add: k)
  next
    case False
    let ?drained = "?b\<lparr>bk_tokens := of_nat (k - k)\<rparr>"
    have full: "bucket_calls ?ban (replicate k now) ?b = (replicate k (Some True), ?drained)"
      by (rule bucket_calls_burst [OF ok _ _ _ le_refl]) (simp_all add: k)
    obtain until where "instant_add now ?ban = Some until" using assms(5) by blast
    moreover have "bucket_ok ?drained" using ok by (simp add: bucket_ok_def)
    ultimately have "fst (bucket_calls ?ban (replicate (n - k) now) ?drained) = replicate (n - k) (Some False)"
      by (intro bucket_calls_empty) simp_all
    moreover have "replicate n now = replicate k now @ replicate (n - k) now"
      using False by (simp flip: replicate_add)
    ultimately have "fst (bucket_calls ?ban (replicate n now) ?b) = replicate k (Some True) @ replicate (n - k) (Some False)"
      using full by (auto simp: bucket_calls_append split: prod.split)
    also have "\<dots> = map (\<lambda>i. Some (i < k)) [0..<n]"
      using False by (intro nth_equalityI) (auto simp: nth_append)
    finally show ?thesis .
  qed
  then show ?thesis
    unfolding Suc k_def replicate_Suc allow_calls_fresh [OF assms(1,2)] .
qed simp

theorem burst_exact_witness:
  "fst (allow_calls (limiter_new True 300) (replicate 3 5) (V4 0) ''push'' (f64_of_nat (unat (10 :: u32))) (f64_of_nat (unat (2 :: u32))))
    = [Some True, Some True, Some False]"
  using burst_exact [of "limiter_new True 300" "V4 0" "''push''" 10 2 5 3]
  by (simp add: limiter_new_def instant_add_def nanos_per_sec_def upt_rec)

text \<open>
  C25. Over any window the limiter admits no more than the configured rate allows: of the calls
  at the instants of a sorted list, at most \<open>burst + rate * seconds\<close>, up to the rounding of
  the floating point operations (a relative \<open>2 ^ -53\<close> for each of three operations on the
  refill, and \<open>burst * 2 ^ -53\<close> for each call).
\<close>

theorem rate_bound:
  assumes "lim_enabled rl" and "bucket_ok (entry_at rl now \<lparr>rk_ip = ip, rk_label = label\<rparr> rate burst)"
    and "bk_last (entry_at rl now \<lparr>rk_ip = ip, rk_label = label\<rparr> rate burst) \<le> now"
    and "bk_rate (entry_at rl now \<lparr>rk_ip = ip, rk_label = label\<rparr> rate burst) = rate"
    and "bk_burst (entry_at rl now \<lparr>rk_ip = ip, rk_label = label\<rparr> rate burst) = burst"
    and "sorted (now # ts)"
  shows "of_nat (admitted (fst (allow_calls rl (now # ts) ip label rate burst)))
    \<le> burst + of_nat (last (now # ts) - now) / of_nat nanos_per_sec * rate * (1 + 1 / 2 ^ 53) ^ 3
      + of_nat (length ts) * (burst * (1 / 2 ^ 53))"
proof -
  let ?b = "entry_at rl now \<lparr>rk_ip = ip, rk_label = label\<rparr> rate burst"
  obtain rs b' where c: "bucket_calls (lim_ban_seconds rl) (now # ts) ?b = (rs, b')" by fastforce
  have "sorted (bk_last ?b # now # ts)" using assms(3,6) by auto
  from bucket_calls_window [OF assms(2) this c] allow_calls_bucket [OF assms(1) c]
  show ?thesis by (simp only: fst_conv refill_bound_def f64_eps_def assms(4,5))
qed

theorem rate_bound_witness:
  "admitted (fst (allow_calls (limiter_new True 0) [0, 100000000, 200000000] (V4 0) ''push'' 1 1)) \<le> 1"
proof -
  have "bucket_ok (fresh_bucket 0 1 1)" using bucket_ok_fresh [of 1 1 0] by (simp add: f64_of_nat_def)
  then have "(of_nat (admitted (fst (allow_calls (limiter_new True 0) [0, 100000000, 200000000] (V4 0) ''push'' 1 1))) :: rat)
      \<le> 1 + of_nat 200000000 / of_nat nanos_per_sec * 1 * (1 + 1 / 2 ^ 53) ^ 3 + of_nat 2 * (1 * (1 / 2 ^ 53))"
    using rate_bound [of "limiter_new True 0" 0 "V4 0" "''push''" 1 1 "[100000000, 200000000]"]
    by (simp add: limiter_new_def fresh_bucket_def)
  also have "\<dots> < of_nat 2" by (simp add: nanos_per_sec_def power3_eq_cube)
  finally show ?thesis by (simp only: of_nat_less_iff)
qed

text \<open>
  C26. A ban lasts exactly as long as configured. When a call is refused for want of tokens at
  \<open>now\<close>, a call at any later \<open>t\<close> is refused, and changes nothing, as long as \<open>t\<close> is less
  than \<open>ban_seconds\<close> away. From then on it is admitted, when \<open>ban_seconds\<close> is positive; when it is
  zero there is no ban, and the call is admitted exactly when a token has come in by \<open>t\<close>.
\<close>

theorem ban_exact:
  assumes "lim_enabled rl" and "lim_buckets rl \<lparr>rk_ip = ip, rk_label = label\<rparr> = Some b" and "bucket_ok b"
    and "\<not> banned now b" and "allow rl now ip label rate burst = (Some False, rl1)"
  shows "if t < now + unat (lim_ban_seconds rl) * nanos_per_sec
    then allow rl1 t ip label rate burst = (Some False, rl1)
    else fst (allow rl1 t ip label rate burst) = Some True
      \<longleftrightarrow> lim_ban_seconds rl \<noteq> 0 \<or> 1 \<le> bk_tokens (refill t (refill now b))"
proof -
  let ?key = "\<lparr>rk_ip = ip, rk_label = label\<rparr>" and ?ban = "lim_ban_seconds rl"
  obtain b1 where a: "bucket_allow ?ban now b = (Some False, b1)"
    and rl1: "rl1 = rl\<lparr>lim_buckets := (lim_buckets rl)(?key \<mapsto> b1)\<rparr>"
    using assms(1,2,5) by (auto simp: allow_def Let_def split: prod.splits)
  have ok1: "bucket_ok b1" using bucket_ok_allow [OF assms(3) a] .
  have until: "bk_ban_until b1 = Some (now + unat ?ban * nanos_per_sec)" and last: "bk_last b1 = now"
    using a assms(4)
    by (auto simp: bucket_allow_def Let_def instant_add_def simp del: refill_sel(5) split: if_splits option.splits)
  show ?thesis
  proof (cases "t < now + unat ?ban * nanos_per_sec")
    case True
    then have "bucket_allow ?ban t b1 = (Some False, b1)"
      by (simp add: bucket_allow_def banned_def until)
    then have "allow rl1 t ip label rate burst = (Some False, rl1)"
      using assms(1) by (simp add: allow_def Let_def rl1 fun_upd_upd)
    with True show ?thesis by simp
  next
    case False
    have refilled: "refill t b1 = refill t (refill now b)"
      using a assms(4) by (auto simp: bucket_allow_def Let_def refill_def split: if_splits option.splits)
    have "1 \<le> bk_tokens (refill t b1)" if "?ban \<noteq> 0"
    proof -
      have "0 < ?ban" using that by (simp add: word_gt_0)
      then have "nanos_per_sec \<le> unat ?ban * nanos_per_sec" using unat_pos [of ?ban] by simp
      then have "nanos_per_sec \<le> t - bk_last b1" using False last by linarith
      then have secs: "1 \<le> as_secs_f64 (t - bk_last b1)" by (rule as_secs_f64_ge_one)
      have "1 * 1 \<le> as_secs_f64 (t - bk_last b1) * bk_rate b1"
        using secs ok1 by (intro mult_mono) (simp_all add: bucket_ok_def)
      then have "rnd 1 \<le> f64_mul (as_secs_f64 (t - bk_last b1)) (bk_rate b1)"
        unfolding f64_mul_def by (intro rnd_mono) simp_all
      then have "rnd 1 \<le> f64_add (bk_tokens b1) (f64_mul (as_secs_f64 (t - bk_last b1)) (bk_rate b1))"
        unfolding f64_add_def using ok1 by (intro rnd_mono) (simp_all add: bucket_ok_def)
      then show ?thesis using ok1 by (simp add: bucket_ok_def)
    qed
    moreover have "fst (bucket_allow ?ban t b1) = Some True \<longleftrightarrow> 1 \<le> bk_tokens (refill t b1)"
      using False by (simp add: bucket_allow_def Let_def banned_def until del: refill_sel(5) split: option.split)
    moreover have "fst (allow rl1 t ip label rate burst) = fst (bucket_allow ?ban t b1)"
      using assms(1) by (auto simp: allow_def Let_def rl1 split: prod.split prod.split_asm)
    ultimately show ?thesis using False refilled by (metis (full_types))
  qed
qed

text \<open>A limiter with one empty bucket, and what a call at the same instant makes of it.\<close>

definition sample_empty :: bucket where
  "sample_empty = (fresh_bucket 0 1 1)\<lparr>bk_tokens := 0\<rparr>"

definition sample_limiter :: "bucket \<Rightarrow> rate_limiter" where
  "sample_limiter b = (limiter_new True 300)\<lparr>lim_buckets := [\<lparr>rk_ip = V4 0, rk_label = ''push''\<rparr> \<mapsto> b]\<rparr>"

lemma sample_empty_ok: "bucket_ok sample_empty"
  using bucket_ok_fresh [of 1 1 0] by (simp add: f64_of_nat_def sample_empty_def bucket_ok_def fresh_bucket_def)

theorem ban_exact_witness:
  "(let rl1 = sample_limiter (sample_empty\<lparr>bk_ban_until := Some 300000000000\<rparr>) in
    allow rl1 299999999999 (V4 0) ''push'' 1 1 = (Some False, rl1)
    \<and> fst (allow rl1 300000000000 (V4 0) ''push'' 1 1) = Some True)"
proof -
  let ?rl1 = "sample_limiter (sample_empty\<lparr>bk_ban_until := Some 300000000000\<rparr>)"
  have "bucket_allow 300 0 sample_empty = (Some False, sample_empty\<lparr>bk_ban_until := Some 300000000000\<rparr>)"
    by (subst bucket_allow_empty [OF sample_empty_ok])
      (simp_all add: sample_empty_def banned_def instant_add_def nanos_per_sec_def)
  then have call: "allow (sample_limiter sample_empty) 0 (V4 0) ''push'' 1 1 = (Some False, ?rl1)"
    by (simp add: allow_def sample_limiter_def limiter_new_def)
  note ban = ban_exact [OF _ _ sample_empty_ok _ call]
  have "allow ?rl1 299999999999 (V4 0) ''push'' 1 1 = (Some False, ?rl1)"
    using ban [of 299999999999]
    by (simp add: sample_limiter_def limiter_new_def banned_def sample_empty_def fresh_bucket_def nanos_per_sec_def)
  moreover have "fst (allow ?rl1 300000000000 (V4 0) ''push'' 1 1) = Some True"
    using ban [of 300000000000]
    by (simp add: sample_limiter_def limiter_new_def banned_def sample_empty_def fresh_bucket_def nanos_per_sec_def)
  ultimately show ?thesis by (simp add: Let_def)
qed

text \<open>
  Clients and endpoints are isolated: a call for one address and label leaves the bucket of
  every other address or label as it was, and keeps every bucket between zero and its burst.
\<close>

theorem allow_isolated:
  fixes rate burst :: u32
  assumes "limiter_ok rl" and "0 < rate" and "0 < burst"
    and "allow rl now ip label (f64_of_nat (unat rate)) (f64_of_nat (unat burst)) = (res, rl')"
  shows "limiter_ok rl' \<and> (\<forall>key. key \<noteq> \<lparr>rk_ip = ip, rk_label = label\<rparr> \<longrightarrow>
    lim_buckets rl' key = lim_buckets rl key)"
proof
  show "limiter_ok rl'" by (rule limiter_ok_allow [OF assms(1) bucket_ok_fresh [OF assms(3,2)] assms(4)])
  show "\<forall>key. key \<noteq> \<lparr>rk_ip = ip, rk_label = label\<rparr> \<longrightarrow> lim_buckets rl' key = lim_buckets rl key"
    using assms(4) by (auto simp: allow_def Let_def split: if_splits prod.splits)
qed

theorem allow_isolated_witness:
  "limiter_ok (snd (allow (limiter_new True 300) 5 (V4 0) ''push'' (f64_of_nat (unat (10 :: u32))) (f64_of_nat (unat (2 :: u32)))))"
  using allow_isolated [of "limiter_new True 300" 10 2 5 "V4 0" "''push''"
      "fst (allow (limiter_new True 300) 5 (V4 0) ''push'' (f64_of_nat (unat (10 :: u32))) (f64_of_nat (unat (2 :: u32))))"
      "snd (allow (limiter_new True 300) 5 (V4 0) ''push'' (f64_of_nat (unat (10 :: u32))) (f64_of_nat (unat (2 :: u32))))"]
  by simp

text \<open>
  C36. A ban that the clock cannot represent turns refusals into panics: with \<open>ban_seconds\<close> of
  \<open>2 ^ 63\<close> or more, which validation accepts, the request after the burst does not answer
  \<open>RateLimited\<close>; the addition of the ban to the clock overflows.
\<close>

theorem ban_overflow_panics:
  fixes rate burst :: u32
  assumes "lim_enabled rl" and "lim_buckets rl \<lparr>rk_ip = ip, rk_label = label\<rparr> = None"
    and "0 < rate" and "0 < burst" and "2 ^ 63 \<le> unat (lim_ban_seconds rl)"
  shows "fst (allow_calls rl (replicate (unat burst + 1) now) ip label (f64_of_nat (unat rate)) (f64_of_nat (unat burst)))
    = replicate (unat burst) (Some True) @ [None]"
proof -
  define k where "k = unat burst"
  let ?b = "fresh_bucket now (f64_of_nat (unat rate)) (f64_of_nat k)"
  let ?ban = "lim_ban_seconds rl"
  have ok: "bucket_ok ?b" unfolding k_def by (rule bucket_ok_fresh [OF assms(4,3)])
  have k: "f64_of_nat k = of_nat k"
    using unat_u32_small [of burst] by (simp add: k_def f64_of_nat_exact)
  let ?drained = "?b\<lparr>bk_tokens := of_nat (k - k)\<rparr>"
  have full: "bucket_calls ?ban (replicate k now) ?b = (replicate k (Some True), ?drained)"
    by (rule bucket_calls_burst [OF ok _ _ _ le_refl]) (simp_all add: k)
  have "bucket_ok ?drained" using ok by (simp add: bucket_ok_def)
  then have "fst (bucket_allow ?ban now ?drained) = None"
    using assms(5) by (subst bucket_allow_empty) (simp_all add: banned_def instant_add_def)
  then have "fst (bucket_calls ?ban (replicate k now @ [now]) ?b) = replicate k (Some True) @ [None]"
    using full by (auto simp: bucket_calls_append split: prod.split prod.split_asm)
  then have calls: "fst (bucket_calls ?ban (now # replicate k now) ?b) = replicate k (Some True) @ [None]"
    by (simp flip: replicate_append_same)
  have "replicate (unat burst + 1) now = now # replicate k now" by (simp add: k_def)
  then show ?thesis
    using calls by (simp only: allow_calls_fresh [OF assms(1,2)] k_def)
qed

theorem ban_overflow_panics_witness:
  "fst (allow_calls (limiter_new True u64_max) (replicate (unat (1 :: u32) + 1) 5) (V4 0) ''push''
      (f64_of_nat (unat (10 :: u32))) (f64_of_nat (unat (1 :: u32)))) = [Some True, None]"
  using ban_overflow_panics [of "limiter_new True u64_max" "V4 0" "''push''" 10 1 5]
  by (simp add: limiter_new_def unat_max_word)

end
