(* ===== verification/Server.thy ===== *)
theory Server
  imports Rate_Props Relay_Store
begin

text \<open>
  \<open>src/server.rs\<close> and \<open>src/ttl.rs\<close>: the state the HTTP handlers share, the handlers
  themselves with their guards in the code's order, and the garbage collector's loop. The
  store is a parameter \<open>D\<close>, a record of the trait's operations. A handler returns \<open>None\<close> when
  it panics, otherwise its result, and in each case the state it leaves. Handlers of
  concurrent requests share only the store, the limiter and the counters, each behind a lock
  or atomic, and a handler calls the store once.
\<close>

section \<open>State and requests\<close>

record 's app_state =
  as_store :: 's
  as_config :: relay_config
  as_limiter :: rate_limiter
  as_started :: instant
  as_metrics :: relay_metrics

text \<open>
  What a handler reads from outside: the peer's address and port, the monotonic clock at the
  two calls of the limiter and in \<open>stats\<close>, and the system clock in nanoseconds relative to
  the epoch.
\<close>

record request_env =
  env_peer :: "(ip_addr \<times> 16 word) option"
  env_now1 :: instant
  env_now2 :: instant
  env_system :: int

text \<open>\<open>now_millis\<close>: zero before the epoch, and \<open>as u64\<close> truncates.\<close>

definition now_millis :: "int \<Rightarrow> u64" where
  "now_millis t = (if 0 \<le> t then word_of_nat (nat t div 1000000) else 0)"

definition localhost :: ip_addr where
  "localhost = V4 2130706433"

definition peer_ip :: "request_env \<Rightarrow> ip_addr" where
  "peer_ip env = (case env_peer env of Some (ip, port) \<Rightarrow> ip | None \<Rightarrow> localhost)"

text \<open>Sequencing: the \<open>?\<close> operator on handler steps, where \<open>None\<close> is a panic.\<close>

type_synonym ('a, 's) outcome = "'a result option \<times> 's"

definition and_then :: "('a, 's) outcome \<Rightarrow> ('a \<Rightarrow> 's \<Rightarrow> ('b, 's) outcome) \<Rightarrow> ('b, 's) outcome" where
  "and_then r f =
     (case r of
        (None, s) \<Rightarrow> (None, s)
      | (Some (Inl e), s) \<Rightarrow> (Some (Inl e), s)
      | (Some (Inr x), s) \<Rightarrow> f x s)"

lemma and_then_simps [simp]:
  "and_then (None, s) f = (None, s)"
  "and_then (Some (Inl e), s) f = (Some (Inl e), s)"
  "and_then (Some (Inr x), s) f = f x s"
  by (simp_all add: and_then_def)

definition count :: "features \<Rightarrow> (relay_metrics \<Rightarrow> relay_metrics) \<Rightarrow> 's app_state \<Rightarrow> 's app_state" where
  "count F f st = st\<lparr>as_metrics := metered F f (as_metrics st)\<rparr>"

text \<open>A call of a store operation: its result, and the state with the store it leaves.\<close>

definition on_store :: "('s \<Rightarrow> 'a result \<times> 's) \<Rightarrow> 's app_state \<Rightarrow> ('a, 's app_state) outcome" where
  "on_store f st = (case f (as_store st) of (r, s') \<Rightarrow> (Some r, st\<lparr>as_store := s'\<rparr>))"

section \<open>Rate limiting\<close>

definition endpoint_rps :: "rate_limit_config \<Rightarrow> string \<Rightarrow> u32" where
  "endpoint_rps cfg label =
     (if label = ''push'' then push_rps (rl_endpoints cfg)
      else if label = ''pull'' then pull_rps (rl_endpoints cfg)
      else if label = ''ack'' then ack_rps (rl_endpoints cfg)
      else per_ip_rps cfg)"

text \<open>Both buckets are charged, also when the first one refuses.\<close>

definition enforce_rate ::
  "features \<Rightarrow> request_env \<Rightarrow> string \<Rightarrow> 's app_state \<Rightarrow> (unit, 's app_state) outcome" where
  "enforce_rate F env label st =
     (if \<not> lim_enabled (as_limiter st) then (Some (Inr ()), st)
      else
        let cfg = cfg_rate_limit (as_config st);
            ip = peer_ip env;
            burst = f64_of_nat (unat (rl_burst cfg))
        in (case allow (as_limiter st) (env_now1 env) ip ''global'' (f64_of_nat (unat (per_ip_rps cfg))) burst of
              (None, l1) \<Rightarrow> (None, st\<lparr>as_limiter := l1\<rparr>)
            | (Some global_ok, l1) \<Rightarrow>
                (case allow l1 (env_now2 env) ip label (f64_of_nat (unat (endpoint_rps cfg label))) burst of
                   (None, l2) \<Rightarrow> (None, st\<lparr>as_limiter := l2\<rparr>)
                 | (Some endpoint_ok, l2) \<Rightarrow>
                     if global_ok \<and> endpoint_ok then (Some (Inr ()), st\<lparr>as_limiter := l2\<rparr>)
                     else (Some (Inl RateLimited),
                       count F (\<lambda>m. m\<lparr>m_rate_limited := m_rate_limited m + 1\<rparr>) (st\<lparr>as_limiter := l2\<rparr>)))))"

section \<open>Push\<close>

definition build_inbound_message ::
  "'x externals_scheme \<Rightarrow> push_request \<Rightarrow> relay_limits \<Rightarrow> u64 \<Rightarrow> inbound_message result" where
  "build_inbound_message E body limits now =
     (if str_trim (pq_recipient body) = [] then Inl (InvalidInput ''recipient required'')
      else if mm_chunk_count (pq_meta body) = 0 then Inl (InvalidInput ''chunk_count must be positive'')
      else if mm_chunk_count (pq_meta body) \<le> mm_chunk_index (pq_meta body)
        then Inl (InvalidInput ''chunk_index out of range'')
      else if str_trim (mm_kind (pq_meta body)) = [] then Inl (InvalidInput ''kind required'')
      else
        res_bind (ok_or (InvalidInput ''invalid base64'') (b64_decode E (pq_ciphertext_b64 body))) (\<lambda>decoded.
        let payload_bytes = word_of_nat (length decoded) in
        if max_message_bytes limits < payload_bytes then Inl (InvalidInput ''message too large'')
        else
          let arrival_ms = now;
              ttl_ms = sat_mul (message_ttl_seconds limits) 1000;
              deadline_ms = sat_add arrival_ms ttl_ms
          in Inr \<lparr>im_recipient = pq_recipient body, im_message_id = pq_message_id body,
                 im_ciphertext_b64 = pq_ciphertext_b64 body, im_meta = pq_meta body,
                 im_payload_bytes = payload_bytes, im_arrival_ms = arrival_ms,
                 im_deadline_ms = deadline_ms\<rparr>))"

definition push_handler ::
  "features \<Rightarrow> 'x externals_scheme \<Rightarrow> 's store_ops \<Rightarrow> request_env \<Rightarrow> push_request \<Rightarrow> 's app_state
     \<Rightarrow> (push_response, 's app_state) outcome" where
  "push_handler F E D env body st =
     and_then (enforce_rate F env ''push'' st) (\<lambda>_ st1.
     let st2 = count F (\<lambda>m. m\<lparr>m_push_total := m_push_total m + 1\<rparr>) st1;
         limits = cfg_relay (as_config st2) in
     and_then (Some (build_inbound_message E body limits (now_millis (env_system env))), st2) (\<lambda>msg st3.
     and_then (on_store (\<lambda>s. op_push D s msg limits) st3) (\<lambda>result st4.
     let st5 = (if ps_stored result then count F (\<lambda>m. m\<lparr>m_push_stored := m_push_stored m + 1\<rparr>) st4 else st4);
         st6 = (if ps_duplicate result then count F (\<lambda>m. m\<lparr>m_duplicates := m_duplicates m + 1\<rparr>) st5 else st5)
     in (Some (Inr \<lparr>pp_stored = ps_stored result, pp_duplicate = ps_duplicate result,
                   pp_queue_len = Some (ps_queue_len result),
                   pp_queue_bytes = Some (ps_queue_bytes result)\<rparr>), st6))))"

section \<open>Pull\<close>

definition to_delivery :: "queue_message \<Rightarrow> delivery_item" where
  "to_delivery msg =
     \<lparr>di_recipient = qm_recipient msg, di_message_id = qm_message_id msg,
      di_ciphertext_b64 = qm_ciphertext_b64 msg, di_meta = qm_meta msg,
      di_arrival_ms = qm_arrival_ms msg, di_deadline_ms = qm_deadline_ms msg\<rparr>"

definition pull_handler ::
  "features \<Rightarrow> 's store_ops \<Rightarrow> request_env \<Rightarrow> pull_request \<Rightarrow> 's app_state
     \<Rightarrow> (pull_response, 's app_state) outcome" where
  "pull_handler F D env body st =
     and_then (enforce_rate F env ''pull'' st) (\<lambda>_ st1.
     let st2 = count F (\<lambda>m. m\<lparr>m_pull_total := m_pull_total m + 1\<rparr>) st1 in
     if str_trim (lq_recipient body) = [] then (Some (Inl (InvalidInput ''recipient required'')), st2)
     else
       let max_n = opt_or (pull_batch_max (cfg_relay (as_config st2))) (lq_max body) in
       if max_n = 0 then (Some (Inl (InvalidInput ''max must be positive'')), st2)
       else
         let clamped = min max_n (pull_batch_max (cfg_relay (as_config st2))) in
         and_then (on_store (\<lambda>s. op_pull D s (lq_recipient body) (lq_cursor body) clamped
             (now_millis (env_system env))) st2) (\<lambda>batch st3.
         (Some (Inr \<lparr>lp_items = map to_delivery (pb_items batch), lp_next_cursor = pb_next_cursor batch,
                   lp_remaining_estimate = pb_remaining_estimate batch\<rparr>), st3)))"

section \<open>Acknowledge\<close>

definition to_ack_item :: "ack_entry \<Rightarrow> ack_item" where
  "to_ack_item entry = \<lparr>ai_message_id = ae_message_id entry, ai_chunk_index = ae_chunk_index entry\<rparr>"

definition ack_handler ::
  "features \<Rightarrow> 's store_ops \<Rightarrow> request_env \<Rightarrow> ack_request \<Rightarrow> 's app_state
     \<Rightarrow> (ack_response, 's app_state) outcome" where
  "ack_handler F D env body st =
     and_then (enforce_rate F env ''ack'' st) (\<lambda>_ st1.
     let st2 = count F (\<lambda>m. m\<lparr>m_ack_total := m_ack_total m + 1\<rparr>) st1 in
     if str_trim (aq_recipient body) = [] then (Some (Inl (InvalidInput ''recipient required'')), st2)
     else
       and_then (on_store (\<lambda>s. op_ack D s (aq_recipient body) (map to_ack_item (aq_ack body))) st2)
         (\<lambda>outcome st3.
         (Some (Inr \<lparr>ap_deleted = ao_deleted outcome, ap_missing = ao_missing outcome,
                   ap_remaining = ao_remaining outcome\<rparr>),
          count F (\<lambda>m. m\<lparr>m_ack_deleted := m_ack_deleted m + ao_deleted outcome\<rparr>) st3)))"

section \<open>Health and statistics\<close>

record health_response =
  hr_status :: string

definition health_handler :: "'s app_state \<Rightarrow> (health_response, 's app_state) outcome" where
  "health_handler st = (Some (Inr \<lparr>hr_status = ''ok''\<rparr>), st)"

record stats_response =
  sr_uptime_ms :: u64
  sr_metrics :: "metrics_snapshot option"

definition stats_handler :: "features \<Rightarrow> request_env \<Rightarrow> 's app_state \<Rightarrow> (stats_response, 's app_state) outcome" where
  "stats_handler F env st =
     (let uptime_ms = word_of_nat ((env_now1 env - as_started st) div 1000000) in
      if feat_metrics F
      then (Some (Inr \<lparr>sr_uptime_ms = uptime_ms, sr_metrics = Some (snapshot (as_metrics st))\<rparr>), st)
      else (Some (Inr \<lparr>sr_uptime_ms = uptime_ms, sr_metrics = None\<rparr>), st))"

text \<open>The five routes, and the answer: status 200 with a body, or the error's status and body.\<close>

datatype http_request =
    PostPush push_request
  | PostPull pull_request
  | PostAck ack_request
  | GetHealth
  | GetStats

datatype http_body =
    PushBody push_response
  | PullBody pull_response
  | AckBody ack_response
  | HealthBody health_response
  | StatsBody stats_response
  | ErrorBody error_response

type_synonym http_reply = "nat \<times> http_body"

definition reply_with :: "('a \<Rightarrow> http_body) \<Rightarrow> ('a, 's) outcome \<Rightarrow> http_reply option \<times> 's" where
  "reply_with body r =
     (case r of
        (None, s) \<Rightarrow> (None, s)
      | (Some (Inl e), s) \<Rightarrow> (Some (case error_reply e of (code, b) \<Rightarrow> (code, ErrorBody b)), s)
      | (Some (Inr x), s) \<Rightarrow> (Some (200, body x), s))"

fun serve ::
  "features \<Rightarrow> 'x externals_scheme \<Rightarrow> 's store_ops \<Rightarrow> request_env \<Rightarrow> http_request \<Rightarrow> 's app_state
     \<Rightarrow> http_reply option \<times> 's app_state" where
  "serve F E D env (PostPush body) st = reply_with PushBody (push_handler F E D env body st)"
| "serve F E D env (PostPull body) st = reply_with PullBody (pull_handler F D env body st)"
| "serve F E D env (PostAck body) st = reply_with AckBody (ack_handler F D env body st)"
| "serve F E D env GetHealth st = reply_with HealthBody (health_handler st)"
| "serve F E D env GetStats st = reply_with StatsBody (stats_handler F env st)"

lemma reply_health [simp]: "reply_with body (health_handler st) = (Some (200, body \<lparr>hr_status = ''ok''\<rparr>), st)"
  by (simp add: reply_with_def health_handler_def)

section \<open>Garbage collection\<close>

text \<open>One turn of the loop: a purge, whose error is ignored and whose count is metered.\<close>

definition gc_tick :: "features \<Rightarrow> 's store_ops \<Rightarrow> int \<Rightarrow> 's app_state \<Rightarrow> 's app_state" where
  "gc_tick F D system st =
     (case op_purge D (as_store st) (now_millis system) 1024 of
        (result, s') \<Rightarrow>
          let st' = st\<lparr>as_store := s'\<rparr> in
          (case result of
             Inr removed \<Rightarrow>
               if 0 < removed then count F (\<lambda>m. m\<lparr>m_gc_removed := m_gc_removed m + word_of_nat removed\<rparr>) st'
               else st'
           | Inl _ \<Rightarrow> st'))"

text \<open>The loop itself, on the events \<open>select!\<close> takes in turn; it ends at the shutdown.\<close>

datatype gc_event = Tick int | Shutdown

fun run_gc :: "features \<Rightarrow> 's store_ops \<Rightarrow> gc_event list \<Rightarrow> 's app_state \<Rightarrow> 's app_state" where
  "run_gc F D [] st = st"
| "run_gc F D (Tick system # es) st = run_gc F D es (gc_tick F D system st)"
| "run_gc F D (Shutdown # es) st = st"

section \<open>Start\<close>

text \<open>
  The state \<open>start_with_store\<close> builds once the configuration has passed validation; binding
  the listener comes after it (\<open>Launch\<close>), and so does spawning the tasks (\<open>Tasks\<close>).
\<close>

definition start_with_store ::
  "features \<Rightarrow> relay_config \<Rightarrow> instant \<Rightarrow> 's \<Rightarrow> 's app_state result" where
  "start_with_store F cfg now store =
     res_bind (validate F cfg) (\<lambda>_.
     Inr \<lparr>as_store = store, as_config = cfg,
          as_limiter = limiter_new (rl_enabled (cfg_rate_limit cfg)) (rl_ban_seconds (cfg_rate_limit cfg)),
          as_started = now, as_metrics = relay_metrics_default\<rparr>)"

text \<open>\<open>start\<close> opens the store before the configuration is validated.\<close>

definition start ::
  "features \<Rightarrow> relay_config \<Rightarrow> instant \<Rightarrow> 'm \<Rightarrow> (string \<Rightarrow> 'd result)
     \<Rightarrow> ('m app_state + 'd app_state) result" where
  "start F cfg now mem_store sled_open =
     (case sc_kind (cfg_storage cfg) of
        Memory \<Rightarrow> res_bind (start_with_store F cfg now mem_store) (\<lambda>st. Inr (Inl st))
      | Sled \<Rightarrow>
          if feat_persistence F then
            res_bind (sled_open (sc_path (cfg_storage cfg))) (\<lambda>store.
            res_bind (start_with_store F cfg now store) (\<lambda>st. Inr (Inr st)))
          else Inl (Disabled ''persistence feature not enabled''))"

end
