(* ===== verification/Server_Contract.thy ===== *)
theory Server_Contract
  imports Server Relay_Contract
begin

text \<open>
  The server on top of any store that satisfies the contract: a run of requests and garbage
  collections acts on the store as a sequence of its operations, so what the contract
  guarantees of reached states, of stored messages and of paging holds of the server. A client
  that pulls over HTTP page after page is \<open>http_drain\<close>.
\<close>

section \<open>Runs of the server\<close>

datatype server_event = Request request_env http_request | GcTurn int

fun server_step ::
  "features \<Rightarrow> 'x externals_scheme \<Rightarrow> 's store_ops \<Rightarrow> server_event \<Rightarrow> 's app_state \<Rightarrow> 's app_state" where
  "server_step F E D (Request env req) st = snd (serve F E D env req st)"
| "server_step F E D (GcTurn system) st = gc_tick F D system st"

fun server_run ::
  "features \<Rightarrow> 'x externals_scheme \<Rightarrow> 's store_ops \<Rightarrow> server_event list \<Rightarrow> 's app_state \<Rightarrow> 's app_state" where
  "server_run F E D [] st = st"
| "server_run F E D (e # es) st = server_run F E D es (server_step F E D e st)"

text \<open>Requests about recipients the text formats can carry, with bodies that fit memory.\<close>

fun step_ok :: "server_event \<Rightarrow> bool" where
  "step_ok (Request env (PostPush b)) = addressable (pq_recipient b)"
| "step_ok (Request env (PostPull b)) = addressable (lq_recipient b)"
| "step_ok (Request env (PostAck b)) = (addressable (aq_recipient b) \<and> length (aq_ack b) < 2 ^ 64)"
| "step_ok _ = True"

text \<open>
  Steps that leave the message of recipient \<open>r\<close> with this key and deadline alone: no
  acknowledgement of it, and no pull of \<open>r\<close> nor collection at or past its deadline.
\<close>

fun step_spares :: "string \<Rightarrow> dedup_key \<Rightarrow> u64 \<Rightarrow> server_event \<Rightarrow> bool" where
  "step_spares r key deadline (Request env (PostPull b)) =
     (lq_recipient b = r \<longrightarrow> now_millis (env_system env) < deadline)"
| "step_spares r key deadline (Request env (PostAck b)) =
     (aq_recipient b = r \<longrightarrow> key \<notin> ack_key ` set (map to_ack_item (aq_ack b)))"
| "step_spares r key deadline (GcTurn system) = (now_millis system < deadline)"
| "step_spares r key deadline _ = True"

section \<open>A request is at most one operation of the store\<close>

lemma count_sel [simp]:
  "as_store (count F f st) = as_store st" "as_config (count F f st) = as_config st"
  "as_limiter (count F f st) = as_limiter st" "as_started (count F f st) = as_started st"
  by (simp_all add: count_def)

lemma enforce_rate_frame:
  "enforce_rate F env label st = (r, st') \<Longrightarrow> as_store st' = as_store st \<and> as_config st' = as_config st"
  by (auto simp: enforce_rate_def Let_def split: if_splits prod.splits option.splits)

lemma enforce_rate_disabled:
  "\<not> lim_enabled (as_limiter st) \<Longrightarrow> enforce_rate F env label st = (Some (Inr ()), st)"
  by (simp add: enforce_rate_def)

text \<open>
  The relation between the states before and after a request: the configuration stays, and
  the store stays or takes one event.
\<close>

definition one_event :: "'s store_ops \<Rightarrow> (store_event \<Rightarrow> bool) \<Rightarrow> 's app_state \<Rightarrow> 's app_state \<Rightarrow> bool" where
  "one_event D P st st' \<longleftrightarrow>
     as_config st' = as_config st
     \<and> (as_store st' = as_store st
        \<or> (\<exists>e. P e \<and> as_store st' = event_state D (cfg_relay (as_config st)) e (as_store st)))"

lemma one_event_same: "as_store st' = as_store st \<Longrightarrow> as_config st' = as_config st \<Longrightarrow> one_event D P st st'"
  by (simp add: one_event_def)

lemma push_handler_event:
  assumes "push_handler F E D env body st = (out, st')"
  shows "one_event D (\<lambda>e. \<exists>m. e = EvPush m \<and> im_recipient m = pq_recipient body) st st'"
proof -
  obtain r st1 where rate: "enforce_rate F env ''push'' st = (r, st1)" by fastforce
  have st1: "as_store st1 = as_store st" "as_config st1 = as_config st"
    using enforce_rate_frame [OF rate] by simp_all
  show ?thesis
  proof (cases "\<exists>x. r = Some (Inr x)")
    case False
    then have "st' = st1"
      using assms rate by (auto simp: push_handler_def and_then_def split: option.splits sum.splits)
    then show ?thesis using st1 by (intro one_event_same) simp_all
  next
    case True
    let ?limits = "cfg_relay (as_config st)"
    show ?thesis
    proof (cases "build_inbound_message E body ?limits (now_millis (env_system env))")
      case (Inl e)
      then have "as_store st' = as_store st" "as_config st' = as_config st"
        using assms rate True st1 by (auto simp: push_handler_def Let_def)
      then show ?thesis by (rule one_event_same)
    next
      case (Inr m)
      obtain res s' where push: "op_push D (as_store st) m ?limits = (res, s')" by fastforce
      have "as_store st' = s'" "as_config st' = as_config st"
        using assms rate True st1 Inr push
        by (cases res; auto simp: push_handler_def Let_def on_store_def split: if_splits)+
      moreover have "im_recipient m = pq_recipient body"
        using Inr by (auto simp: build_inbound_message_def Let_def res_bind_Inr_iff split: if_splits)
      moreover have "event_state D ?limits (EvPush m) (as_store st) = s'" using push by simp
      ultimately show ?thesis unfolding one_event_def by metis
    qed
  qed
qed

lemma pull_handler_event:
  assumes "pull_handler F D env body st = (out, st')"
  shows "one_event D (\<lambda>e. \<exists>c n. e = EvPull (lq_recipient body) c n (now_millis (env_system env))) st st'"
proof -
  obtain r st1 where rate: "enforce_rate F env ''pull'' st = (r, st1)" by fastforce
  have st1: "as_store st1 = as_store st" "as_config st1 = as_config st"
    using enforce_rate_frame [OF rate] by simp_all
  let ?max = "opt_or (pull_batch_max (cfg_relay (as_config st))) (lq_max body)"
  let ?n = "min ?max (pull_batch_max (cfg_relay (as_config st)))"
  obtain res s' where pull: "op_pull D (as_store st) (lq_recipient body) (lq_cursor body) ?n
      (now_millis (env_system env)) = (res, s')" by fastforce
  show ?thesis
  proof (cases "(\<exists>x. r = Some (Inr x)) \<and> str_trim (lq_recipient body) \<noteq> [] \<and> ?max \<noteq> 0")
    case False
    then have "as_store st' = as_store st" "as_config st' = as_config st"
      using assms rate st1
      by (auto simp: pull_handler_def and_then_def Let_def split: option.splits sum.splits if_splits)
    then show ?thesis by (rule one_event_same)
  next
    case True
    then have "as_store st' = s'" "as_config st' = as_config st"
      using assms rate st1 pull
      by (cases res; auto simp: pull_handler_def Let_def on_store_def)+
    moreover have "event_state D (cfg_relay (as_config st))
        (EvPull (lq_recipient body) (lq_cursor body) ?n (now_millis (env_system env))) (as_store st) = s'"
      using pull by simp
    ultimately show ?thesis unfolding one_event_def by metis
  qed
qed

lemma ack_handler_event:
  assumes "ack_handler F D env body st = (out, st')"
  shows "one_event D (\<lambda>e. e = EvAck (aq_recipient body) (map to_ack_item (aq_ack body))) st st'"
proof -
  obtain r st1 where rate: "enforce_rate F env ''ack'' st = (r, st1)" by fastforce
  have st1: "as_store st1 = as_store st" "as_config st1 = as_config st"
    using enforce_rate_frame [OF rate] by simp_all
  obtain res s' where ack: "op_ack D (as_store st) (aq_recipient body) (map to_ack_item (aq_ack body)) = (res, s')"
    by fastforce
  show ?thesis
  proof (cases "(\<exists>x. r = Some (Inr x)) \<and> str_trim (aq_recipient body) \<noteq> []")
    case False
    then have "as_store st' = as_store st" "as_config st' = as_config st"
      using assms rate st1
      by (auto simp: ack_handler_def and_then_def Let_def split: option.splits sum.splits if_splits)
    then show ?thesis by (rule one_event_same)
  next
    case True
    then have "as_store st' = s'" "as_config st' = as_config st"
      using assms rate st1 ack
      by (cases res; auto simp: ack_handler_def Let_def on_store_def)+
    moreover have "event_state D (cfg_relay (as_config st))
        (EvAck (aq_recipient body) (map to_ack_item (aq_ack body))) (as_store st) = s'"
      using ack by simp
    ultimately show ?thesis unfolding one_event_def by metis
  qed
qed

lemma reply_with_state [simp]: "snd (reply_with body r) = snd r"
  by (auto simp: reply_with_def split: prod.split option.split sum.split)

lemma one_event_mono:
  "one_event D P st st' \<Longrightarrow> (\<And>e. P e \<Longrightarrow> Q e) \<Longrightarrow> one_event D Q st st'"
  unfolding one_event_def by blast

text \<open>Any step of the server: what it does to the store spares what the step spares.\<close>

lemma server_step_event:
  assumes "step_ok e"
  shows "one_event D (\<lambda>x. event_ok x \<and>
      (\<forall>r m. step_spares r (msg_key m) (qm_deadline_ms m) e \<longrightarrow> spares r m x))
    st (server_step F E D e st)"
proof (cases e)
  case (GcTurn system)
  have "event_state D (cfg_relay (as_config st)) (EvPurge (now_millis system) 1024) (as_store st)
      = as_store (gc_tick F D system st)"
    by (simp add: gc_tick_def Let_def split: prod.split sum.split)
  moreover have "as_config (gc_tick F D system st) = as_config st"
    by (simp add: gc_tick_def Let_def split: prod.split sum.split)
  ultimately show ?thesis
    unfolding one_event_def GcTurn
    by (intro conjI disjI2 exI [of _ "EvPurge (now_millis system) 1024"]) (simp_all add: live_def)
next
  case (Request env req)
  show ?thesis
  proof (cases req)
    case (PostPush b)
    have "one_event D (\<lambda>x. \<exists>m. x = EvPush m \<and> im_recipient m = pq_recipient b) st (server_step F E D e st)"
      unfolding Request PostPush by (simp add: push_handler_event [OF prod.collapse [symmetric]])
    then show ?thesis by (rule one_event_mono) (use assms Request PostPush in auto)
  next
    case (PostPull b)
    have "one_event D (\<lambda>x. \<exists>c n. x = EvPull (lq_recipient b) c n (now_millis (env_system env))) st
        (server_step F E D e st)"
      unfolding Request PostPull by (simp add: pull_handler_event [OF prod.collapse [symmetric]])
    then show ?thesis
      by (rule one_event_mono) (use assms Request PostPull in \<open>auto simp: live_def\<close>)
  next
    case (PostAck b)
    have "one_event D (\<lambda>x. x = EvAck (aq_recipient b) (map to_ack_item (aq_ack b))) st (server_step F E D e st)"
      unfolding Request PostAck by (simp add: ack_handler_event [OF prod.collapse [symmetric]])
    then show ?thesis
      by (rule one_event_mono) (use assms Request PostAck in \<open>auto simp: acked_def\<close>)
  next
    case GetHealth
    then show ?thesis unfolding Request by (intro one_event_same) simp_all
  next
    case GetStats
    then show ?thesis
      unfolding Request by (intro one_event_same) (simp_all add: stats_handler_def Let_def)
  qed
qed

text \<open>A run of the server is a run of the store of at most the same length.\<close>

lemma server_run_events:
  assumes "\<forall>e\<in>set es. step_ok e"
  shows "\<exists>evs. length evs \<le> length es \<and> as_config (server_run F E D es st) = as_config st
    \<and> as_store (server_run F E D es st) = run_events D (cfg_relay (as_config st)) evs (as_store st)
    \<and> (\<forall>x\<in>set evs. event_ok x)
    \<and> (\<forall>r m. (\<forall>e\<in>set es. step_spares r (msg_key m) (qm_deadline_ms m) e) \<longrightarrow> (\<forall>x\<in>set evs. spares r m x))"
  using assms
proof (induction es arbitrary: st)
  case Nil
  then show ?case by (intro exI [of _ "[]"]) simp
next
  case (Cons e es)
  let ?st = "server_step F E D e st" and ?limits = "cfg_relay (as_config st)"
  have "one_event D (\<lambda>x. event_ok x \<and>
      (\<forall>r m. step_spares r (msg_key m) (qm_deadline_ms m) e \<longrightarrow> spares r m x)) st ?st"
    using Cons.prems by (intro server_step_event) simp
  then have cfg: "as_config ?st = as_config st"
    and ev: "as_store ?st = as_store st \<or> (\<exists>x. event_ok x
      \<and> (\<forall>r m. step_spares r (msg_key m) (qm_deadline_ms m) e \<longrightarrow> spares r m x)
      \<and> as_store ?st = event_state D ?limits x (as_store st))"
    unfolding one_event_def by auto
  obtain evs where evs: "length evs \<le> length es" "as_config (server_run F E D es ?st) = as_config ?st"
      "as_store (server_run F E D es ?st) = run_events D ?limits evs (as_store ?st)"
      "\<forall>x\<in>set evs. event_ok x"
      "\<forall>r m. (\<forall>e\<in>set es. step_spares r (msg_key m) (qm_deadline_ms m) e) \<longrightarrow> (\<forall>x\<in>set evs. spares r m x)"
    using Cons.IH [of ?st] Cons.prems cfg by auto
  from ev show ?case
  proof
    assume "as_store ?st = as_store st"
    then show ?thesis using evs cfg by (intro exI [of _ evs]) simp
  next
    assume "\<exists>x. event_ok x \<and> (\<forall>r m. step_spares r (msg_key m) (qm_deadline_ms m) e \<longrightarrow> spares r m x)
      \<and> as_store ?st = event_state D ?limits x (as_store st)"
    then obtain x where x: "event_ok x" "as_store ?st = event_state D ?limits x (as_store st)"
        "\<forall>r m. step_spares r (msg_key m) (qm_deadline_ms m) e \<longrightarrow> spares r m x" by blast
    then show ?thesis using evs cfg by (intro exI [of _ "x # evs"]) simp
  qed
qed

section \<open>Pulling over HTTP\<close>

text \<open>
  A client that posts pulls with the cursor of the last answer until there is none: the items
  of all pages and the state left, or \<open>None\<close> when a request fails or \<open>fuel\<close> requests were
  not enough.
\<close>

fun http_drain ::
  "features \<Rightarrow> 's store_ops \<Rightarrow> request_env \<Rightarrow> string \<Rightarrow> u64 option \<Rightarrow> nat \<Rightarrow> string option \<Rightarrow> 's app_state
     \<Rightarrow> (delivery_item list \<times> 's app_state) option" where
  "http_drain F D env r mx 0 cur st = None"
| "http_drain F D env r mx (Suc fuel) cur st =
     (case pull_handler F D env \<lparr>lq_recipient = r, lq_cursor = cur, lq_max = mx\<rparr> st of
        (Some (Inr resp), st') \<Rightarrow>
          (case lp_next_cursor resp of
             None \<Rightarrow> Some (lp_items resp, st')
           | Some c \<Rightarrow>
               map_option (\<lambda>(rest, t). (lp_items resp @ rest, t)) (http_drain F D env r mx fuel (Some c) st'))
      | _ \<Rightarrow> None)"

definition pull_max :: "relay_config \<Rightarrow> u64 option \<Rightarrow> u64" where
  "pull_max cfg mx = min (opt_or (pull_batch_max (cfg_relay cfg)) mx) (pull_batch_max (cfg_relay cfg))"

lemma pull_handler_open:
  assumes "\<not> lim_enabled (as_limiter st)" and "str_trim r \<noteq> []"
    and "opt_or (pull_batch_max (cfg_relay (as_config st))) mx \<noteq> 0"
    and "op_pull D (as_store st) r cur (pull_max (as_config st) mx) (now_millis (env_system env)) = (res, s')"
  shows "\<exists>st'. pull_handler F D env \<lparr>lq_recipient = r, lq_cursor = cur, lq_max = mx\<rparr> st
      = (Some (map_sum id (\<lambda>b. \<lparr>lp_items = map to_delivery (pb_items b), lp_next_cursor = pb_next_cursor b,
          lp_remaining_estimate = pb_remaining_estimate b\<rparr>) res), st')
    \<and> as_store st' = s' \<and> as_config st' = as_config st \<and> as_limiter st' = as_limiter st"
  using assms
  by (cases res) (simp_all add: pull_handler_def enforce_rate_disabled Let_def pull_max_def on_store_def)

lemma http_drain_store:
  assumes "\<not> lim_enabled (as_limiter st)" and "str_trim r \<noteq> []"
    and "opt_or (pull_batch_max (cfg_relay (as_config st))) mx \<noteq> 0"
    and "drain D r (pull_max (as_config st) mx) (now_millis (env_system env)) fuel cur (as_store st) = Some (items, s')"
  shows "\<exists>st'. http_drain F D env r mx fuel cur st = Some (map to_delivery items, st')"
  using assms
proof (induction fuel arbitrary: cur st items)
  case (Suc fuel)
  obtain res s1 where pull: "op_pull D (as_store st) r cur (pull_max (as_config st) mx)
      (now_millis (env_system env)) = (res, s1)" by fastforce
  obtain st1 where h: "pull_handler F D env \<lparr>lq_recipient = r, lq_cursor = cur, lq_max = mx\<rparr> st
      = (Some (map_sum id (\<lambda>b. \<lparr>lp_items = map to_delivery (pb_items b), lp_next_cursor = pb_next_cursor b,
          lp_remaining_estimate = pb_remaining_estimate b\<rparr>) res), st1)"
    and st1: "as_store st1 = s1" "as_config st1 = as_config st" "as_limiter st1 = as_limiter st"
    using pull_handler_open [OF Suc.prems(1-3) pull] by blast
  obtain b where b: "res = Inr b" using Suc.prems(4) pull by (cases res) auto
  show ?case
  proof (cases "pb_next_cursor b")
    case None
    then show ?thesis using Suc.prems(4) pull b h by simp
  next
    case (Some c)
    then obtain rest where d: "drain D r (pull_max (as_config st) mx) (now_millis (env_system env)) fuel (Some c) s1
        = Some (rest, s')" and items: "items = pb_items b @ rest"
      using Suc.prems(4) pull b by auto
    have "\<exists>st'. http_drain F D env r mx fuel (Some c) st1 = Some (map to_delivery rest, st')"
      using Suc.prems(1-3) d by (intro Suc.IH) (simp_all add: st1)
    then show ?thesis using Some b h items by auto
  qed
qed simp

text \<open>Conversely, with the limiter on or off: a client that came to the end drained the store.\<close>

lemma pull_handler_page:
  assumes "pull_handler F D env body st = (Some (Inr resp), st')"
  shows "\<exists>b. op_pull D (as_store st) (lq_recipient body) (lq_cursor body) (pull_max (as_config st) (lq_max body))
        (now_millis (env_system env)) = (Inr b, as_store st')
    \<and> lp_items resp = map to_delivery (pb_items b) \<and> lp_next_cursor resp = pb_next_cursor b \<and> as_config st' = as_config st
    \<and> opt_or (pull_batch_max (cfg_relay (as_config st))) (lq_max body) \<noteq> 0"
proof -
  obtain a st0 where rate: "enforce_rate F env ''pull'' st = (a, st0)" by fastforce
  note fr = enforce_rate_frame [OF rate]
  have a: "a = Some (Inr ())"
    using assms rate by (auto simp: pull_handler_def and_then_def split: option.splits sum.splits)
  obtain res s' where p: "op_pull D (as_store st) (lq_recipient body) (lq_cursor body) (pull_max (as_config st) (lq_max body))
      (now_millis (env_system env)) = (res, s')"
    by fastforce
  obtain b where res: "res = Inr b"
    using assms rate a fr p by (cases res) (auto simp: pull_handler_def Let_def on_store_def pull_max_def split: if_splits)
  show ?thesis
    using assms rate a fr p res by (auto simp: pull_handler_def Let_def on_store_def pull_max_def split: if_splits)
qed

lemma http_drain_drained:
  assumes "http_drain F D env r mx fuel cur st = Some (items, st')"
  shows "\<exists>ms s'. drain D r (pull_max (as_config st) mx) (now_millis (env_system env)) fuel cur (as_store st) = Some (ms, s')
    \<and> items = map to_delivery ms"
  using assms
proof (induction fuel arbitrary: cur st items)
  case (Suc fuel)
  obtain resp st1 where h: "pull_handler F D env \<lparr>lq_recipient = r, lq_cursor = cur, lq_max = mx\<rparr> st = (Some (Inr resp), st1)"
    using Suc.prems by (auto split: prod.splits option.splits sum.splits)
  from pull_handler_page [OF h] obtain b where
    b: "op_pull D (as_store st) r cur (pull_max (as_config st) mx) (now_millis (env_system env)) = (Inr b, as_store st1)"
      "lp_items resp = map to_delivery (pb_items b)" "lp_next_cursor resp = pb_next_cursor b" "as_config st1 = as_config st"
    by auto
  show ?case
  proof (cases "pb_next_cursor b")
    case None
    then show ?thesis using Suc.prems h b by simp
  next
    case (Some c)
    then obtain rest where "http_drain F D env r mx fuel (Some c) st1 = Some (rest, st')" "items = lp_items resp @ rest"
      using Suc.prems h b by auto
    with Suc.IH [OF this(1)] show ?thesis using Some b by auto
  qed
qed simp

lemma drain_unique:
  "drain D r limit now fuel cur s = Some x \<Longrightarrow> drain D r limit now fuel' cur s = Some y \<Longrightarrow> y = x"
proof (induction fuel arbitrary: fuel' cur s x y)
  case (Suc fuel)
  obtain k where k: "fuel' = Suc k" using Suc.prems(2) by (cases fuel') simp_all
  obtain res s' where p: "op_pull D s r cur limit now = (res, s')" by fastforce
  obtain b where b: "res = Inr b" using Suc.prems(1) p by (cases res) simp_all
  show ?case
  proof (cases "pb_next_cursor b")
    case None
    then show ?thesis using Suc.prems by (simp add: k p b)
  next
    case (Some c)
    then obtain u v where "drain D r limit now fuel (Some c) s' = Some u" "drain D r limit now k (Some c) s' = Some v"
        "x = (pb_items b @ fst u, snd u)" "y = (pb_items b @ fst v, snd v)"
      using Suc.prems by (auto simp: k p b)
    then show ?thesis using Suc.IH by blast
  qed
qed simp

section \<open>The server delivers what it stored\<close>

text \<open>What the body of a stored message is, and how an answer shows that it was stored.\<close>

lemma build_inbound_message_Inr:
  "build_inbound_message E body limits now = Inr m \<longleftrightarrow>
     str_trim (pq_recipient body) \<noteq> [] \<and> mm_chunk_index (pq_meta body) < mm_chunk_count (pq_meta body)
     \<and> str_trim (mm_kind (pq_meta body)) \<noteq> []
     \<and> (\<exists>d. b64_decode E (pq_ciphertext_b64 body) = Some d
        \<and> (word_of_nat (length d) :: u64) \<le> max_message_bytes limits
        \<and> m = \<lparr>im_recipient = pq_recipient body, im_message_id = pq_message_id body,
               im_ciphertext_b64 = pq_ciphertext_b64 body, im_meta = pq_meta body,
               im_payload_bytes = word_of_nat (length d), im_arrival_ms = now,
               im_deadline_ms = sat_add now (sat_mul (message_ttl_seconds limits) 1000)\<rparr>)"
proof -
  have "c \<noteq> 0 \<and> i < c \<longleftrightarrow> i < c" for i c :: u32
    by (cases "c = 0") simp_all
  then show ?thesis
    unfolding build_inbound_message_def guard_Inr_iff res_bind_Inr_iff Let_def
    by (cases "b64_decode E (pq_ciphertext_b64 body)") (auto simp: not_less not_le)
qed

lemma push_handler_stored:
  assumes "push_handler F E D env body st = (Some (Inr resp), st1)" and "pp_stored resp"
  shows "\<exists>m res. build_inbound_message E body (cfg_relay (as_config st)) (now_millis (env_system env)) = Inr m
    \<and> op_push D (as_store st) m (cfg_relay (as_config st)) = (Inr res, as_store st1) \<and> ps_stored res
    \<and> as_config st1 = as_config st"
proof -
  let ?limits = "cfg_relay (as_config st)"
  obtain r st0 where rate: "enforce_rate F env ''push'' st = (r, st0)" by fastforce
  note fr = enforce_rate_frame [OF rate]
  have r: "r = Some (Inr ())"
    using assms(1) rate by (auto simp: push_handler_def and_then_def split: option.splits sum.splits)
  obtain m where m: "build_inbound_message E body ?limits (now_millis (env_system env)) = Inr m"
    using assms(1) rate r fr
    by (cases "build_inbound_message E body ?limits (now_millis (env_system env))")
      (auto simp: push_handler_def Let_def)
  obtain res s' where p: "op_push D (as_store st) m ?limits = (res, s')" by fastforce
  obtain ps where res: "res = Inr ps"
    using assms(1) rate r fr m p by (cases res) (auto simp: push_handler_def Let_def on_store_def)
  have "ps_stored ps = pp_stored resp" "as_store st1 = s'" "as_config st1 = as_config st"
    using assms(1) rate r fr m p res
    by (auto simp: push_handler_def Let_def on_store_def split: if_splits)
  with m p res assms(2) show ?thesis by blast
qed

lemma start_with_store_sel:
  assumes "start_with_store F cfg t s = Inr st"
  shows "as_store st = s" "as_config st = cfg" "config_ok F cfg"
    "lim_enabled (as_limiter st) = rl_enabled (cfg_rate_limit cfg)"
  using assms by (auto simp: start_with_store_def res_bind_Inr_iff validate_Inr limiter_new_def)

text \<open>The limiter is switched on or off for good when the server starts.\<close>

lemma allow_enabled: "allow rl now ip label rate burst = (r, rl') \<Longrightarrow> lim_enabled rl' = lim_enabled rl"
  by (auto simp: allow_def Let_def split: if_splits prod.splits)

lemma enforce_rate_enabled:
  assumes "enforce_rate F env label st = (r, st')"
  shows "lim_enabled (as_limiter st') = lim_enabled (as_limiter st)"
  using assms
  by (auto simp: enforce_rate_def Let_def split: if_splits prod.splits option.splits dest!: allow_enabled)

abbreviation enabled :: "'s app_state \<Rightarrow> bool" where
  "enabled st \<equiv> lim_enabled (as_limiter st)"

lemma and_then_enabled:
  "(\<And>x s. enabled (snd (f x s)) = enabled s) \<Longrightarrow> enabled (snd (and_then r f)) = enabled (snd r)"
  by (auto simp: and_then_def split: prod.split option.split sum.split)

lemma enforce_rate_enabled_snd [simp]: "enabled (snd (enforce_rate F env label st)) = enabled st"
  by (rule enforce_rate_enabled [OF prod.collapse [symmetric]])

lemma on_store_enabled [simp]: "enabled (snd (on_store f st)) = enabled st"
  by (simp add: on_store_def split: prod.split)

lemma server_step_enabled: "enabled (server_step F E D e st) = enabled st"
proof (cases e)
  case (GcTurn system)
  then show ?thesis by (simp add: gc_tick_def Let_def split: prod.split sum.split)
next
  case (Request env req)
  then show ?thesis
    by (cases req)
      (auto simp: push_handler_def pull_handler_def ack_handler_def stats_handler_def Let_def and_then_enabled)
qed

lemma server_run_enabled: "lim_enabled (as_limiter (server_run F E D es st)) = lim_enabled (as_limiter st)"
  by (induction es arbitrary: st) (simp_all add: server_step_enabled)

context relay_service
begin

lemma server_reached:
  assumes "as_store st0 = init" and "\<forall>e\<in>set es. step_ok e"
  shows "\<exists>k\<le>length es. reached D (cfg_relay (as_config st0)) init k (as_store (server_run F E D es st0))
    \<and> as_config (server_run F E D es st0) = as_config st0"
proof -
  obtain evs where evs: "length evs \<le> length es" "as_config (server_run F E D es st0) = as_config st0"
      "as_store (server_run F E D es st0) = run_events D (cfg_relay (as_config st0)) evs init"
      "\<forall>x\<in>set evs. event_ok x"
    using server_run_events [OF assms(2), of F E D st0] assms(1) by metis
  have "reached D (cfg_relay (as_config st0)) init (0 + length evs)
      (run_events D (cfg_relay (as_config st0)) evs init)"
    by (rule reached_run [OF reached.start evs(4)])
  with evs show ?thesis by auto
qed

text \<open>
  A live message of the mailbox is among the items of a client that pulls all pages; with the
  limiter off no page is refused.
\<close>

lemma http_delivers:
  assumes "inv (as_store st)" and "m \<in> set (snd (box (as_store st) r))" and r: "addressable r" and "str_trim r \<noteq> []"
    and "0 < pull_batch_max (cfg_relay (as_config st))" and "mx \<noteq> Some 0"
    and live: "live (now_millis (env_system env)) m"
  shows "(\<forall>fuel items st'. http_drain F D env r mx fuel None st = Some (items, st') \<longrightarrow> to_delivery m \<in> set items)
    \<and> (\<not> enabled st \<longrightarrow> (\<exists>fuel items st'. http_drain F D env r mx fuel None st = Some (items, st')))"
proof -
  have limit: "0 < pull_max (as_config st) mx" and nz: "opt_or (pull_batch_max (cfg_relay (as_config st))) mx \<noteq> 0"
    using assms(5,6) by (cases mx; simp add: pull_max_def word_gt_0 min_def)+
  obtain items s' where d: "drain D r (pull_max (as_config st) mx) (now_millis (env_system env))
      (Suc (length (snd (box (as_store st) r)))) None (as_store st) = Some (items, s')" and m: "m \<in> set items"
    using drain_complete [OF assms(1) r limit, of "now_millis (env_system env)"] assms(2) live
    by (auto simp del: drain.simps)
  have "to_delivery m \<in> set ps" if "http_drain F D env r mx fuel None st = Some (ps, st')" for fuel ps st'
    using http_drain_drained [OF that] drain_unique [OF d] m by auto
  moreover have "\<exists>st'. http_drain F D env r mx (Suc (length (snd (box (as_store st) r)))) None st
      = Some (map to_delivery items, st')" if "\<not> enabled st"
    by (rule http_drain_store [OF that assms(4) nz d])
  ultimately show ?thesis by blast
qed

text \<open>
  A push that was answered \<open>stored\<close>: the message it put into the mailbox, and the state after
  it, from which a run of the server may go on.
\<close>

lemma push_handler_box:
  assumes "inv (as_store st)" and counters: "\<forall>q. addressable q \<longrightarrow> unat (fst (box (as_store st) q)) \<le> k" and "k + 1 < 2 ^ 64 - 1"
    and lim: "max_queue_bytes_per_user (cfg_relay (as_config st)) \<noteq> - 1" and r: "addressable (pq_recipient body)"
    and push: "push_handler F E D env body st = (Some (Inr resp), st1)" and "pp_stored resp"
  shows "\<exists>m. m \<in> set (snd (box (as_store st1) (pq_recipient body)))
    \<and> to_delivery m = \<lparr>di_recipient = pq_recipient body, di_message_id = pq_message_id body,
        di_ciphertext_b64 = pq_ciphertext_b64 body, di_meta = pq_meta body, di_arrival_ms = now_millis (env_system env),
        di_deadline_ms = sat_add (now_millis (env_system env)) (sat_mul (message_ttl_seconds (cfg_relay (as_config st))) 1000)\<rparr>
    \<and> inv (as_store st1) \<and> (\<forall>q. addressable q \<longrightarrow> unat (fst (box (as_store st1) q)) \<le> k + 1)
    \<and> as_config st1 = as_config st \<and> enabled st1 = enabled st \<and> str_trim (pq_recipient body) \<noteq> []"
proof -
  let ?limits = "cfg_relay (as_config st)"
  obtain m res where m: "build_inbound_message E body ?limits (now_millis (env_system env)) = Inr m"
    and op: "op_push D (as_store st) m ?limits = (Inr res, as_store st1)" and stored: "ps_stored res"
    and cfg: "as_config st1 = as_config st"
    using push_handler_stored [OF push assms(7)] by blast
  have msel: "im_recipient m = pq_recipient body" "im_message_id m = pq_message_id body"
      "im_ciphertext_b64 m = pq_ciphertext_b64 body" "im_meta m = pq_meta body" "im_arrival_ms m = now_millis (env_system env)"
      "im_deadline_ms m = sat_add (now_millis (env_system env)) (sat_mul (message_ttl_seconds ?limits) 1000)"
      and trim: "str_trim (pq_recipient body) \<noteq> []"
    using m by (auto simp: build_inbound_message_Inr)
  let ?m = "stored_message m (fst (box (as_store st) (im_recipient m)))"
  have room: "fst (box (as_store st) (im_recipient m)) \<noteq> - 1"
    using counters r assms(3) by (force simp: msel(1) unat_max_word)
  have r': "addressable (im_recipient m)" using r by (simp add: msel(1))
  have "?m \<in> set (snd (box (as_store st1) (im_recipient m)))"
    using stored_in_box_inv [OF assms(1) r' lim room op stored] .
  moreover have "inv (run_events D ?limits [EvPush m] (as_store st))
      \<and> (\<forall>q. addressable q \<longrightarrow> unat (fst (box (run_events D ?limits [EvPush m] (as_store st)) q)) \<le> k + length [EvPush m])"
    using run_from [OF assms(1) counters _ lim, of "[EvPush m]"] assms(3) r' by simp
  moreover have "enabled st1 = enabled st"
    using server_step_enabled [of F E D "Request env (PostPush body)" st] push by simp
  ultimately show ?thesis
    using op cfg trim by (intro exI [of _ ?m]) (simp add: to_delivery_def msel)
qed

text \<open>A run of the server that spares a message keeps it, under whatever configuration.\<close>

lemma server_run_from:
  assumes "inv (as_store st)" and "\<forall>q. addressable q \<longrightarrow> unat (fst (box (as_store st) q)) \<le> k"
    and "k + length es < 2 ^ 64 - 1" and lim: "max_queue_bytes_per_user (cfg_relay (as_config st)) \<noteq> - 1"
    and "\<forall>e\<in>set es. step_ok e"
  shows "inv (as_store (server_run F E D es st))
    \<and> (\<forall>q. addressable q \<longrightarrow> unat (fst (box (as_store (server_run F E D es st)) q)) \<le> k + length es)
    \<and> as_config (server_run F E D es st) = as_config st
    \<and> (\<forall>r m. addressable r \<longrightarrow> (\<forall>e\<in>set es. step_spares r (msg_key m) (qm_deadline_ms m) e) \<longrightarrow>
         m \<in> set (snd (box (as_store st) r)) \<longrightarrow> m \<in> set (snd (box (as_store (server_run F E D es st)) r)))"
proof -
  obtain evs where evs: "length evs \<le> length es" "as_config (server_run F E D es st) = as_config st"
      "as_store (server_run F E D es st) = run_events D (cfg_relay (as_config st)) evs (as_store st)"
      "\<forall>x\<in>set evs. event_ok x"
      "\<forall>r m. (\<forall>e\<in>set es. step_spares r (msg_key m) (qm_deadline_ms m) e) \<longrightarrow> (\<forall>x\<in>set evs. spares r m x)"
    using server_run_events [OF assms(5)] by blast
  have "k + length evs < 2 ^ 64 - 1" using evs(1) assms(3) by linarith
  from run_from [OF assms(1,2) this lim evs(4)] show ?thesis
    unfolding evs(2,3) using evs(1,5) by (meson add_le_mono le_refl le_trans)
qed

lemma server_delivers:
  assumes start: "start_with_store F cfg t init = Inr st0"
    and lim: "max_queue_bytes_per_user (cfg_relay cfg) \<noteq> - 1"
    and before: "\<forall>e\<in>set before. step_ok e" and st: "st = server_run F E D before st0"
    and push: "push_handler F E D env body st = (Some (Inr resp), st1)" and "pp_stored resp"
    and r: "addressable (pq_recipient body)"
    and deadline: "deadline = sat_add (now_millis (env_system env)) (sat_mul (message_ttl_seconds (cfg_relay cfg)) 1000)"
    and after: "\<forall>e\<in>set after. step_ok e \<and> step_spares (pq_recipient body)
      (pq_message_id body, mm_chunk_index (pq_meta body)) deadline e"
    and len: "length before + length after + 1 < 2 ^ 64 - 1"
    and now: "now_millis (env_system env') < deadline" and mx: "mx \<noteq> Some 0"
  shows "(\<forall>fuel items st3. http_drain F D env' (pq_recipient body) mx fuel None (server_run F E D after st1) = Some (items, st3)
      \<longrightarrow> \<lparr>di_recipient = pq_recipient body, di_message_id = pq_message_id body, di_ciphertext_b64 = pq_ciphertext_b64 body,
        di_meta = pq_meta body, di_arrival_ms = now_millis (env_system env), di_deadline_ms = deadline\<rparr> \<in> set items)
    \<and> (\<not> rl_enabled (cfg_rate_limit cfg) \<longrightarrow> (\<exists>fuel items st3.
        http_drain F D env' (pq_recipient body) mx fuel None (server_run F E D after st1) = Some (items, st3)))"
proof -
  note sel = start_with_store_sel [OF start]
  have st0: "inv (as_store st0)" "\<forall>q. addressable q \<longrightarrow> unat (fst (box (as_store st0) q)) \<le> 0"
    by (simp_all add: sel init_inv init_box)
  have cfg: "as_config st = cfg" and inv: "inv (as_store st)"
    and counters: "\<forall>q. addressable q \<longrightarrow> unat (fst (box (as_store st) q)) \<le> length before"
    using server_run_from [OF st0, of before] before len lim by (simp_all add: sel st)
  obtain m where m: "m \<in> set (snd (box (as_store st1) (pq_recipient body)))"
    and msel: "to_delivery m = \<lparr>di_recipient = pq_recipient body, di_message_id = pq_message_id body,
        di_ciphertext_b64 = pq_ciphertext_b64 body, di_meta = pq_meta body, di_arrival_ms = now_millis (env_system env),
        di_deadline_ms = deadline\<rparr>"
    and st1: "inv (as_store st1)" "\<forall>q. addressable q \<longrightarrow> unat (fst (box (as_store st1) q)) \<le> length before + 1"
      "as_config st1 = cfg" "enabled st1 = enabled st" "str_trim (pq_recipient body) \<noteq> []"
    using push_handler_box [OF inv counters _ _ r push assms(6)] len lim unfolding cfg deadline by auto
  have key: "msg_key m = (pq_message_id body, mm_chunk_index (pq_meta body))" "qm_deadline_ms m = deadline"
    using msel by (auto simp: to_delivery_def msg_key_def)
  have "inv (as_store (server_run F E D after st1)) \<and> as_config (server_run F E D after st1) = cfg \<and> m \<in> set (snd (box (as_store (server_run F E D after st1)) (pq_recipient body)))"
    using server_run_from [OF st1(1,2), of after] len lim after r m by (simp add: st1(3) key)
  moreover have "enabled (server_run F E D after st1) = rl_enabled (cfg_rate_limit cfg)"
    using sel(4) by (simp add: server_run_enabled st1(4) st)
  moreover have "0 < pull_batch_max (cfg_relay cfg)"
    using sel(3) by (simp add: config_ok_def positive_limits_def)
  ultimately show ?thesis
    using http_delivers [of "server_run F E D after st1" m "pq_recipient body" mx env' F] r st1(5) mx now key(2)
    by (simp add: live_def msel)
qed

end

end
