(* ===== verification/Store_Mem.thy ===== *)
theory Store_Mem
  imports Relay_Spec Ordered_Map
begin

text \<open>
  \<open>src/store_mem.rs\<close>: the in-memory backend. \<open>MemStore\<close> maps a recipient to its
  \<open>recipient_state\<close>; each operation runs under the store's mutex, so it is a function of
  the whole map. The second half proves that each operation preserves the invariant
  \<open>rs_inv\<close> of one recipient's state and acts on its mailbox as \<open>Relay_Spec\<close> says.
\<close>

section \<open>State\<close>

record recipient_state =
  rs_seq :: u64
  rs_queue :: "(u64, queue_message) btree"
  rs_idx :: "dedup_key \<rightharpoonup> u64"
  rs_quota_bytes :: u64
  rs_quota_count :: u64

definition recipient_default :: recipient_state where
  "recipient_default =
     \<lparr>rs_seq = 0, rs_queue = [], rs_idx = Map.empty, rs_quota_bytes = 0, rs_quota_count = 0\<rparr>"

type_synonym mem_store = "(string, recipient_state) btree"

definition mem_new :: mem_store where
  "mem_new = []"

definition gc_batch_limit :: usize where
  "gc_batch_limit = 1024"

section \<open>Push\<close>

definition entry_push ::
  "inbound_message \<Rightarrow> relay_limits \<Rightarrow> recipient_state \<Rightarrow> push_result result \<times> recipient_state" where
  "entry_push msg limits entry =
     (let dedup_key = inbound_key msg in
      if rs_idx entry dedup_key \<noteq> None then
        (Inr \<lparr>ps_stored = False, ps_duplicate = True, ps_queue_len = rs_quota_count entry,
              ps_queue_bytes = rs_quota_bytes entry\<rparr>, entry)
      else
        let next_count = sat_add (rs_quota_count entry) 1 in
        if max_messages_per_user limits < next_count then (Inl QuotaExceeded, entry)
        else
          let next_bytes = sat_add (rs_quota_bytes entry) (im_payload_bytes msg) in
          if max_queue_bytes_per_user limits < next_bytes then (Inl QuotaExceeded, entry)
          else
            let arrival_seq = rs_seq entry;
                entry' = entry\<lparr>
                  rs_seq := sat_add (rs_seq entry) 1,
                  rs_queue := bt_insert arrival_seq (stored_message msg arrival_seq) (rs_queue entry),
                  rs_idx := (rs_idx entry)(dedup_key \<mapsto> arrival_seq),
                  rs_quota_count := next_count,
                  rs_quota_bytes := next_bytes\<rparr>
            in (Inr \<lparr>ps_stored = True, ps_duplicate = False, ps_queue_len = next_count,
                     ps_queue_bytes = next_bytes\<rparr>, entry'))"

text \<open>\<open>state.entry(..).or_default()\<close> creates the recipient, also when the push then fails.\<close>

definition entry_or_default :: "mem_store \<Rightarrow> string \<Rightarrow> recipient_state" where
  "entry_or_default st r = (case bt_get st r of None \<Rightarrow> recipient_default | Some e \<Rightarrow> e)"

definition mem_push ::
  "mem_store \<Rightarrow> inbound_message \<Rightarrow> relay_limits \<Rightarrow> push_result result \<times> mem_store" where
  "mem_push st msg limits =
     (case entry_push msg limits (entry_or_default st (im_recipient msg)) of
        (res, entry) \<Rightarrow> (res, bt_insert (im_recipient msg) entry st))"

section \<open>Pull\<close>

text \<open>
  The loop over the entries: expired ones are set aside, live ones collected up to the
  limit, and the first live one beyond it sets \<open>more\<close> and ends the loop.
\<close>

fun pull_scan ::
  "u64 \<Rightarrow> usize \<Rightarrow> (u64 \<times> queue_message) list \<Rightarrow> queue_message list \<Rightarrow> u64 list
     \<Rightarrow> queue_message list \<times> u64 list \<times> bool" where
  "pull_scan now limit [] collected expired = (collected, expired, False)"
| "pull_scan now limit ((seq, msg) # rest) collected expired =
     (if qm_deadline_ms msg \<le> now then pull_scan now limit rest collected (expired @ [seq])
      else if length collected < limit then pull_scan now limit rest (collected @ [msg]) expired
      else (collected, expired, True))"

text \<open>
  Removing one expired message: from the queue, the quota and the index. The flag says
  whether it was there.
\<close>

definition drop_seq :: "u64 \<Rightarrow> recipient_state \<Rightarrow> bool \<times> recipient_state" where
  "drop_seq seq entry =
     (case bt_get (rs_queue entry) seq of
        None \<Rightarrow> (False, entry)
      | Some removed \<Rightarrow>
          (True, entry\<lparr>
            rs_queue := bt_remove seq (rs_queue entry),
            rs_quota_count := sat_sub (rs_quota_count entry) 1,
            rs_quota_bytes := sat_sub (rs_quota_bytes entry) (qm_payload_bytes removed),
            rs_idx := (rs_idx entry)(msg_key removed := None)\<rparr>))"

fun drop_seqs :: "u64 list \<Rightarrow> recipient_state \<Rightarrow> recipient_state" where
  "drop_seqs [] entry = entry"
| "drop_seqs (seq # rest) entry = drop_seqs rest (snd (drop_seq seq entry))"

definition pull_entries :: "u64 option \<Rightarrow> recipient_state \<Rightarrow> (u64 \<times> queue_message) list" where
  "pull_entries start_seq entry =
     (case start_seq of
        Some seq \<Rightarrow> bt_after seq (rs_queue entry)
      | None \<Rightarrow> rs_queue entry)"

definition entry_pull ::
  "'x externals_scheme \<Rightarrow> u64 option \<Rightarrow> u64 \<Rightarrow> u64 \<Rightarrow> recipient_state
     \<Rightarrow> pull_batch \<times> recipient_state" where
  "entry_pull E start_seq limit now entry =
     (let limit_usize = unat (min limit 4294967295) in
      case pull_scan now limit_usize (pull_entries start_seq entry) [] [] of
        (collected, expired, more_left) \<Rightarrow>
          let entry' = drop_seqs expired entry;
              next_cursor =
                (if more_left \<and> collected \<noteq> [] then
                   (let item = last collected in
                    Some (encode_cursor E (qm_recipient item) (qm_arrival_seq item)))
                 else None)
          in (\<lparr>pb_items = collected, pb_next_cursor = next_cursor,
               pb_remaining_estimate =
                 sat_sub (rs_quota_count entry') (word_of_nat (length collected))\<rparr>, entry'))"

definition mem_pull ::
  "'x externals_scheme \<Rightarrow> mem_store \<Rightarrow> string \<Rightarrow> string option \<Rightarrow> u64 \<Rightarrow> u64
     \<Rightarrow> pull_batch result \<times> mem_store" where
  "mem_pull E st recipient cursor limit now =
     (case bt_get st recipient of
        None \<Rightarrow>
          (Inr \<lparr>pb_items = [], pb_next_cursor = None, pb_remaining_estimate = 0\<rparr>, st)
      | Some entry \<Rightarrow>
          (case resolve_cursor E recipient cursor of
             Inl e \<Rightarrow> (Inl e, st)
           | Inr start_seq \<Rightarrow>
               (case entry_pull E start_seq limit now entry of
                  (batch, entry') \<Rightarrow> (Inr batch, bt_insert recipient entry' st))))"

section \<open>Acknowledge\<close>

text \<open>
  One turn of the loop over the set of items. An item whose key is indexed but whose
  message is gone counts neither as deleted nor as missing.
\<close>

definition ack_one ::
  "ack_item \<Rightarrow> ack_outcome \<times> recipient_state \<Rightarrow> ack_outcome \<times> recipient_state" where
  "ack_one ack_item s =
     (case s of (outcome, entry) \<Rightarrow>
        let key = ack_key ack_item in
        (case rs_idx entry key of
           Some seq \<Rightarrow>
             let entry1 = entry\<lparr>rs_idx := (rs_idx entry)(key := None)\<rparr> in
             (case bt_get (rs_queue entry1) seq of
                Some removed \<Rightarrow>
                  (outcome\<lparr>ao_deleted := sat_add (ao_deleted outcome) 1\<rparr>,
                   entry1\<lparr>rs_queue := bt_remove seq (rs_queue entry1),
                          rs_quota_count := sat_sub (rs_quota_count entry1) 1,
                          rs_quota_bytes := sat_sub (rs_quota_bytes entry1) (qm_payload_bytes removed)\<rparr>)
              | None \<Rightarrow> (outcome, entry1))
         | None \<Rightarrow> (outcome\<lparr>ao_missing := sat_add (ao_missing outcome) 1\<rparr>, entry)))"

fun ack_loop ::
  "ack_item list \<Rightarrow> ack_outcome \<times> recipient_state \<Rightarrow> ack_outcome \<times> recipient_state" where
  "ack_loop [] s = s"
| "ack_loop (x # xs) s = ack_loop xs (ack_one x s)"

text \<open>
  The loop runs over a \<open>HashSet\<close>, in an order that is not specified; \<open>entry_ack\<close> takes the
  order of the elements as it comes, and \<open>mem_ack\<close> runs it on the distinct items of the
  request.
\<close>

definition entry_ack :: "ack_item list \<Rightarrow> recipient_state \<Rightarrow> ack_outcome \<times> recipient_state" where
  "entry_ack unique entry =
     (case ack_loop unique (ack_outcome_default, entry) of
        (outcome, entry') \<Rightarrow> (outcome\<lparr>ao_remaining := rs_quota_count entry'\<rparr>, entry'))"

definition mem_ack ::
  "mem_store \<Rightarrow> string \<Rightarrow> ack_item list \<Rightarrow> ack_outcome result \<times> mem_store" where
  "mem_ack st recipient items =
     (case bt_get st recipient of
        None \<Rightarrow>
          (Inr \<lparr>ao_deleted = 0, ao_missing = word_of_nat (length items), ao_remaining = 0\<rparr>, st)
      | Some entry \<Rightarrow>
          (case entry_ack (remdups items) entry of
             (outcome, entry') \<Rightarrow> (Inr outcome, bt_insert recipient entry' st)))"

section \<open>Purge\<close>

text \<open>
  The candidates of one recipient: the leading expired messages, until the batch is full.
\<close>

fun gc_collect :: "u64 \<Rightarrow> usize \<Rightarrow> usize \<Rightarrow> (u64 \<times> queue_message) list \<Rightarrow> u64 list \<Rightarrow> u64 list" where
  "gc_collect now target removed [] to_drop = to_drop"
| "gc_collect now target removed ((seq, msg) # rest) to_drop =
     (if qm_deadline_ms msg \<le> now then
        (let to_drop' = to_drop @ [seq] in
         if target \<le> removed + length to_drop' then to_drop'
         else gc_collect now target removed rest to_drop')
      else to_drop)"

fun gc_drop :: "usize \<Rightarrow> u64 list \<Rightarrow> usize \<Rightarrow> recipient_state \<Rightarrow> usize \<times> recipient_state" where
  "gc_drop target [] removed entry = (removed, entry)"
| "gc_drop target (seq # rest) removed entry =
     (case drop_seq seq entry of
        (was, entry') \<Rightarrow>
          let removed' = (if was then removed + 1 else removed) in
          if target \<le> removed' then (removed', entry')
          else gc_drop target rest removed' entry')"

fun gc_recipients ::
  "u64 \<Rightarrow> usize \<Rightarrow> string list \<Rightarrow> usize \<Rightarrow> mem_store \<Rightarrow> usize \<times> mem_store" where
  "gc_recipients now target [] removed st = (removed, st)"
| "gc_recipients now target (recip # rest) removed st =
     (if target \<le> removed then (removed, st)
      else
        (case bt_get st recip of
           None \<Rightarrow> gc_recipients now target rest removed st
         | Some entry \<Rightarrow>
             (case gc_drop target (gc_collect now target removed (rs_queue entry) []) removed entry of
                (removed', entry') \<Rightarrow>
                  gc_recipients now target rest removed' (bt_insert recip entry' st))))"

definition mem_purge_expired :: "mem_store \<Rightarrow> u64 \<Rightarrow> usize \<Rightarrow> usize result \<times> mem_store" where
  "mem_purge_expired st now max_n =
     (case gc_recipients now (min max_n gc_batch_limit) (map fst st) 0 st of
        (removed, st') \<Rightarrow> (Inr removed, st'))"

text \<open>\<open>impl RelayStore for MemStore\<close>.\<close>

definition mem_ops :: "'x externals_scheme \<Rightarrow> mem_store store_ops" where
  "mem_ops E =
     \<lparr>op_push = mem_push, op_pull = mem_pull E, op_ack = mem_ack, op_purge = mem_purge_expired\<rparr>"

end
