(* ===== verification/Mem_Refine.thy ===== *)
theory Mem_Refine
  imports Store_Mem
begin

text \<open>
  Correctness of the in-memory backend: the invariant \<open>rs_inv\<close> of one recipient's state
  (queue, index and quota agree), its preservation by every operation, and the functional
  refinement of \<open>Relay_Spec\<close> through the abstraction \<open>rs_box\<close>.
\<close>

section \<open>Invariant and abstraction of a recipient's state\<close>

definition rs_inv :: "string \<Rightarrow> recipient_state \<Rightarrow> bool" where
  "rs_inv r e \<longleftrightarrow>
     bt_ok (rs_queue e)
     \<and> (\<forall>(k, m)\<in>set (rs_queue e). k < rs_seq e \<and> qm_arrival_seq m = k \<and> qm_recipient m = r)
     \<and> (\<forall>key s. rs_idx e key = Some s \<longleftrightarrow> (\<exists>m. (s, m) \<in> set (rs_queue e) \<and> msg_key m = key))
     \<and> unat (rs_quota_count e) = length (rs_queue e)
     \<and> unat (rs_quota_bytes e) = box_bytes (map snd (rs_queue e))"

definition rs_box :: "recipient_state \<Rightarrow> mailbox" where
  "rs_box e = (rs_seq e, map snd (rs_queue e))"

lemma rs_inv_default [simp]: "rs_inv r recipient_default"
  by (simp add: rs_inv_def recipient_default_def bt_ok_def)

lemma rs_box_default [simp]: "rs_box recipient_default = (0, [])"
  by (simp add: rs_box_def recipient_default_def)

lemma rs_invI:
  assumes "bt_ok (rs_queue e)"
    and "\<And>k m. (k, m) \<in> set (rs_queue e) \<Longrightarrow> k < rs_seq e \<and> qm_arrival_seq m = k \<and> qm_recipient m = r"
    and "\<And>key s. rs_idx e key = Some s \<longleftrightarrow> (\<exists>m. (s, m) \<in> set (rs_queue e) \<and> msg_key m = key)"
    and "unat (rs_quota_count e) = length (rs_queue e)"
    and "unat (rs_quota_bytes e) = box_bytes (map snd (rs_queue e))"
  shows "rs_inv r e"
  unfolding rs_inv_def using assms by blast

lemma rs_inv_entry:
  "rs_inv r e \<Longrightarrow> (k, m) \<in> set (rs_queue e) \<Longrightarrow> k < rs_seq e \<and> qm_arrival_seq m = k \<and> qm_recipient m = r"
  unfolding rs_inv_def by blast

lemma rs_inv_idx:
  "rs_inv r e \<Longrightarrow> rs_idx e key = Some s \<longleftrightarrow> (\<exists>m. (s, m) \<in> set (rs_queue e) \<and> msg_key m = key)"
  unfolding rs_inv_def by blast

lemma rs_inv_sorted: "rs_inv r e \<Longrightarrow> keys_sorted (rs_queue e)"
  by (simp add: rs_inv_def bt_ok_def)

lemma rs_inv_get: "rs_inv r e \<Longrightarrow> bt_get (rs_queue e) s = Some m \<longleftrightarrow> (s, m) \<in> set (rs_queue e)"
  by (simp add: bt_get_def map_of_keys_sorted rs_inv_sorted)

lemma rs_inv_unique:
  "rs_inv r e \<Longrightarrow> (s, m) \<in> set (rs_queue e) \<Longrightarrow> (s, m') \<in> set (rs_queue e) \<Longrightarrow> m = m'"
  by (metis rs_inv_get option.inject)

lemma rs_inv_key_unique:
  assumes "rs_inv r e" and "(s, m) \<in> set (rs_queue e)" and "(s', m') \<in> set (rs_queue e)"
    and "msg_key m = msg_key m'"
  shows "s = s' \<and> m = m'"
proof -
  have "rs_idx e (msg_key m) = Some s" "rs_idx e (msg_key m) = Some s'"
    using assms by (auto simp: rs_inv_idx)
  then have "s = s'" by simp
  with assms show ?thesis by (auto dest: rs_inv_unique)
qed

lemma rs_inv_idx_None:
  "rs_inv r e \<Longrightarrow> rs_idx e key = None \<longleftrightarrow> key \<notin> msg_key ` snd ` set (rs_queue e)"
  using rs_inv_idx [of r e key] by (cases "rs_idx e key") force+

lemma rs_inv_seqs: "rs_inv r e \<Longrightarrow> map qm_arrival_seq (map snd (rs_queue e)) = map fst (rs_queue e)"
  by (auto dest: rs_inv_entry)

lemma rs_inv_box_ok: "rs_inv r e \<Longrightarrow> box_ok r (rs_box e)"
proof -
  assume e: "rs_inv r e"
  have "sorted_wrt (<) (map qm_arrival_seq (snd (rs_box e)))"
    using rs_inv_sorted [OF e] by (simp only: rs_box_def snd_conv rs_inv_seqs [OF e])
  moreover have "distinct (map msg_key (snd (rs_box e)))"
  proof -
    have "distinct (rs_queue e)"
      using keys_sorted_distinct [OF rs_inv_sorted [OF e]] by (simp add: distinct_map)
    moreover have "inj_on (msg_key \<circ> snd) (set (rs_queue e))"
      using rs_inv_key_unique [OF e] by (force intro!: inj_onI)
    ultimately show ?thesis by (simp add: rs_box_def distinct_map)
  qed
  moreover have "box_bytes (snd (rs_box e)) < 2 ^ 64"
    using e unat_lt_pow [of "rs_quota_bytes e"] by (simp add: rs_inv_def rs_box_def)
  ultimately show ?thesis
    using e by (auto simp: box_ok_def rs_box_def dest: rs_inv_entry)
qed

lemma rs_inv_count: "rs_inv r e \<Longrightarrow> rs_quota_count e = word_of_nat (length (rs_queue e))"
  by (rule word_eq_of_unat) (simp add: rs_inv_def)

lemma rs_inv_bytes: "rs_inv r e \<Longrightarrow> rs_quota_bytes e = word_of_nat (box_bytes (map snd (rs_queue e)))"
  by (rule word_eq_of_unat) (simp add: rs_inv_def)

text \<open>A state of the invariant is determined by its mailbox.\<close>

lemma rs_inv_queue_box: "rs_inv r e \<Longrightarrow> rs_queue e = map (\<lambda>m. (qm_arrival_seq m, m)) (snd (rs_box e))"
  by (auto simp: rs_box_def comp_def intro!: map_idI [symmetric] dest: rs_inv_entry)

lemma rs_inv_box_unique:
  assumes "rs_inv r e1" and "rs_inv r e2" and "rs_box e1 = rs_box e2"
  shows "e1 = e2"
proof -
  have q: "rs_queue e1 = rs_queue e2"
    using rs_inv_queue_box [OF assms(1)] rs_inv_queue_box [OF assms(2)] assms(3) by simp
  have "rs_idx e1 key = rs_idx e2 key" for key
    using rs_inv_idx [OF assms(1), of key] rs_inv_idx [OF assms(2), of key] q
    by (metis not_None_eq)
  then have "rs_idx e1 = rs_idx e2" ..
  moreover have "rs_seq e1 = rs_seq e2" using assms(3) by (simp add: rs_box_def)
  moreover have "rs_quota_count e1 = rs_quota_count e2" "rs_quota_bytes e1 = rs_quota_bytes e2"
    using rs_inv_count rs_inv_bytes assms(1,2) q by (metis)+
  ultimately show ?thesis using q by simp
qed

lemma rs_inv_count_seq: "rs_inv r e \<Longrightarrow> unat (rs_quota_count e) \<le> unat (rs_seq e)"
  using box_ok_length [of r "rs_seq e" "map snd (rs_queue e)"] rs_inv_box_ok [of r e]
  by (simp add: rs_inv_def rs_box_def)

section \<open>Push\<close>

lemma entry_push_stored_inv:
  assumes e: "rs_inv r e" and r: "im_recipient msg = r" and new: "rs_idx e (inbound_key msg) = None"
    and seq: "rs_seq e \<noteq> - 1"
    and bytes: "unat (rs_quota_bytes e) + unat (im_payload_bytes msg) < 2 ^ 64"
  shows "rs_inv r (e\<lparr>rs_seq := sat_add (rs_seq e) 1,
      rs_queue := bt_insert (rs_seq e) (stored_message msg (rs_seq e)) (rs_queue e),
      rs_idx := (rs_idx e)(inbound_key msg \<mapsto> rs_seq e),
      rs_quota_count := sat_add (rs_quota_count e) 1,
      rs_quota_bytes := sat_add (rs_quota_bytes e) (im_payload_bytes msg)\<rparr>)"
    (is "rs_inv r ?e")
proof -
  let ?m = "stored_message msg (rs_seq e)"
  have lt: "fst p < rs_seq e" if "p \<in> set (rs_queue e)" for p
    using that rs_inv_entry [OF e, of "fst p" "snd p"] by simp
  have ok: "bt_ok (rs_queue e)" using e by (simp add: rs_inv_def)
  have q: "rs_queue ?e = rs_queue e @ [(rs_seq e, ?m)]"
    using bt.entries_insert_max [OF ok, of "rs_seq e"] lt by simp
  have s: "k < sat_add (rs_seq e) 1 \<longleftrightarrow> k \<le> rs_seq e" for k
    using sat_add_one [OF seq] by (simp add: word_less_nat_alt word_le_nat_alt less_Suc_eq_le)
  have "unat (rs_quota_count e) + 1 < 2 ^ 64"
    using rs_inv_count_seq [OF e] unat_not_max [OF seq] by simp
  then have c: "unat (sat_add (rs_quota_count e) 1) = length (rs_queue e) + 1"
    using e by (simp add: sat_simps rs_inv_def)
  have b: "unat (sat_add (rs_quota_bytes e) (im_payload_bytes msg))
      = box_bytes (map snd (rs_queue e)) + unat (im_payload_bytes msg)"
    using bytes e by (simp add: sat_simps rs_inv_def)
  show ?thesis
  proof (rule rs_invI)
    show "bt_ok (rs_queue ?e)"
      using ok by (simp add: bt_ok_insert)
    show "k < rs_seq ?e \<and> qm_arrival_seq m = k \<and> qm_recipient m = r"
      if "(k, m) \<in> set (rs_queue ?e)" for k m
      using that r lt [of "(k, m)"] rs_inv_entry [OF e, of k m] unfolding q by (auto simp: s)
    show "rs_idx ?e key = Some k \<longleftrightarrow> (\<exists>m. (k, m) \<in> set (rs_queue ?e) \<and> msg_key m = key)" for key k
      using rs_inv_idx [OF e, of key k] new unfolding q by (cases "key = inbound_key msg") auto
  qed (use c b in \<open>simp_all only: q, simp_all\<close>)
qed

lemma entry_push_quota:
  assumes e: "rs_inv r e" and seq: "rs_seq e \<noteq> - 1" and lim: "max_queue_bytes_per_user limits \<noteq> - 1"
  shows "(max_messages_per_user limits < sat_add (rs_quota_count e) 1
      \<or> max_queue_bytes_per_user limits < sat_add (rs_quota_bytes e) (im_payload_bytes msg))
    \<longleftrightarrow> unat (max_messages_per_user limits) < length (rs_queue e) + 1
      \<or> unat (max_queue_bytes_per_user limits) < box_bytes (map snd (rs_queue e)) + unat (im_payload_bytes msg)"
proof (rule quota_full)
  show "unat (rs_quota_count e) = length (rs_queue e)" "unat (rs_quota_bytes e) = box_bytes (map snd (rs_queue e))"
    using e by (simp_all add: rs_inv_def)
  then show "length (rs_queue e) + 1 < 2 ^ 64"
    using rs_inv_count_seq [OF e] unat_not_max [OF seq] by simp
qed (rule lim)

lemma entry_push_stores:
  assumes e: "rs_inv r e" and r: "im_recipient msg = r" and seq: "rs_seq e \<noteq> - 1"
    and lim: "max_queue_bytes_per_user limits \<noteq> - 1" and new: "rs_idx e (inbound_key msg) = None"
    and fits: "\<not> (unat (max_messages_per_user limits) < length (rs_queue e) + 1
      \<or> unat (max_queue_bytes_per_user limits) < box_bytes (map snd (rs_queue e)) + unat (im_payload_bytes msg))"
    and push: "entry_push msg limits e = (res, e')"
  shows "rs_inv r e' \<and> res = Inr \<lparr>ps_stored = True, ps_duplicate = False,
      ps_queue_len = rs_quota_count e', ps_queue_bytes = rs_quota_bytes e'\<rparr>
    \<and> rs_box e' = (rs_seq e + 1, snd (rs_box e) @ [stored_message msg (rs_seq e)])"
proof -
  let ?e = "e\<lparr>rs_seq := sat_add (rs_seq e) 1,
    rs_queue := bt_insert (rs_seq e) (stored_message msg (rs_seq e)) (rs_queue e),
    rs_idx := (rs_idx e)(inbound_key msg \<mapsto> rs_seq e),
    rs_quota_count := sat_add (rs_quota_count e) 1,
    rs_quota_bytes := sat_add (rs_quota_bytes e) (im_payload_bytes msg)\<rparr>"
  have "unat (rs_quota_bytes e) + unat (im_payload_bytes msg) < 2 ^ 64"
    using fits unat_not_max [OF lim] e by (simp add: rs_inv_def)
  then have inv: "rs_inv r ?e" by (rule entry_push_stored_inv [OF e r new seq])
  have ok: "bt_ok (rs_queue e)" using e by (simp add: rs_inv_def)
  have q: "bt_insert (rs_seq e) (stored_message msg (rs_seq e)) (rs_queue e)
      = rs_queue e @ [(rs_seq e, stored_message msg (rs_seq e))]"
    using bt.entries_insert_max [OF ok, of "rs_seq e"] rs_inv_entry [OF e] by force
  have n: "sat_add (rs_seq e) 1 = rs_seq e + 1"
    using unat_not_max [OF seq] by (simp add: sat_add_def)
  have "res = Inr \<lparr>ps_stored = True, ps_duplicate = False,
      ps_queue_len = rs_quota_count ?e, ps_queue_bytes = rs_quota_bytes ?e\<rparr>" and "e' = ?e"
    using push entry_push_quota [OF e seq lim, of msg] fits new by (auto simp: entry_push_def Let_def)
  then show ?thesis using inv by (simp add: rs_box_def q n)
qed

lemma entry_push_refines:
  assumes e: "rs_inv r e" and r: "im_recipient msg = r" and seq: "rs_seq e \<noteq> - 1"
    and lim: "max_queue_bytes_per_user limits \<noteq> - 1"
    and push: "entry_push msg limits e = (res, e')"
  shows "rs_inv r e' \<and> spec_push limits msg (rs_box e) = (res, rs_box e')"
proof (cases "rs_idx e (inbound_key msg)")
  case (Some s)
  then have "inbound_key msg \<in> msg_key ` snd ` set (rs_queue e)"
    using rs_inv_idx_None [OF e, of "inbound_key msg"] by auto
  then show ?thesis
    using push e Some rs_inv_count [OF e] rs_inv_bytes [OF e]
    by (auto simp: entry_push_def rs_box_def)
next
  case None
  then have new: "inbound_key msg \<notin> msg_key ` snd ` set (rs_queue e)"
    using rs_inv_idx_None [OF e] by simp
  show ?thesis
  proof (cases "unat (max_messages_per_user limits) < length (rs_queue e) + 1
      \<or> unat (max_queue_bytes_per_user limits) < box_bytes (map snd (rs_queue e)) + unat (im_payload_bytes msg)")
    case True
    then have "entry_push msg limits e = (Inl QuotaExceeded, e)"
      using entry_push_quota [OF e seq lim, of msg] None by (auto simp: entry_push_def Let_def)
    with push have "res = Inl QuotaExceeded" "e' = e" by auto
    moreover have "spec_push limits msg (rs_box e) = (Inl QuotaExceeded, rs_box e)"
      using True new by (auto simp: rs_box_def image_image)
    ultimately show ?thesis using e by simp
  next
    case False
    note stored = entry_push_stores [OF e r seq lim None False push]
    then have inv: "rs_inv r e'" and "map snd (rs_queue e') = map snd (rs_queue e) @ [stored_message msg (rs_seq e)]"
      by (simp_all add: rs_box_def)
    from arg_cong [OF this(2), of length] have "length (rs_queue e') = length (rs_queue e) + 1" by simp
    then show ?thesis
      using stored False new rs_inv_count [OF inv] rs_inv_bytes [OF inv]
      by (simp add: rs_box_def image_image)
  qed
qed

section \<open>Removing a message\<close>

definition remove_entry :: "u64 \<Rightarrow> queue_message \<Rightarrow> recipient_state \<Rightarrow> recipient_state" where
  "remove_entry seq m e = e\<lparr>
     rs_queue := bt_remove seq (rs_queue e),
     rs_quota_count := sat_sub (rs_quota_count e) 1,
     rs_quota_bytes := sat_sub (rs_quota_bytes e) (qm_payload_bytes m),
     rs_idx := (rs_idx e)(msg_key m := None)\<rparr>"

lemma remove_entry_queue:
  "rs_queue (remove_entry seq m e) = filter (\<lambda>p. fst p \<noteq> seq) (rs_queue e)"
  by (simp add: remove_entry_def bt_remove_def)

lemma remove_entry_seq [simp]: "rs_seq (remove_entry seq m e) = rs_seq e"
  by (simp add: remove_entry_def)

lemma keys_sorted_split:
  assumes "keys_sorted q" and "(s, m) \<in> set q"
  obtains a b where "q = a @ (s, m) # b" and "filter (\<lambda>p. fst p \<noteq> s) q = a @ b"
proof -
  obtain a b where q: "q = a @ (s, m) # b"
    using assms(2) by (auto dest: split_list)
  then have "distinct (map fst (a @ (s, m) # b))"
    using assms(1) keys_sorted_distinct by blast
  then have "s \<notin> fst ` set a" "s \<notin> fst ` set b"
    by auto
  then have "filter (\<lambda>p. fst p \<noteq> s) a = a" "filter (\<lambda>p. fst p \<noteq> s) b = b"
    by (intro filter_True ballI; metis imageI)+
  then have "filter (\<lambda>p. fst p \<noteq> s) q = a @ b"
    unfolding q by simp
  with q show ?thesis by (rule that)
qed

lemma remove_entry_inv:
  assumes e: "rs_inv r e" and m: "(seq, m) \<in> set (rs_queue e)"
  shows "rs_inv r (remove_entry seq m e)" (is "rs_inv r ?e")
proof -
  obtain a b where q: "rs_queue e = a @ (seq, m) # b" and q': "rs_queue ?e = a @ b"
    using keys_sorted_split [OF rs_inv_sorted [OF e] m] unfolding remove_entry_queue by metis
  have mem: "p \<in> set (rs_queue ?e) \<longleftrightarrow> p \<in> set (rs_queue e) \<and> fst p \<noteq> seq" for p
    unfolding remove_entry_queue by auto
  show ?thesis
  proof (rule rs_invI)
    show "bt_ok (rs_queue ?e)"
      using rs_inv_sorted [OF e] by (simp add: bt_ok_def remove_entry_queue keys_sorted_filter)
    show "k < rs_seq ?e \<and> qm_arrival_seq x = k \<and> qm_recipient x = r"
      if "(k, x) \<in> set (rs_queue ?e)" for k x
      using that mem rs_inv_entry [OF e, of k x] by simp
    show "rs_idx ?e key = Some s \<longleftrightarrow> (\<exists>x. (s, x) \<in> set (rs_queue ?e) \<and> msg_key x = key)" for key s
    proof -
      have "rs_idx ?e key = Some s \<longleftrightarrow> key \<noteq> msg_key m \<and> rs_idx e key = Some s"
        by (simp add: remove_entry_def)
      also have "\<dots> \<longleftrightarrow> (\<exists>x. (s, x) \<in> set (rs_queue e) \<and> msg_key x = key \<and> msg_key x \<noteq> msg_key m)"
        by (auto simp: rs_inv_idx [OF e])
      also have "\<dots> \<longleftrightarrow> (\<exists>x. (s, x) \<in> set (rs_queue ?e) \<and> msg_key x = key)"
        using m rs_inv_key_unique [OF e _ m] rs_inv_unique [OF e m] unfolding mem fst_conv by blast
      finally show ?thesis .
    qed
    show "unat (rs_quota_count ?e) = length (rs_queue ?e)"
      using e by (simp only: q') (simp add: remove_entry_def sat_simps rs_inv_def q)
    show "unat (rs_quota_bytes ?e) = box_bytes (map snd (rs_queue ?e))"
      using e by (simp only: q') (simp add: remove_entry_def sat_simps rs_inv_def q)
  qed
qed

lemma drop_seq_mem:
  assumes "rs_inv r e" and "(seq, m) \<in> set (rs_queue e)"
  shows "drop_seq seq e = (True, remove_entry seq m e)"
  using assms by (simp add: drop_seq_def remove_entry_def rs_inv_get [symmetric])

lemma remove_entry_length:
  assumes "rs_inv r e" and "(seq, m) \<in> set (rs_queue e)"
  shows "length (rs_queue e) = Suc (length (rs_queue (remove_entry seq m e)))"
  using keys_sorted_split [OF rs_inv_sorted [OF assms(1)] assms(2)]
  unfolding remove_entry_queue by (metis add_Suc_right length_Cons length_append)

lemma drop_seqs_inv:
  assumes "rs_inv r e" and "distinct ds" and "set ds \<subseteq> fst ` set (rs_queue e)"
  shows "rs_inv r (drop_seqs ds e) \<and> rs_seq (drop_seqs ds e) = rs_seq e
    \<and> rs_queue (drop_seqs ds e) = filter (\<lambda>p. fst p \<notin> set ds) (rs_queue e)
    \<and> length (rs_queue e) = length (rs_queue (drop_seqs ds e)) + length ds"
  using assms
proof (induction ds arbitrary: e)
  case (Cons d ds)
  obtain m where m: "(d, m) \<in> set (rs_queue e)"
    using Cons.prems(3) by auto
  let ?e = "remove_entry d m e"
  have "set ds \<subseteq> fst ` set (rs_queue ?e)"
    using Cons.prems(2,3) by (fastforce simp: remove_entry_queue)
  with Cons.IH [of ?e] remove_entry_inv [OF Cons.prems(1) m] Cons.prems(2)
  have "rs_inv r (drop_seqs ds ?e) \<and> rs_seq (drop_seqs ds ?e) = rs_seq ?e
    \<and> rs_queue (drop_seqs ds ?e) = filter (\<lambda>p. fst p \<notin> set ds) (rs_queue ?e)
    \<and> length (rs_queue ?e) = length (rs_queue (drop_seqs ds ?e)) + length ds"
    by simp
  then show ?case
    using remove_entry_length [OF Cons.prems(1) m]
    by (simp add: drop_seq_mem [OF Cons.prems(1) m]) (simp add: remove_entry_queue conj_commute)
qed simp

section \<open>Pull\<close>

text \<open>
  What the loop of \<open>pull\<close> computes: the first live messages up to the limit, whether one
  more is left, and expired ones from a prefix of the entries.
\<close>

lemma pull_scan_spec:
  assumes "length col \<le> limit"
  shows "\<exists>n. pull_scan now limit es col ex =
    (col @ take (limit - length col) (filter (live now) (map snd es)),
     ex @ map fst (filter (\<lambda>p. \<not> live now (snd p)) (take n es)),
     limit < length col + length (filter (live now) (map snd es)))"
  using assms
proof (induction es arbitrary: col ex)
  case (Cons p es)
  obtain seq msg where p: "p = (seq, msg)" by fastforce
  show ?case
  proof (cases "live now msg")
    case False
    obtain n where "pull_scan now limit es col (ex @ [seq]) =
        (col @ take (limit - length col) (filter (live now) (map snd es)),
         (ex @ [seq]) @ map fst (filter (\<lambda>p. \<not> live now (snd p)) (take n es)),
         limit < length col + length (filter (live now) (map snd es)))"
      using Cons.IH [OF Cons.prems, of "ex @ [seq]"] by blast
    moreover have "qm_deadline_ms msg \<le> now"
      using False by (simp add: live_def not_less)
    ultimately show ?thesis
      using False p by (intro exI [of _ "Suc n"]) simp
  next
    case True
    then have d: "\<not> qm_deadline_ms msg \<le> now" by (simp add: live_def)
    show ?thesis
    proof (cases "length col < limit")
      case lt: True
      then have "length (col @ [msg]) \<le> limit" by simp
      then obtain n where "pull_scan now limit es (col @ [msg]) ex =
          ((col @ [msg]) @ take (limit - length (col @ [msg])) (filter (live now) (map snd es)),
           ex @ map fst (filter (\<lambda>p. \<not> live now (snd p)) (take n es)),
           limit < length (col @ [msg]) + length (filter (live now) (map snd es)))"
        using Cons.IH by blast
      moreover have "limit - length col = Suc (limit - Suc (length col))"
        using lt by simp
      ultimately show ?thesis
        using True d lt p by (intro exI [of _ "Suc n"]) simp
    next
      case False
      with True d Cons.prems p show ?thesis
        by (intro exI [of _ 0]) simp
    qed
  qed
qed simp

lemma pull_entries_subset: "set (pull_entries c e) \<subseteq> set (rs_queue e)"
  by (auto simp: pull_entries_def bt_after_def split: option.splits)

lemma pull_entries_sorted: "rs_inv r e \<Longrightarrow> keys_sorted (pull_entries c e)"
  by (auto simp: pull_entries_def bt_after_def rs_inv_sorted keys_sorted_filter split: option.splits)

lemma pull_entries_selection:
  assumes "rs_inv r e"
  shows "filter (live now) (map snd (pull_entries c e)) = selection c now (map snd (rs_queue e))"
proof (cases c)
  case (Some s)
  have "filter (\<lambda>p. s < fst p) (rs_queue e) = filter (\<lambda>p. s < qm_arrival_seq (snd p)) (rs_queue e)"
    using rs_inv_entry [OF assms] by (intro filter_cong) auto
  then have "map snd (pull_entries c e) = filter (\<lambda>m. s < qm_arrival_seq m) (map snd (rs_queue e))"
    by (simp only: Some pull_entries_def bt_after_def option.case
        filter_snd_map [where P = "\<lambda>m. s < qm_arrival_seq m"])
  then show ?thesis
    by (simp add: selection_def after_cursor_def Some filter_filter)
qed (simp add: selection_def after_cursor_def pull_entries_def)

lemma drop_expired_refines:
  assumes e: "rs_inv r e" and es: "set es \<subseteq> set (rs_queue e)" "keys_sorted es"
    and ds: "ds = map fst (filter (\<lambda>p. \<not> live now (snd p)) es)"
  shows "rs_inv r (drop_seqs ds e) \<and> expiry_step now (rs_box e) (rs_box (drop_seqs ds e))
    \<and> length (rs_queue e) = length (rs_queue (drop_seqs ds e)) + length ds"
proof -
  have dist: "distinct ds"
    using keys_sorted_distinct [OF keys_sorted_filter [OF es(2)]] unfolding ds .
  have sub: "set ds \<subseteq> fst ` set (rs_queue e)"
    using es(1) unfolding ds by auto
  note d = drop_seqs_inv [OF e dist sub]
  have expired: "\<not> live now (snd p)" if p: "p \<in> set (rs_queue e)" "fst p \<in> set ds" for p
  proof -
    obtain p' where p': "p' \<in> set es" "\<not> live now (snd p')" "fst p' = fst p"
      using p(2) unfolding ds by auto
    then have "(fst p, snd p') \<in> set (rs_queue e)"
      using subsetD [OF es(1) p'(1)] by (simp add: p'(3) [symmetric])
    then have "snd p' = snd p"
      using rs_inv_unique [OF e, of "fst p" "snd p'" "snd p"] p(1) by simp
    with p' show ?thesis by simp
  qed
  let ?keep = "\<lambda>m. qm_arrival_seq m \<notin> set ds"
  have "filter (\<lambda>p. fst p \<notin> set ds) (rs_queue e)
      = filter (\<lambda>p. live now (snd p) \<or> ?keep (snd p)) (rs_queue e)"
  proof (rule filter_cong [OF refl])
    fix p assume p: "p \<in> set (rs_queue e)"
    then have "qm_arrival_seq (snd p) = fst p"
      using rs_inv_entry [OF e, of "fst p" "snd p"] by simp
    then show "fst p \<notin> set ds \<longleftrightarrow> live now (snd p) \<or> ?keep (snd p)"
      using expired [OF p] by metis
  qed
  then have "map snd (rs_queue (drop_seqs ds e))
      = filter (\<lambda>m. live now m \<or> ?keep m) (map snd (rs_queue e))"
    using d by (simp only: filter_snd_map [where P = "\<lambda>m. live now m \<or> qm_arrival_seq m \<notin> set ds"])
  then have step: "expiry_step now (rs_box e) (rs_box (drop_seqs ds e))"
    using d unfolding expiry_step_def rs_box_def fst_conv snd_conv
    by (intro conjI exI [of _ ?keep]) (simp_all only:)
  show ?thesis using d step by blast
qed

lemma filter_length_le_split:
  "length (filter P xs) + length (filter (\<lambda>x. \<not> P x) xs) = length xs"
  by (induction xs) auto

text \<open>The batch made of a page and the entry a pull leaves is the batch of the specification.\<close>

lemma page_is_spec_batch:
  assumes e: "rs_inv r e" and e': "rs_inv r e'" and sel: "sel = selection c now (map snd (rs_queue e))"
    and items: "items = take (page_limit limit) sel"
  shows "\<lparr>pb_items = items,
      pb_next_cursor = (if page_limit limit < length sel \<and> items \<noteq> []
        then Some (encode_cursor E (qm_recipient (last items)) (qm_arrival_seq (last items))) else None),
      pb_remaining_estimate = sat_sub (rs_quota_count e') (word_of_nat (length items))\<rparr>
    = spec_batch E r c limit now (rs_box e) (rs_box e')"
proof -
  have recip: "qm_recipient m = r" if "m \<in> set items" for m
  proof -
    have "m \<in> set (map snd (rs_queue e))"
      using that set_take_subset [of "page_limit limit" sel] by (auto simp: items sel selection_def)
    then show ?thesis using rs_inv_entry [OF e] by auto
  qed
  have more: "page_limit limit < length sel \<longleftrightarrow> length items < length sel"
    by (cases "page_limit limit < length sel") (simp_all add: items)
  have "length items \<le> length (rs_queue e)"
    by (auto simp: items sel selection_def intro: min.coboundedI1 order_trans [OF length_filter_le])
  moreover have "length (rs_queue e) < 2 ^ 64"
    using e unat_lt_pow [of "rs_quota_count e"] by (simp add: rs_inv_def)
  ultimately have rem: "sat_sub (rs_quota_count e') (word_of_nat (length items))
      = word_of_nat (length (rs_queue e') - length items)"
    using e' by (intro sat_sub_of_nat) (simp_all add: rs_inv_def)
  have nc: "(if length items < length sel \<and> items \<noteq> []
        then Some (encode_cursor E (qm_recipient (last items)) (qm_arrival_seq (last items))) else None)
      = (if length items < length sel \<and> items \<noteq> []
        then Some (encode_cursor E r (qm_arrival_seq (last items))) else None)"
    using recip last_in_set [of items] by (cases "items = []") auto
  show ?thesis
    unfolding more nc rem unfolding spec_batch_def Let_def rs_box_def snd_conv length_map items sel by (rule refl)
qed

lemma entry_pull_refines:
  assumes e: "rs_inv r e" and pull: "entry_pull E c limit now e = (batch, e')"
  shows "rs_inv r e' \<and> expiry_step now (rs_box e) (rs_box e')
    \<and> batch = spec_batch E r c limit now (rs_box e) (rs_box e')"
proof -
  let ?L = "page_limit limit" and ?sel = "selection c now (map snd (rs_queue e))"
  obtain n where scan: "pull_scan now ?L (pull_entries c e) [] [] =
      (take ?L ?sel,
       map fst (filter (\<lambda>p. \<not> live now (snd p)) (take n (pull_entries c e))),
       ?L < length ?sel)"
    using pull_scan_spec [of "[]" ?L now "pull_entries c e" "[]"] pull_entries_selection [OF e, of now c]
    by auto
  define ds where "ds = map fst (filter (\<lambda>p. \<not> live now (snd p)) (take n (pull_entries c e)))"
  have sub: "set (take n (pull_entries c e)) \<subseteq> set (rs_queue e)"
    using pull_entries_subset [of c e] set_take_subset [of n "pull_entries c e"] by blast
  have sorted: "keys_sorted (take n (pull_entries c e))"
    using pull_entries_sorted [OF e, of c] by (simp add: take_map [symmetric] sorted_wrt_take)
  note drop = drop_expired_refines [OF e sub sorted ds_def]
  have "entry_pull E c limit now e = (spec_batch E r c limit now (rs_box e) (rs_box (drop_seqs ds e)), drop_seqs ds e)"
    unfolding entry_pull_def Let_def page_limit_def [symmetric] scan prod.case ds_def [symmetric]
    by (subst page_is_spec_batch [OF e drop [THEN conjunct1] refl refl, symmetric]) (rule refl)
  then show ?thesis using drop pull by simp
qed

section \<open>Acknowledge\<close>

lemma ack_one_hit:
  assumes e: "rs_inv r e" and m: "(seq, m) \<in> set (rs_queue e)" and k: "msg_key m = ack_key a"
  shows "ack_one a (out, e)
    = (out\<lparr>ao_deleted := sat_add (ao_deleted out) 1\<rparr>, remove_entry seq m e)"
proof -
  have "rs_idx e (ack_key a) = Some seq"
    using m k by (auto simp: rs_inv_idx [OF e])
  moreover have "bt_get (rs_queue e) seq = Some m"
    using m by (simp add: rs_inv_get [OF e])
  ultimately show ?thesis
    by (simp add: ack_one_def remove_entry_def k Let_def)
qed

lemma ack_one_miss:
  assumes e: "rs_inv r e" and k: "ack_key a \<notin> msg_key ` snd ` set (rs_queue e)"
  shows "ack_one a (out, e) = (out\<lparr>ao_missing := sat_add (ao_missing out) 1\<rparr>, e)"
proof -
  have "rs_idx e (ack_key a) = None"
    using k rs_inv_idx_None [OF e] by simp
  then show ?thesis by (simp add: ack_one_def)
qed

definition unacked_entries :: "ack_item list \<Rightarrow> (u64 \<times> queue_message) list \<Rightarrow> (u64 \<times> queue_message) list" where
  "unacked_entries items q = filter (\<lambda>p. msg_key (snd p) \<notin> ack_key ` set items) q"

lemma remove_entry_key:
  assumes e: "rs_inv r e" and m: "(seq, m) \<in> set (rs_queue e)"
  shows "rs_queue (remove_entry seq m e) = filter (\<lambda>p. msg_key (snd p) \<noteq> msg_key m) (rs_queue e)"
  unfolding remove_entry_queue
proof (rule filter_cong [OF refl])
  fix p assume "p \<in> set (rs_queue e)"
  then have p: "(fst p, snd p) \<in> set (rs_queue e)" by simp
  show "fst p \<noteq> seq \<longleftrightarrow> msg_key (snd p) \<noteq> msg_key m"
    using rs_inv_key_unique [OF e p m] rs_inv_unique [OF e m, of "snd p"] p by metis
qed

lemma unacked_entries_Cons: "unacked_entries xs (unacked_entries [x] q) = unacked_entries (x # xs) q"
  unfolding unacked_entries_def filter_filter by (rule filter_cong) auto

text \<open>One item: the entries with its key go, and it counts as deleted or as missing.\<close>

lemma ack_one_step:
  assumes e: "rs_inv r e" and room: "unat (ao_deleted out) + 1 < 2 ^ 64" "unat (ao_missing out) + 1 < 2 ^ 64"
  shows "\<exists>out1 e1. ack_one x (out, e) = (out1, e1) \<and> rs_inv r e1 \<and> rs_seq e1 = rs_seq e
    \<and> rs_queue e1 = unacked_entries [x] (rs_queue e)
    \<and> unat (ao_deleted out1) + length (rs_queue e1) = unat (ao_deleted out) + length (rs_queue e)
    \<and> unat (ao_missing out1) + unat (ao_deleted out1) = unat (ao_missing out) + unat (ao_deleted out) + 1
    \<and> unat (ao_deleted out) \<le> unat (ao_deleted out1) \<and> unat (ao_missing out) \<le> unat (ao_missing out1)"
proof (cases "ack_key x \<in> msg_key ` snd ` set (rs_queue e)")
  case True
  then obtain seq m where m: "(seq, m) \<in> set (rs_queue e)" and k: "msg_key m = ack_key x" by force
  have "rs_queue (remove_entry seq m e) = unacked_entries [x] (rs_queue e)"
    unfolding remove_entry_key [OF e m] unacked_entries_def by (simp add: k)
  then show ?thesis
    using ack_one_hit [OF e m k, of out] remove_entry_inv [OF e m] remove_entry_length [OF e m] room(1)
    by (simp add: sat_simps)
next
  case False
  have "unacked_entries [x] (rs_queue e) = rs_queue e"
    unfolding unacked_entries_def by (rule filter_True) (use False in force)
  then show ?thesis
    using ack_one_miss [OF e False, of out] e room(2) by (simp add: sat_simps)
qed

lemma ack_loop_spec:
  assumes "rs_inv r e"
    and "unat (ao_deleted out) + unat (ao_missing out) + length xs < 2 ^ 64"
    and "ack_loop xs (out, e) = (out', e')"
  shows "rs_inv r e' \<and> rs_seq e' = rs_seq e
    \<and> rs_queue e' = unacked_entries xs (rs_queue e)
    \<and> unat (ao_deleted out') + length (rs_queue e') = unat (ao_deleted out) + length (rs_queue e)
    \<and> unat (ao_missing out') + unat (ao_deleted out')
        = unat (ao_missing out) + unat (ao_deleted out) + length xs"
  using assms
proof (induction xs arbitrary: out e)
  case (Cons x xs)
  have room: "unat (ao_deleted out) + 1 < 2 ^ 64" "unat (ao_missing out) + 1 < 2 ^ 64"
    using Cons.prems(2) by simp_all
  obtain out1 e1 where one: "ack_one x (out, e) = (out1, e1)" "rs_inv r e1" "rs_seq e1 = rs_seq e"
      "rs_queue e1 = unacked_entries [x] (rs_queue e)"
      "unat (ao_deleted out1) + length (rs_queue e1) = unat (ao_deleted out) + length (rs_queue e)"
      "unat (ao_missing out1) + unat (ao_deleted out1) = unat (ao_missing out) + unat (ao_deleted out) + 1"
    using ack_one_step [OF Cons.prems(1) room] by blast
  have loop: "ack_loop xs (out1, e1) = (out', e')" using Cons.prems(3) one(1) by simp
  have "unat (ao_deleted out1) + unat (ao_missing out1) + length xs < 2 ^ 64"
    using Cons.prems(2) one(6) by simp
  note ih = Cons.IH [OF one(2) this loop]
  have q: "unacked_entries xs (rs_queue e1) = unacked_entries (x # xs) (rs_queue e)"
    by (simp only: one(4) unacked_entries_Cons)
  from ih one(3,5,6) show ?case unfolding q by auto
qed (simp add: unacked_entries_def)

lemma acked_entries:
  "filter (\<lambda>m. \<not> acked items m) (map snd q) = map snd (unacked_entries items q)"
  unfolding acked_def unacked_entries_def
  by (rule filter_snd_map [symmetric, where P = "\<lambda>m. msg_key m \<notin> ack_key ` set items"])

lemma ack_count_length:
  "ack_count items (n, map snd q) + length (unacked_entries items q) = length q"
proof -
  have "length (map snd (unacked_entries items q)) = length (filter (\<lambda>m. \<not> acked items m) (map snd q))"
    by (simp only: acked_entries)
  then show ?thesis
    using filter_length_le_split [of "acked items" "map snd q"] by (simp add: ack_count_def)
qed

text \<open>
  The set of items is walked in an unspecified order; any enumeration \<open>xs\<close> of it gives
  the same outcome and the same state.
\<close>

lemma entry_ack_refines:
  assumes e: "rs_inv r e" and xs: "distinct xs" "set xs = set items" and len: "length xs < 2 ^ 64"
    and ack: "entry_ack xs e = (out, e')"
  shows "rs_inv r e' \<and> rs_box e' = ack_box items (rs_box e)
    \<and> out = \<lparr>ao_deleted = word_of_nat (ack_count items (rs_box e)),
            ao_missing = word_of_nat (length xs - ack_count items (rs_box e)),
            ao_remaining = word_of_nat (length (snd (ack_box items (rs_box e))))\<rparr>"
proof -
  obtain out1 where loop: "ack_loop xs (ack_outcome_default, e) = (out1, e')"
    and out: "out = out1\<lparr>ao_remaining := rs_quota_count e'\<rparr>"
    using ack by (auto simp: entry_ack_def split: prod.splits)
  have spec: "rs_inv r e' \<and> rs_seq e' = rs_seq e
    \<and> rs_queue e' = unacked_entries xs (rs_queue e)
    \<and> unat (ao_deleted out1) + length (rs_queue e') = unat (ao_deleted ack_outcome_default) + length (rs_queue e)
    \<and> unat (ao_missing out1) + unat (ao_deleted out1)
        = unat (ao_missing ack_outcome_default) + unat (ao_deleted ack_outcome_default) + length xs"
    by (rule ack_loop_spec [OF e _ loop]) (use len in \<open>simp add: ack_outcome_default_def\<close>)
  then have q: "rs_queue e' = unacked_entries items (rs_queue e)"
    using xs(2) by (simp add: unacked_entries_def)
  have box: "rs_box e' = ack_box items (rs_box e)"
    using spec by (simp add: rs_box_def ack_box_def acked_entries q)
  have del: "unat (ao_deleted out1) = ack_count items (rs_box e)"
  proof -
    have "unat (ao_deleted out1) + length (rs_queue e')
        = unat (ao_deleted ack_outcome_default) + length (rs_queue e)"
      using spec by blast
    then show ?thesis
      using ack_count_length [of items "rs_seq e" "rs_queue e"]
      unfolding q by (simp add: rs_box_def ack_outcome_default_def)
  qed
  have mis: "unat (ao_missing out1) = length xs - ack_count items (rs_box e)"
  proof -
    have "unat (ao_missing out1) + unat (ao_deleted out1) = length xs"
      using spec by (simp add: ack_outcome_default_def)
    then show ?thesis unfolding del by linarith
  qed
  have "rs_quota_count e' = word_of_nat (length (rs_queue e'))"
    using rs_inv_count spec by blast
  then have "rs_quota_count e' = word_of_nat (length (snd (ack_box items (rs_box e))))"
    by (simp add: box [symmetric]) (simp add: rs_box_def)
  then show ?thesis
    using spec box word_eq_of_unat [OF del] word_eq_of_unat [OF mis] unfolding out by simp
qed

section \<open>Purge\<close>

text \<open>
  The candidates are a leading run of expired messages, no more than the batch has room
  for; the run stops early only at a full batch, at a live message or at the end.
\<close>

lemma gc_collect_spec:
  assumes "removed + length ds < target"
  shows "\<exists>n. gc_collect now target removed es ds = ds @ map fst (take n es)
    \<and> (\<forall>p\<in>set (take n es). \<not> live now (snd p))
    \<and> removed + length ds + length (take n es) \<le> target
    \<and> (removed + length ds + length (take n es) = target
       \<or> (\<forall>p. n < length es \<and> p = es ! n \<longrightarrow> live now (snd p)))"
  using assms
proof (induction es arbitrary: ds)
  case (Cons p es)
  obtain seq msg where p: "p = (seq, msg)" by fastforce
  show ?case
  proof (cases "live now msg")
    case True
    then have "\<not> qm_deadline_ms msg \<le> now" by (simp add: live_def)
    with True Cons.prems p show ?thesis
      by (intro exI [of _ 0]) simp
  next
    case False
    then have d: "qm_deadline_ms msg \<le> now" by (simp add: live_def not_less)
    show ?thesis
    proof (cases "target \<le> removed + length (ds @ [seq])")
      case True
      with Cons.prems d False p show ?thesis
        by (intro exI [of _ 1]) (simp add: Let_def)
    next
      case go: False
      then obtain n where "gc_collect now target removed es (ds @ [seq]) = (ds @ [seq]) @ map fst (take n es)
        \<and> (\<forall>p\<in>set (take n es). \<not> live now (snd p))
        \<and> removed + length (ds @ [seq]) + length (take n es) \<le> target
        \<and> (removed + length (ds @ [seq]) + length (take n es) = target
           \<or> (\<forall>p. n < length es \<and> p = es ! n \<longrightarrow> live now (snd p)))"
        using Cons.IH [of "ds @ [seq]"] by auto
      with False d go p show ?thesis
        by (intro exI [of _ "Suc n"]) (simp add: Let_def)
    qed
  qed
qed simp

lemma gc_drop_spec:
  assumes "rs_inv r e" and "distinct ds" and "set ds \<subseteq> fst ` set (rs_queue e)"
    and "removed + length ds \<le> target" and "removed < target"
  shows "gc_drop target ds removed e = (removed + length ds, drop_seqs ds e)"
  using assms
proof (induction ds arbitrary: e removed)
  case (Cons d ds)
  obtain m where m: "(d, m) \<in> set (rs_queue e)"
    using Cons.prems(3) by auto
  let ?e = "remove_entry d m e"
  have sub: "set ds \<subseteq> fst ` set (rs_queue ?e)"
    using Cons.prems(2,3) by (fastforce simp: remove_entry_queue)
  have step: "drop_seq d e = (True, ?e)"
    by (rule drop_seq_mem [OF Cons.prems(1) m])
  show ?case
  proof (cases "target \<le> removed + 1")
    case True
    with Cons.prems(4,5) have "ds = []" by (cases ds) simp_all
    with True step show ?thesis by (simp add: Let_def)
  next
    case False
    then have "gc_drop target ds (removed + 1) ?e = (removed + 1 + length ds, drop_seqs ds ?e)"
      using Cons.prems remove_entry_inv [OF Cons.prems(1) m] sub by (intro Cons.IH) auto
    with False step show ?thesis by (simp add: Let_def)
  qed
qed simp

end
