(* ===== verification/Mem_Contract.thy ===== *)
theory Mem_Contract
  imports Mem_Refine Relay_Contract Std_Base64
begin

text \<open>
  The in-memory backend satisfies the storage contract: \<open>mem_ops\<close> interprets
  \<open>relay_system\<close>, with the invariant \<open>rs_inv\<close> for every recipient and the empty store as
  the initial state. The properties of the backend follow from the contract.
\<close>

section \<open>Invariant and mailboxes of the store\<close>

definition mem_inv :: "mem_store \<Rightarrow> bool" where
  "mem_inv st \<longleftrightarrow> bt_ok st \<and> (\<forall>r e. bt_get st r = Some e \<longrightarrow> rs_inv r e)"

definition mem_box :: "mem_store \<Rightarrow> string \<Rightarrow> mailbox" where
  "mem_box st r = rs_box (entry_or_default st r)"

lemma mem_inv_new [simp]: "mem_inv mem_new"
  by (simp add: mem_inv_def mem_new_def bt_ok_def)

lemma mem_box_new [simp]: "mem_box mem_new r = (0, [])"
  by (simp add: mem_box_def mem_new_def entry_or_default_def)

lemma mem_inv_entry: "mem_inv st \<Longrightarrow> rs_inv r (entry_or_default st r)"
  by (auto simp: mem_inv_def entry_or_default_def split: option.splits)

lemma mem_inv_get: "mem_inv st \<Longrightarrow> bt_get st r = Some e \<Longrightarrow> rs_inv r e"
  by (simp add: mem_inv_def)

lemma mem_inv_insert: "mem_inv st \<Longrightarrow> rs_inv r e \<Longrightarrow> mem_inv (bt_insert r e st)"
  by (auto simp: mem_inv_def bt_ok_insert bt.get_insert split: if_splits)

lemma mem_box_get: "bt_get st r = Some e \<Longrightarrow> mem_box st r = rs_box e"
  by (simp add: mem_box_def entry_or_default_def)

lemma mem_box_None: "bt_get st r = None \<Longrightarrow> mem_box st r = (0, [])"
  by (simp add: mem_box_def entry_or_default_def)

lemma mem_box_insert:
  "mem_inv st \<Longrightarrow> mem_box (bt_insert r e st) q = (if q = r then rs_box e else mem_box st q)"
  by (simp add: mem_inv_def mem_box_def entry_or_default_def bt.get_insert)

lemma mem_box_ok: "mem_inv st \<Longrightarrow> box_ok r (mem_box st r)"
  by (simp add: mem_box_def rs_inv_box_ok mem_inv_entry)

section \<open>The four operations\<close>

lemma mem_push_refines:
  assumes inv: "mem_inv st" and lim: "max_queue_bytes_per_user limits \<noteq> - 1"
    and room: "fst (mem_box st (im_recipient m)) \<noteq> - 1"
    and push: "mem_push st m limits = (res, st')"
  shows "mem_inv st' \<and> spec_push limits m (mem_box st (im_recipient m)) = (res, mem_box st' (im_recipient m))
    \<and> (\<forall>q. q \<noteq> im_recipient m \<longrightarrow> mem_box st' q = mem_box st q)"
proof -
  let ?r = "im_recipient m" and ?e = "entry_or_default st (im_recipient m)"
  obtain e' where e': "entry_push m limits ?e = (res, e')" and st': "st' = bt_insert ?r e' st"
    using push by (auto simp: mem_push_def split: prod.splits)
  have "rs_seq ?e \<noteq> - 1" using room by (simp add: mem_box_def rs_box_def)
  from entry_push_refines [OF mem_inv_entry [OF inv] refl this lim e']
  show ?thesis
    using inv by (simp add: st' mem_inv_insert mem_box_insert) (simp add: mem_box_def)
qed

lemma mem_pull_refines:
  assumes inv: "mem_inv st" and cur: "resolve_cursor E r cur = Inr c"
    and pull: "mem_pull E st r cur limit now = (res, st')"
  shows "mem_inv st' \<and> expiry_step now (mem_box st r) (mem_box st' r)
    \<and> res = Inr (spec_batch E r c limit now (mem_box st r) (mem_box st' r))
    \<and> (\<forall>q. q \<noteq> r \<longrightarrow> mem_box st' q = mem_box st q)"
proof (cases "bt_get st r")
  case None
  with pull inv show ?thesis
    by (auto simp: mem_pull_def mem_box_None spec_batch_def selection_def Let_def)
next
  case (Some e)
  obtain b e' where p: "entry_pull E c limit now e = (b, e')" by fastforce
  then have st': "st' = bt_insert r e' st" and res: "res = Inr b"
    using pull Some cur by (auto simp: mem_pull_def)
  from entry_pull_refines [OF mem_inv_get [OF inv Some] p] show ?thesis
    using inv by (simp add: st' res mem_inv_insert mem_box_insert mem_box_get [OF Some])
qed

lemma mem_pull_bad_cursor:
  assumes "resolve_cursor E r cur = Inl e" and "mem_pull E st r cur limit now = (res, st')"
  shows "st' = st \<and> (\<forall>b. res = Inr b \<longrightarrow> pb_items b = [] \<and> snd (mem_box st r) = [])"
  using assms by (cases "bt_get st r") (auto simp: mem_pull_def mem_box_None)

lemma mem_ack_refines:
  assumes inv: "mem_inv st" and len: "length items < 2 ^ 64"
    and ack: "mem_ack st r items = (res, st')"
  shows "mem_inv st' \<and> mem_box st' r = ack_box items (mem_box st r)
    \<and> (\<exists>out. res = Inr out \<and> spec_ack items (mem_box st r) out)
    \<and> (\<forall>q. q \<noteq> r \<longrightarrow> mem_box st' q = mem_box st q)"
proof (cases "bt_get st r")
  case None
  with ack inv show ?thesis
    by (auto simp: mem_ack_def mem_box_None spec_ack_def ack_box_def ack_count_def)
next
  case (Some e)
  obtain out e' where a: "entry_ack (remdups items) e = (out, e')" by fastforce
  then have st': "st' = bt_insert r e' st" and res: "res = Inr out"
    using ack Some by (auto simp: mem_ack_def)
  have "length (remdups items) < 2 ^ 64"
    using len length_remdups_leq [of items] by linarith
  note ar = entry_ack_refines [OF mem_inv_get [OF inv Some] _ _ this a, of items, simplified]
  have "spec_ack items (rs_box e) out"
    using ar by (simp add: spec_ack_def distinct_remdups_id)
  then show ?thesis
    using inv ar by (simp add: st' res mem_inv_insert mem_box_insert mem_box_get [OF Some])
qed

lemma expiry_step_trans:
  assumes "expiry_step now a b" and "expiry_step now b c"
  shows "expiry_step now a c"
proof -
  obtain k1 k2 where k: "snd b = filter (\<lambda>m. live now m \<or> k1 m) (snd a)"
      "snd c = filter (\<lambda>m. live now m \<or> k2 m) (snd b)"
    using assms unfolding expiry_step_def by blast
  have "snd c = filter (\<lambda>m. live now m \<or> (k1 m \<and> k2 m)) (snd a)"
    unfolding k filter_filter by (rule filter_cong) auto
  then show ?thesis
    using assms unfolding expiry_step_def by auto
qed

text \<open>What the purge loop does to one recipient: it drops a leading run of expired messages.\<close>

definition head_live :: "u64 \<Rightarrow> mailbox \<Rightarrow> bool" where
  "head_live now b \<longleftrightarrow> snd b = [] \<or> live now (hd (snd b))"

definition head_run :: "u64 \<Rightarrow> mailbox \<Rightarrow> mailbox \<Rightarrow> bool" where
  "head_run now b b' \<longleftrightarrow> (\<exists>n. snd b' = drop n (snd b) \<and> (\<forall>m\<in>set (take n (snd b)). \<not> live now m))"

lemma head_run_refl: "head_run now b b"
  unfolding head_run_def by (rule exI [of _ 0]) simp

lemma head_run_trans:
  assumes "head_run now a b" and "head_run now b c"
  shows "head_run now a c"
proof -
  obtain n k where n: "snd b = drop n (snd a)" "\<forall>m\<in>set (take n (snd a)). \<not> live now m"
    and k: "snd c = drop k (snd b)" "\<forall>m\<in>set (take k (snd b)). \<not> live now m"
    using assms by (auto simp: head_run_def)
  have "take (n + k) (snd a) = take n (snd a) @ take k (drop n (snd a))" by (simp add: take_add)
  then show ?thesis
    using n k unfolding head_run_def by (intro exI [of _ "n + k"]) (auto simp: add.commute)
qed

lemma head_run_dropWhile:
  assumes "head_run now b b'" and "head_live now b'"
  shows "snd b' = dropWhile (\<lambda>m. \<not> live now m) (snd b)"
proof -
  obtain n where n: "snd b' = drop n (snd b)" "\<forall>m\<in>set (take n (snd b)). \<not> live now m"
    using assms(1) by (auto simp: head_run_def)
  have "dropWhile (\<lambda>m. \<not> live now m) (take n (snd b) @ drop n (snd b)) = dropWhile (\<lambda>m. \<not> live now m) (drop n (snd b))"
    using n(2) by (intro dropWhile_append2) blast
  moreover have "dropWhile (\<lambda>m. \<not> live now m) (snd b') = snd b'"
    using assms(2) by (cases "snd b'") (simp_all add: head_live_def)
  ultimately show ?thesis using n(1) by simp
qed

lemma drop_seqs_take:
  assumes e: "rs_inv r e"
  shows "rs_queue (drop_seqs (map fst (take n (rs_queue e))) e) = drop n (rs_queue e)"
proof -
  let ?q = "rs_queue e" and ?ds = "map fst (take n (rs_queue e))"
  have dist: "distinct (map fst (take n ?q @ drop n ?q))"
    using keys_sorted_distinct [OF rs_inv_sorted [OF e]] by simp
  then have "distinct ?ds" and disj: "\<forall>p\<in>set (drop n ?q). fst p \<notin> set ?ds"
    by (auto simp del: append_take_drop_id)
  have "filter (\<lambda>p. fst p \<notin> set ?ds) (take n ?q) = []"
    by (rule filter_False) simp
  moreover have "filter (\<lambda>p. fst p \<notin> set ?ds) (drop n ?q) = drop n ?q"
    by (rule filter_True) (rule disj)
  ultimately have "filter (\<lambda>p. fst p \<notin> set ?ds) (take n ?q @ drop n ?q) = drop n ?q"
    by (simp only: filter_append append_Nil)
  moreover have "set ?ds \<subseteq> fst ` set ?q" using set_take_subset [of n ?q] by auto
  ultimately show ?thesis
    using drop_seqs_inv [OF e \<open>distinct ?ds\<close>] by (simp only: append_take_drop_id)
qed

lemma gc_entry_refines:
  assumes e: "rs_inv r e" and removed: "removed < target"
  shows "\<exists>n e'. gc_drop target (gc_collect now target removed (rs_queue e) []) removed e = (removed + n, e')
    \<and> rs_inv r e' \<and> expiry_step now (rs_box e) (rs_box e')
    \<and> length (rs_queue e) = length (rs_queue e') + n
    \<and> removed + n \<le> target \<and> (removed + n = target \<or> head_live now (rs_box e'))
    \<and> head_run now (rs_box e) (rs_box e')"
proof -
  let ?q = "rs_queue e"
  obtain n where ds: "gc_collect now target removed ?q [] = map fst (take n ?q)"
    and dead: "\<forall>p\<in>set (take n ?q). \<not> live now (snd p)"
    and le: "removed + length (take n ?q) \<le> target"
    and stop: "removed + length (take n ?q) = target
      \<or> (\<forall>p. n < length ?q \<and> p = ?q ! n \<longrightarrow> live now (snd p))"
    using gc_collect_spec [of removed "[]" target now ?q] removed
    unfolding list.size(3) add_0_right append_Nil by blast
  let ?ds = "map fst (take n ?q)"
  have sorted: "keys_sorted (take n ?q)"
    using rs_inv_sorted [OF e] by (simp add: take_map [symmetric] sorted_wrt_take)
  have "filter (\<lambda>p. \<not> live now (snd p)) (take n ?q) = take n ?q"
    using dead by (simp add: filter_id_conv)
  then have dsf: "?ds = map fst (filter (\<lambda>p. \<not> live now (snd p)) (take n ?q))"
    by simp
  note drop = drop_expired_refines [OF e set_take_subset sorted dsf]
  have dist: "distinct ?ds" using keys_sorted_distinct [OF sorted] .
  have sub: "set ?ds \<subseteq> fst ` set ?q" using set_take_subset [of n ?q] by auto
  have gc: "gc_drop target ?ds removed e = (removed + length ?ds, drop_seqs ?ds e)"
    using le by (intro gc_drop_spec [OF e dist sub _ removed]) simp
  note q' = drop_seqs_take [OF e, of n]
  have hl: "removed + length ?ds = target \<or> head_live now (rs_box (drop_seqs ?ds e))"
  proof (cases "n < length ?q")
    case True
    then have "hd (map snd (drop n ?q)) = snd (?q ! n)"
      by (simp add: hd_map hd_drop_conv_nth)
    with stop True show ?thesis by (auto simp: head_live_def rs_box_def q')
  next
    case False
    then show ?thesis unfolding head_live_def rs_box_def snd_conv q' by simp
  qed
  have le': "removed + length ?ds \<le> target" using le by simp
  have run: "head_run now (rs_box e) (rs_box (drop_seqs ?ds e))"
    using dead unfolding head_run_def rs_box_def snd_conv q' by (intro exI [of _ n]) (auto simp: drop_map take_map)
  show ?thesis
    by (rule exI [of _ "length ?ds"], rule exI [of _ "drop_seqs ?ds e"], unfold ds)
      (intro conjI gc le' hl run drop [THEN conjunct1] drop [THEN conjunct2, THEN conjunct1]
        drop [THEN conjunct2, THEN conjunct2])
qed

text \<open>What the loop does to the recipients it has passed.\<close>

definition gc_effect ::
  "u64 \<Rightarrow> usize \<Rightarrow> string set \<Rightarrow> usize \<Rightarrow> mem_store \<Rightarrow> usize \<Rightarrow> mem_store \<Rightarrow> bool" where
  "gc_effect now target rs removed st removed' st' \<longleftrightarrow>
     mem_inv st' \<and> removed' \<le> target
     \<and> (\<forall>r. expiry_step now (mem_box st r) (mem_box st' r))
     \<and> (\<forall>r. r \<notin> rs \<longrightarrow> mem_box st' r = mem_box st r)
     \<and> removed' + (\<Sum>r\<in>rs. length (snd (mem_box st' r))) = removed + (\<Sum>r\<in>rs. length (snd (mem_box st r)))
     \<and> (removed' = target \<or> (\<forall>r\<in>rs. head_live now (mem_box st' r)))"

lemma gc_effect_none:
  "mem_inv st \<Longrightarrow> removed \<le> target \<Longrightarrow> removed = target \<or> (\<forall>r\<in>rs. head_live now (mem_box st r)) \<Longrightarrow>
     gc_effect now target rs removed st removed st"
  by (auto simp: gc_effect_def)

lemma gc_effect_one:
  assumes inv: "mem_inv st" and lt: "removed < target" and e: "bt_get st r = Some e"
    and gc: "gc_drop target (gc_collect now target removed (rs_queue e) []) removed e = (removed1, e')"
  shows "gc_effect now target {r} removed st removed1 (bt_insert r e' st)"
proof -
  obtain n where n: "removed1 = removed + n" and e': "rs_inv r e'" "expiry_step now (rs_box e) (rs_box e')"
      "length (rs_queue e) = length (rs_queue e') + n" "removed + n \<le> target"
      "removed + n = target \<or> head_live now (rs_box e')"
    using gc_entry_refines [OF mem_inv_get [OF inv e] lt, of now] gc by auto
  have box: "mem_box (bt_insert r e' st) q = (if q = r then rs_box e' else mem_box st q)" for q
    using mem_box_insert [OF inv] .
  have len: "length (snd (rs_box e)) = length (snd (rs_box e')) + n" using e'(3) by (simp add: rs_box_def)
  show ?thesis
    using e' len mem_inv_insert [OF inv e'(1)] unfolding gc_effect_def n box
    by (auto simp: mem_box_get [OF e])
qed

lemma gc_effect_seq:
  assumes one: "gc_effect now target {r} removed st removed1 st1"
    and rest: "gc_effect now target rs removed1 st1 removed' st'" and r: "r \<notin> rs" "finite rs"
  shows "gc_effect now target (insert r rs) removed st removed' st'"
proof -
  note one = one [unfolded gc_effect_def] and rest = rest [unfolded gc_effect_def]
  let ?len = "\<lambda>st. \<Sum>q\<in>rs. length (snd (mem_box st q))"
  have "?len st1 = ?len st" using one r by (intro sum.cong) auto
  moreover have "?len st' \<le> ?len st1" using rest by (intro sum_mono expiry_step_length) blast
  moreover have box: "mem_box st' r = mem_box st1 r" using rest r by blast
  ultimately have "removed' + (length (snd (mem_box st' r)) + ?len st') = removed + (length (snd (mem_box st r)) + ?len st)"
    and "removed1 \<le> removed'"
    using one rest by simp_all
  moreover have "expiry_step now (mem_box st q) (mem_box st' q)" for q
    using one rest expiry_step_trans by blast
  ultimately show ?thesis
    using one rest r box unfolding gc_effect_def by auto
qed

lemma gc_recipients_refines:
  assumes "mem_inv st" and "distinct rs" and "removed \<le> target"
    and "gc_recipients now target rs removed st = (removed', st')"
  shows "gc_effect now target (set rs) removed st removed' st'"
  using assms
proof (induction rs arbitrary: st removed)
  case Nil
  then show ?case by (simp add: gc_effect_none)
next
  case (Cons r rs)
  show ?case
  proof (cases "removed < target")
    case False
    with Cons.prems show ?thesis by (simp add: gc_effect_none)
  next
    case lt: True
    obtain removed1 st1 where one: "gc_effect now target {r} removed st removed1 st1"
      and rest: "gc_recipients now target rs removed1 st1 = (removed', st')"
    proof (cases "bt_get st r")
      case None
      then have "gc_effect now target {r} removed st removed st"
        using Cons.prems lt by (intro gc_effect_none) (simp_all add: mem_box_None head_live_def)
      with that Cons.prems(4) None lt show ?thesis by simp
    next
      case (Some e)
      obtain removed1 e' where gc: "gc_drop target (gc_collect now target removed (rs_queue e) []) removed e = (removed1, e')"
        by fastforce
      from that [OF gc_effect_one [OF Cons.prems(1) lt Some gc]] show ?thesis
        using Cons.prems(4) Some lt gc by simp
    qed
    have "gc_effect now target (set rs) removed1 st1 removed' st'"
      using one Cons.prems(2) by (intro Cons.IH rest) (simp_all add: gc_effect_def)
    from gc_effect_seq [OF one this] show ?thesis using Cons.prems(2) by simp
  qed
qed

text \<open>
  When deadlines never decrease along the queue, a store that only drops expired messages and
  leaves a live head has dropped them all.
\<close>

lemma expiry_sorted_live:
  assumes "expiry_step now b b'" and "head_live now b'" and "sorted (map qm_deadline_ms (snd b))"
  shows "snd b' = filter (live now) (snd b)"
proof -
  obtain keep where q: "snd b' = filter (\<lambda>m. live now m \<or> keep m) (snd b)"
    using assms(1) unfolding expiry_step_def by blast
  have "sorted (map qm_deadline_ms (snd b'))"
    unfolding q by (intro sorted_filter assms(3))
  then have "\<forall>m\<in>set (snd b'). live now m"
    using assms(2) by (cases "snd b'") (auto simp: head_live_def live_def)
  then have "snd b' = filter (live now) (snd b')"
    by simp
  also have "\<dots> = filter (live now) (snd b)"
    unfolding q filter_filter by (rule filter_cong) auto
  finally show ?thesis .
qed

text \<open>A recipient whose queue starts with a live message is passed over.\<close>

lemma gc_collect_head_live:
  "head_live now (rs_box e) \<Longrightarrow> gc_collect now target removed (rs_queue e) [] = []"
  by (cases "rs_queue e") (auto simp: head_live_def live_def rs_box_def)

lemma gc_recipients_head_live:
  assumes "mem_inv st" and "head_live now (mem_box st r)"
    and "gc_recipients now target rs removed st = (removed', st')"
  shows "mem_box st' r = mem_box st r"
  using assms
proof (induction rs arbitrary: st removed)
  case (Cons q rs)
  show ?case
  proof (cases "target \<le> removed \<or> bt_get st q = None")
    case True
    with Cons.prems Cons.IH [OF Cons.prems(1,2)] show ?thesis by (auto split: if_splits)
  next
    case False
    then obtain e where e: "bt_get st q = Some e" and lt: "removed < target" by auto
    have inv: "rs_inv q e" using mem_inv_get [OF Cons.prems(1) e] .
    obtain n e' where gc: "gc_drop target (gc_collect now target removed (rs_queue e) []) removed e = (removed + n, e')"
      and e': "rs_inv q e'"
      using gc_entry_refines [OF inv lt, of now] by blast
    have same: "mem_box (bt_insert q e' st) r = mem_box st r"
    proof (cases "q = r")
      case True
      then have box: "mem_box st r = rs_box e" using e by (simp add: mem_box_get)
      then have "e' = e"
        using gc gc_collect_head_live [of now e] Cons.prems(2) by simp
      with True box show ?thesis
        by (simp add: mem_box_insert [OF Cons.prems(1)])
    qed (simp add: mem_box_insert [OF Cons.prems(1)])
    have "gc_recipients now target rs (removed + n) (bt_insert q e' st) = (removed', st')"
      using Cons.prems(3) e lt gc by simp
    from Cons.IH [OF mem_inv_insert [OF Cons.prems(1) e'] _ this] show ?thesis
      using Cons.prems(2) by (simp add: same)
  qed
qed simp

lemma mem_purge_head_live:
  "mem_inv st \<Longrightarrow> mem_purge_expired st now n = (res, st') \<Longrightarrow> head_live now (mem_box st r) \<Longrightarrow>
     mem_box st' r = mem_box st r"
  by (auto simp: mem_purge_expired_def split: prod.splits dest: gc_recipients_head_live)

text \<open>Every queue loses a leading run of expired messages.\<close>

lemma gc_recipients_head_run:
  assumes "mem_inv st" and "gc_recipients now target rs removed st = (removed', st')"
  shows "head_run now (mem_box st r) (mem_box st' r)"
  using assms
proof (induction rs arbitrary: st removed)
  case (Cons q rs)
  show ?case
  proof (cases "target \<le> removed \<or> bt_get st q = None")
    case True
    with Cons.prems Cons.IH [OF Cons.prems(1)] show ?thesis by (auto simp: head_run_refl split: if_splits)
  next
    case False
    then obtain e where e: "bt_get st q = Some e" and lt: "removed < target" by auto
    obtain n e' where gc: "gc_drop target (gc_collect now target removed (rs_queue e) []) removed e = (removed + n, e')"
      and e': "rs_inv q e'" "head_run now (rs_box e) (rs_box e')"
      using gc_entry_refines [OF mem_inv_get [OF Cons.prems(1) e] lt, of now] by blast
    have "head_run now (mem_box st r) (mem_box (bt_insert q e' st) r)"
      using e'(2) head_run_refl by (simp add: mem_box_insert [OF Cons.prems(1)] mem_box_get [OF e])
    moreover have "gc_recipients now target rs (removed + n) (bt_insert q e' st) = (removed', st')"
      using Cons.prems(2) e lt gc by simp
    ultimately show ?thesis
      using Cons.IH [OF mem_inv_insert [OF Cons.prems(1) e'(1)]] head_run_trans by blast
  qed
qed (simp add: head_run_refl)

lemma mem_purge_head_run:
  "mem_inv st \<Longrightarrow> mem_purge_expired st now n = (res, st') \<Longrightarrow> head_run now (mem_box st r) (mem_box st' r)"
  by (auto simp: mem_purge_expired_def split: prod.splits dest: gc_recipients_head_run)

text \<open>The purge creates and forgets no recipient.\<close>

lemma gc_recipients_keys:
  "gc_recipients now target rs removed st = (removed', st') \<Longrightarrow> fst ` set st' = fst ` set st"
proof (induction rs arbitrary: st removed)
  case (Cons r rs)
  have mem: "bt_get st r = Some e \<Longrightarrow> fst ` set (bt_insert r e' st) = fst ` set st" for e e'
    by (simp add: fst_bt_insert) (metis bt_get_def domI dom_map_of_conv_image_fst insert_absorb)
  show ?case
    using Cons.prems Cons.IH mem by (auto split: if_splits option.splits prod.splits)
qed simp

lemma mem_purge_keys: "mem_purge_expired st now n = (res, st') \<Longrightarrow> fst ` set st' = fst ` set st"
  using gc_recipients_keys by (simp add: mem_purge_expired_def split: prod.splits)

lemma mem_purge_refines:
  assumes inv: "mem_inv st" and purge: "mem_purge_expired st now n = (res, st')"
  shows "\<exists>k. res = Inr k \<and> mem_inv st' \<and> k \<le> min n 1024
    \<and> (\<forall>r. expiry_step now (mem_box st r) (mem_box st' r))
    \<and> k + (\<Sum>r\<in>fst ` set st. length (snd (mem_box st' r)))
        = (\<Sum>r\<in>fst ` set st. length (snd (mem_box st r)))
    \<and> (k = min n 1024 \<or> (\<forall>r. head_live now (mem_box st' r)))"
proof -
  obtain k where gc: "gc_recipients now (min n gc_batch_limit) (map fst st) 0 st = (k, st')"
    and res: "res = Inr k"
    using purge by (auto simp: mem_purge_expired_def split: prod.splits)
  have dist: "distinct (map fst st)"
    using inv by (simp add: mem_inv_def bt_ok_def keys_sorted_distinct)
  note g = gc_recipients_refines [OF inv dist le0 gc, unfolded gc_effect_def]
  have "head_live now (mem_box st' r)" if "\<forall>r\<in>set (map fst st). head_live now (mem_box st' r)" for r
  proof (cases "r \<in> fst ` set st")
    case False
    then have "bt_get st r = None" by (simp add: bt_get_def map_of_eq_None_iff)
    moreover have "mem_box st' r = mem_box st r" using g False by simp
    ultimately show ?thesis by (simp add: mem_box_None head_live_def)
  qed (use that in auto)
  with g res show ?thesis by (auto simp: gc_batch_limit_def)
qed

interpretation mem: relay_system E "mem_ops E" mem_inv mem_box mem_new for E
proof unfold_locales
  fix s :: mem_store and r :: string
  assume "mem_inv s"
  then show "box_ok r (mem_box s r)" by (rule mem_box_ok)
next
  fix s s' m limits res
  assume "mem_inv s" "max_queue_bytes_per_user limits \<noteq> - 1"
    "fst (mem_box s (im_recipient m)) \<noteq> - 1" "op_push (mem_ops E) s m limits = (res, s')"
  then show "mem_inv s' \<and> spec_push limits m (mem_box s (im_recipient m)) = (res, mem_box s' (im_recipient m))
      \<and> (\<forall>r. addressable r \<longrightarrow> r \<noteq> im_recipient m \<longrightarrow> mem_box s' r = mem_box s r)"
    using mem_push_refines [of s limits m res s'] by (simp add: mem_ops_def)
next
  fix s s' r cur c limit now res
  assume "mem_inv s" "resolve_cursor E r cur = Inr c" "op_pull (mem_ops E) s r cur limit now = (res, s')"
  then show "mem_inv s' \<and> expiry_step now (mem_box s r) (mem_box s' r)
      \<and> res = Inr (spec_batch E r c limit now (mem_box s r) (mem_box s' r))
      \<and> (\<forall>q. addressable q \<longrightarrow> q \<noteq> r \<longrightarrow> mem_box s' q = mem_box s q)"
    using mem_pull_refines [of s E r cur c limit now res s'] by (simp add: mem_ops_def)
next
  fix s s' r cur e limit now res
  assume "resolve_cursor E r cur = Inl e" "op_pull (mem_ops E) s r cur limit now = (res, s')"
  then show "s' = s \<and> (\<forall>b. res = Inr b \<longrightarrow> pb_items b = [] \<and> snd (mem_box s r) = [])"
    using mem_pull_bad_cursor [of E r cur e s limit now res s'] by (simp add: mem_ops_def)
next
  fix s s' r items res
  assume "mem_inv s" "length items < 2 ^ 64" "op_ack (mem_ops E) s r items = (res, s')"
  then show "mem_inv s' \<and> mem_box s' r = ack_box items (mem_box s r)
      \<and> (\<exists>out. res = Inr out \<and> spec_ack items (mem_box s r) out)
      \<and> (\<forall>q. addressable q \<longrightarrow> q \<noteq> r \<longrightarrow> mem_box s' q = mem_box s q)"
    using mem_ack_refines [of s items r res s'] by (simp add: mem_ops_def)
next
  fix s s' now n res
  assume "mem_inv s" "op_purge (mem_ops E) s now n = (res, s')"
  then show "mem_inv s' \<and> (\<exists>k. res = Inr k \<and> k \<le> min n 1024)
      \<and> (\<forall>r. addressable r \<longrightarrow> expiry_step now (mem_box s r) (mem_box s' r))"
    using mem_purge_refines [of s now n res s'] by (auto simp: mem_ops_def)
qed simp_all

interpretation mem_std: relay_service std_externals "mem_ops std_externals" mem_inv mem_box mem_new
  by unfold_locales

end
