(* ===== verification/Mem_Props.thy ===== *)
theory Mem_Props
  imports Mem_Contract
begin

text \<open>
  The properties of the in-memory backend, each with a witness at a concrete store: messages
  for \<open>alice\<close> of three bytes each, in the default limits.
\<close>

section \<open>Sample values for the witnesses\<close>

definition sample_meta :: message_meta where
  "sample_meta = \<lparr>mm_kind = ''msg'', mm_total_len = 3, mm_chunk_index = 0, mm_chunk_count = 1,
     mm_sent_ms = 0\<rparr>"

definition sample_msg :: "uuid \<Rightarrow> u64 \<Rightarrow> inbound_message" where
  "sample_msg i deadline =
     \<lparr>im_recipient = ''alice'', im_message_id = i, im_ciphertext_b64 = ''QUJD'',
      im_meta = sample_meta, im_payload_bytes = 3, im_arrival_ms = 1000, im_deadline_ms = deadline\<rparr>"

text \<open>The store after one message with key 1 and deadline 2000 was pushed.\<close>

definition sample_one :: mem_store where
  "sample_one = snd (mem_push mem_new (sample_msg 1 2000) limits_default)"

lemma sample_addressable: "addressable ''alice''"
  by code_simp

lemma sample_msg_sel [simp]:
  "im_recipient (sample_msg i d) = ''alice''"
  "im_deadline_ms (sample_msg i d) = d"
  "im_payload_bytes (sample_msg i d) = 3"
  "inbound_key (sample_msg i d) = (i, 0)"
  by (simp_all add: sample_msg_def inbound_key_def sample_meta_def)

lemma limits_default_sel [simp]:
  "max_queue_bytes_per_user limits_default = 1073741824"
  "max_messages_per_user limits_default = 200000"
  "max_message_bytes limits_default = 8388608"
  "pull_batch_max limits_default = 256"
  "message_ttl_seconds limits_default = 1209600"
  by (simp_all add: limits_default_def)

lemma sample_push:
  "mem_push mem_new (sample_msg i d) limits_default
    = (Inr \<lparr>ps_stored = True, ps_duplicate = False, ps_queue_len = 1, ps_queue_bytes = 3\<rparr>,
       [(''alice'', \<lparr>rs_seq = 1, rs_queue = [(0, stored_message (sample_msg i d) 0)],
          rs_idx = [(i, 0) \<mapsto> 0], rs_quota_bytes = 3, rs_quota_count = 1\<rparr>)])"
  by (simp add: mem_push_def entry_push_def mem_new_def entry_or_default_def
      recipient_default_def sat_add_def)

lemma sample_one_eq:
  "sample_one = [(''alice'', \<lparr>rs_seq = 1, rs_queue = [(0, stored_message (sample_msg 1 2000) 0)],
          rs_idx = [(1, 0) \<mapsto> 0], rs_quota_bytes = 3, rs_quota_count = 1\<rparr>)]"
  by (simp add: sample_one_def sample_push)

lemma sample_one_box: "mem_box sample_one ''alice'' = (1, [stored_message (sample_msg 1 2000) 0])"
  by (simp add: sample_one_eq mem_box_def entry_or_default_def bt_get_def rs_box_def)

lemma sample_one_reached: "reached (mem_ops std_externals) limits_default mem_new 1 sample_one"
proof -
  have "reached (mem_ops std_externals) limits_default mem_new (Suc 0)
      (event_state (mem_ops std_externals) limits_default (EvPush (sample_msg 1 2000)) mem_new)"
    by (intro reached.step reached.start) (simp add: sample_addressable)
  then show ?thesis by (simp add: mem_ops_def sample_one_def)
qed

lemma sample_one_inv: "mem_inv sample_one"
  using mem.reached_inv [OF sample_one_reached] by simp

section \<open>Delivery\<close>

lemma mem_service: "cursor_codec E \<Longrightarrow> relay_service E (mem_ops E) mem_inv mem_box mem_new"
  by (intro relay_service.intro mem.relay_system_axioms)

text \<open>
  C5. An accepted message is delivered. From any state the in-memory store reaches, once
  \<open>push\<close> has answered \<open>stored\<close>, and after any further operations that neither acknowledge
  the message nor run at or past its deadline, a client that pulls page after page with the
  cursors it is given receives it, in a list that is exactly the unexpired queue in arrival
  order.
\<close>

theorem mem_accepted_delivered:
  assumes "cursor_codec E" and "reached (mem_ops E) limits mem_new k s"
    and "k + length es + 1 < 2 ^ 64 - 1" and "max_queue_bytes_per_user limits \<noteq> u64_max"
    and "addressable (im_recipient m)"
    and "mem_push s m limits = (Inr res, s1)" and "ps_stored res"
    and "\<forall>e\<in>set es. event_ok e
      \<and> spares (im_recipient m) (stored_message m (fst (mem_box s (im_recipient m)))) e"
    and "now < im_deadline_ms m" and "0 < limit"
  shows "let s2 = run_events (mem_ops E) limits es s1; r = im_recipient m in
    \<exists>items s3. drain (mem_ops E) r limit now (Suc (length (snd (mem_box s2 r)))) None s2 = Some (items, s3)
      \<and> stored_message m (fst (mem_box s r)) \<in> set items
      \<and> items = filter (live now) (snd (mem_box s2 r))"
proof -
  have "op_push (mem_ops E) s m limits = (Inr res, s1)"
    using assms(6) by (simp add: mem_ops_def)
  from relay_service.accepted_delivered
    [OF mem_service [OF assms(1)] assms(2-5) this assms(7-10)]
  show ?thesis .
qed

theorem mem_accepted_delivered_witness:
  "\<exists>items s3. drain (mem_ops std_externals) ''alice'' 10 1600
      (Suc (length (snd (mem_box (run_events (mem_ops std_externals) limits_default
        [EvPurge 1500 10, EvPush (sample_msg 2 1700)] sample_one) ''alice'')))) None
      (run_events (mem_ops std_externals) limits_default
        [EvPurge 1500 10, EvPush (sample_msg 2 1700)] sample_one) = Some (items, s3)
    \<and> stored_message (sample_msg 1 2000) 0 \<in> set items"
proof -
  have push: "mem_push mem_new (sample_msg 1 2000) limits_default
      = (Inr \<lparr>ps_stored = True, ps_duplicate = False, ps_queue_len = 1, ps_queue_bytes = 3\<rparr>, sample_one)"
    by (simp add: sample_one_def sample_push)
  show ?thesis
    using mem_accepted_delivered [OF std.cursor_codec_axioms reached.start _ _ _ push,
        of "[EvPurge 1500 10, EvPush (sample_msg 2 1700)]" 1600 10]
    by (auto simp: sample_addressable live_def Let_def simp del: drain.simps run_events.simps)
qed

text \<open>
  C9. Paging is complete: from any state of the invariant, following the cursors from the
  start returns every unexpired message of the recipient exactly once and in arrival order,
  after at most one pull more than there are messages; it neither fails nor runs on.
\<close>

theorem mem_drain_complete:
  assumes "cursor_codec E" and "mem_inv s" and "addressable r" and "0 < limit"
  shows "\<exists>s'. drain (mem_ops E) r limit now (Suc (length (snd (mem_box s r)))) None s
    = Some (filter (live now) (snd (mem_box s r)), s')"
  by (rule relay_pages.drain_complete
      [OF relay_paging.pages [OF relay_paging.intro [OF mem.relay_store_axioms assms(1)]] assms(2-4)])

theorem mem_drain_complete_witness:
  "\<exists>s'. drain (mem_ops std_externals) ''alice'' 1 1500 (Suc 1) None sample_one
    = Some ([stored_message (sample_msg 1 2000) 0], s')"
  using mem_drain_complete [OF std.cursor_codec_axioms sample_one_inv sample_addressable, of 1 1500]
  by (simp add: sample_one_box live_def del: drain.simps)

section \<open>The invariant in reached states\<close>

text \<open>
  C12. In every state the in-memory store reaches from the empty one, the running quota of each
  recipient is exactly the number and the payload bytes of its queue, the duplicate index is
  exactly the keys of its queue, and the queue is within the configured limits.
\<close>

theorem mem_reached_quota_exact:
  assumes "reached (mem_ops E) limits mem_new k s" and "k < 2 ^ 64 - 1"
    and "max_queue_bytes_per_user limits \<noteq> u64_max"
    and "addressable r" and "bt_get s r = Some e"
  shows "unat (rs_quota_count e) = length (rs_queue e)
    \<and> unat (rs_quota_bytes e) = box_bytes (map snd (rs_queue e))
    \<and> (\<forall>key seq. rs_idx e key = Some seq \<longleftrightarrow> (\<exists>m. (seq, m) \<in> set (rs_queue e) \<and> msg_key m = key))
    \<and> rs_quota_count e \<le> max_messages_per_user limits
    \<and> rs_quota_bytes e \<le> max_queue_bytes_per_user limits"
proof -
  have "mem_inv s" and within: "within_limits limits (mem_box s r)"
    using mem.reached_inv [OF assms(1-3)] assms(4) by blast+
  then have e: "rs_inv r e" using mem_inv_get assms(5) by blast
  then have u: "unat (rs_quota_count e) = length (rs_queue e)"
      "unat (rs_quota_bytes e) = box_bytes (map snd (rs_queue e))"
    by (simp_all add: rs_inv_def)
  have "length (rs_queue e) \<le> unat (max_messages_per_user limits)
      \<and> box_bytes (map snd (rs_queue e)) \<le> unat (max_queue_bytes_per_user limits)"
    using within by (simp add: mem_box_get [OF assms(5)] within_limits_def rs_box_def)
  then show ?thesis
    using rs_inv_idx [OF e] u by (simp add: word_le_nat_alt)
qed

theorem mem_reached_quota_exact_witness:
  "unat (3 :: u64) = box_bytes [stored_message (sample_msg 1 2000) 0]"
proof -
  have "bt_get sample_one ''alice'' = Some \<lparr>rs_seq = 1,
      rs_queue = [(0, stored_message (sample_msg 1 2000) 0)],
      rs_idx = [(1, 0) \<mapsto> 0], rs_quota_bytes = 3, rs_quota_count = 1\<rparr>"
    by (simp add: sample_one_eq bt_get_def)
  from mem_reached_quota_exact [OF sample_one_reached _ _ sample_addressable this] show ?thesis
    by simp
qed

section \<open>Push\<close>

text \<open>
  C14. What a push does, on each of its branches. A message whose key is queued changes nothing
  and is reported as a duplicate; one that would exceed the count or the byte limit changes
  nothing and is refused with \<open>QuotaExceeded\<close>; any other is appended to its recipient's queue
  under the next sequence number, and the answer carries the new length and byte count. No
  other recipient's mailbox is touched.
\<close>

theorem mem_push_outcome:
  assumes "mem_inv s" and "max_queue_bytes_per_user limits \<noteq> u64_max"
    and "mem_box s (im_recipient m) = (n, q)" and "n \<noteq> u64_max"
    and "mem_push s m limits = (res, s')"
  shows "mem_inv s' \<and> (\<forall>r. r \<noteq> im_recipient m \<longrightarrow> mem_box s' r = mem_box s r) \<and>
    (if inbound_key m \<in> msg_key ` set q then
       mem_box s' (im_recipient m) = (n, q)
       \<and> res = Inr \<lparr>ps_stored = False, ps_duplicate = True, ps_queue_len = word_of_nat (length q),
                   ps_queue_bytes = word_of_nat (box_bytes q)\<rparr>
     else if unat (max_messages_per_user limits) < length q + 1
       \<or> unat (max_queue_bytes_per_user limits) < box_bytes q + unat (im_payload_bytes m) then
       mem_box s' (im_recipient m) = (n, q) \<and> res = Inl QuotaExceeded
     else
       mem_box s' (im_recipient m) = (n + 1, q @ [stored_message m n])
       \<and> res = Inr \<lparr>ps_stored = True, ps_duplicate = False, ps_queue_len = word_of_nat (length q + 1),
                   ps_queue_bytes = word_of_nat (box_bytes q + unat (im_payload_bytes m))\<rparr>)"
proof -
  have "spec_push limits m (n, q) = (res, mem_box s' (im_recipient m))"
    and "mem_inv s' \<and> (\<forall>r. r \<noteq> im_recipient m \<longrightarrow> mem_box s' r = mem_box s r)"
    using mem_push_refines [of s limits m res s'] assms by simp_all
  then show ?thesis by (auto simp: Let_def split: if_splits)
qed

theorem mem_push_outcome_witness:
  "mem_box (snd (mem_push sample_one (sample_msg 2 1700) limits_default)) ''alice''
    = (2, [stored_message (sample_msg 1 2000) 0, stored_message (sample_msg 2 1700) 1])"
  using mem_push_outcome [OF sample_one_inv, of limits_default "sample_msg 2 1700" 1
      "[stored_message (sample_msg 1 2000) 0]" "fst (mem_push sample_one (sample_msg 2 1700) limits_default)"
      "snd (mem_push sample_one (sample_msg 2 1700) limits_default)"]
  by (simp add: sample_one_box)

text \<open>
  Pushing a message that is already queued is idempotent in every reached state: the
  answer says \<open>duplicate\<close> and not \<open>stored\<close>, and every mailbox stays as it is.
\<close>

theorem mem_duplicate_push:
  assumes "cursor_codec E" and "reached (mem_ops E) limits mem_new k s" and "k < 2 ^ 64 - 1"
    and "max_queue_bytes_per_user limits \<noteq> u64_max" and "addressable (im_recipient m)"
    and "mem_push s m limits = (Inr res, s1)" and "k + 1 < 2 ^ 64 - 1"
    and "mem_push s1 m' limits = (res', s2)"
    and "im_recipient m' = im_recipient m" and "inbound_key m' = inbound_key m"
  shows "(\<exists>ps. res' = Inr ps \<and> \<not> ps_stored ps \<and> ps_duplicate ps)
    \<and> (\<forall>r. addressable r \<longrightarrow> mem_box s2 r = mem_box s1 r)"
proof -
  have reach1: "reached (mem_ops E) limits mem_new (Suc k) s1"
    using reached.step [OF assms(2), of "EvPush m"] assms(5,6) by (simp add: mem_ops_def)
  have inv: "mem_inv s" and room: "fst (mem_box s (im_recipient m)) \<noteq> u64_max"
    using mem.reached_inv [OF assms(2-4)] mem.reached_room [OF assms(2-5)] by simp_all
  have "spec_push limits m (mem_box s (im_recipient m)) = (Inr res, mem_box s1 (im_recipient m))"
    using mem_push_refines [OF inv assms(4) room assms(6)] by simp
  then have dup: "inbound_key m' \<in> msg_key ` set (snd (mem_box s1 (im_recipient m')))"
    using spec_push_key assms(9,10) by simp
  have op: "op_push (mem_ops E) s1 m' limits = (res', s2)"
    using assms(8) by (simp add: mem_ops_def)
  show ?thesis
    by (rule relay_service.duplicate_push [OF mem_service [OF assms(1)] reach1 _ assms(4) _ dup op])
      (use assms(5,7,9) in simp_all)
qed

theorem mem_duplicate_push_witness:
  "\<exists>ps. fst (mem_push sample_one (sample_msg 1 9000) limits_default) = Inr ps \<and> ps_duplicate ps"
  using mem_duplicate_push [OF std.cursor_codec_axioms reached.start, of limits_default "sample_msg 1 2000"
      _ sample_one "sample_msg 1 9000" "fst (mem_push sample_one (sample_msg 1 9000) limits_default)"
      "snd (mem_push sample_one (sample_msg 1 9000) limits_default)"] sample_push [of 1 2000]
  by (auto simp: sample_addressable sample_one_def)

section \<open>Pull\<close>

text \<open>
  C15. What a pull with a valid cursor does. It returns the first \<open>min limit (2^32 - 1)\<close> of the
  unexpired messages behind the cursor, in arrival order; a next cursor exactly when some are
  left over; and it removes from the store only messages of this recipient whose deadline has
  passed, keeping the order of the rest.
\<close>

theorem mem_pull_outcome:
  assumes "mem_inv s" and "resolve_cursor E r cur = Inr c" and "0 < limit"
    and "mem_pull E s r cur limit now = (res, s')"
  shows "\<exists>b. res = Inr b
    \<and> pb_items b = take (unat (min limit 4294967295)) (selection c now (snd (mem_box s r)))
    \<and> (pb_next_cursor b \<noteq> None \<longleftrightarrow> unat (min limit 4294967295) < length (selection c now (snd (mem_box s r))))
    \<and> (\<forall>q. q \<noteq> r \<longrightarrow> mem_box s' q = mem_box s q)
    \<and> mem_inv s' \<and> fst (mem_box s' r) = fst (mem_box s r)
    \<and> (\<exists>keep. snd (mem_box s' r) = filter (\<lambda>m. now < qm_deadline_ms m \<or> keep m) (snd (mem_box s r)))
    \<and> pb_remaining_estimate b = word_of_nat (length (snd (mem_box s' r)) - length (pb_items b))"
proof -
  let ?sel = "selection c now (snd (mem_box s r))" and ?b = "spec_batch E r c limit now (mem_box s r) (mem_box s' r)"
  note p = mem_pull_refines [OF assms(1,2,4)]
  have pos: "0 < unat (min limit 4294967295)"
    using assms(3) by (simp add: unat_gt_0 min_def word_gt_0)
  have "pb_next_cursor ?b \<noteq> None \<longleftrightarrow> unat (min limit 4294967295) < length ?sel"
    using pos by (cases "?sel = []") (auto simp: spec_batch_def Let_def page_limit_def)
  moreover have "pb_items ?b = take (unat (min limit 4294967295)) ?sel"
    by (simp add: spec_batch_def Let_def page_limit_def)
  moreover have "pb_remaining_estimate ?b = word_of_nat (length (snd (mem_box s' r)) - length (pb_items ?b))"
    by (simp only: spec_batch_def Let_def pull_batch.simps)
  ultimately show ?thesis
    using p unfolding expiry_step_def live_def by blast
qed

theorem mem_pull_outcome_witness:
  "\<exists>b. fst (mem_pull std_externals sample_one ''alice'' None 5 1500) = Inr b
     \<and> pb_items b = [stored_message (sample_msg 1 2000) 0]"
  using mem_pull_outcome [OF sample_one_inv, of std_externals "''alice''" None None 5 1500
      "fst (mem_pull std_externals sample_one ''alice'' None 5 1500)"
      "snd (mem_pull std_externals sample_one ''alice'' None 5 1500)"]
  by (auto simp: resolve_cursor_def sample_one_box selection_def after_cursor_def live_def)

section \<open>Acknowledge\<close>

text \<open>
  C18. An acknowledgement removes exactly the named messages of its recipient: afterwards the
  queue is the old one without the messages whose id and chunk index occur in the request,
  \<open>deleted\<close> is how many there were, \<open>remaining\<close> how many are left, and for a request
  without repetitions \<open>missing\<close> is the number of items that named nothing. Other recipients
  keep their mailboxes.
\<close>

theorem mem_ack_outcome:
  assumes "mem_inv s" and "length items < 2 ^ 64" and "mem_ack s r items = (res, s')"
  shows "mem_inv s' \<and> (\<forall>q. q \<noteq> r \<longrightarrow> mem_box s' q = mem_box s q)
    \<and> fst (mem_box s' r) = fst (mem_box s r)
    \<and> snd (mem_box s' r) = filter (\<lambda>m. msg_key m \<notin> ack_key ` set items) (snd (mem_box s r))
    \<and> (\<exists>out. res = Inr out
      \<and> ao_deleted out = word_of_nat (length (filter (\<lambda>m. msg_key m \<in> ack_key ` set items) (snd (mem_box s r))))
      \<and> ao_remaining out = word_of_nat (length (snd (mem_box s' r)))
      \<and> (distinct items \<longrightarrow> ao_deleted out + ao_missing out = word_of_nat (length items)))"
proof -
  have acked: "acked items = (\<lambda>m. msg_key m \<in> ack_key ` set items)"
    by (simp add: acked_def fun_eq_iff)
  have inv': "mem_inv s'" and box: "mem_box s' r = ack_box items (mem_box s r)"
    and frame: "\<forall>q. q \<noteq> r \<longrightarrow> mem_box s' q = mem_box s q"
    using mem_ack_refines [OF assms] by blast+
  obtain out where res: "res = Inr out" and out: "spec_ack items (mem_box s r) out"
    using mem_ack_refines [OF assms] by blast
  have "ao_deleted out + ao_missing out = word_of_nat (length items)" if "distinct items"
  proof -
    have "ack_count items (mem_box s r) \<le> length items"
      using ack_count_le [OF mem_box_ok [OF assms(1)]] .
    then have "word_of_nat (length items) = (word_of_nat (ack_count items (mem_box s r))
        + word_of_nat (length items - ack_count items (mem_box s r)) :: u64)"
      by (simp flip: of_nat_add)
    then show ?thesis using out that by (simp add: spec_ack_def)
  qed
  then show ?thesis
    using inv' frame out unfolding box res
    by (auto simp: ack_box_def spec_ack_def ack_count_def acked)
qed

theorem mem_ack_outcome_witness:
  "snd (mem_box (snd (mem_ack sample_one ''alice''
      [\<lparr>ai_message_id = 1, ai_chunk_index = 0\<rparr>, \<lparr>ai_message_id = 7, ai_chunk_index = 0\<rparr>])) ''alice'') = []"
  using mem_ack_outcome [OF sample_one_inv, of
      "[\<lparr>ai_message_id = 1, ai_chunk_index = 0\<rparr>, \<lparr>ai_message_id = 7, ai_chunk_index = 0\<rparr>]" "''alice''"
      "fst (mem_ack sample_one ''alice'' [\<lparr>ai_message_id = 1, ai_chunk_index = 0\<rparr>, \<lparr>ai_message_id = 7, ai_chunk_index = 0\<rparr>])"
      "snd (mem_ack sample_one ''alice'' [\<lparr>ai_message_id = 1, ai_chunk_index = 0\<rparr>, \<lparr>ai_message_id = 7, ai_chunk_index = 0\<rparr>])"]
  by (simp add: sample_one_box ack_key_def)

text \<open>
  The outcome of an acknowledgement does not depend on the order in which the hash set
  of items happens to be walked: any two enumerations of the same items leave the same state
  and the same counters.
\<close>

theorem ack_order_irrelevant:
  assumes "rs_inv r e" and "distinct xs" and "distinct ys" and "set xs = set ys"
    and "length xs < 2 ^ 64"
  shows "entry_ack xs e = entry_ack ys e"
proof -
  obtain o1 e1 o2 e2 where a: "entry_ack xs e = (o1, e1)" "entry_ack ys e = (o2, e2)"
    by fastforce
  have len: "length ys = length xs" using assms(2-4) by (metis distinct_card)
  note x = entry_ack_refines [OF assms(1,2) refl assms(5) a(1)]
  have y: "rs_inv r e2 \<and> rs_box e2 = ack_box xs (rs_box e)
    \<and> o2 = \<lparr>ao_deleted = word_of_nat (ack_count xs (rs_box e)),
            ao_missing = word_of_nat (length ys - ack_count xs (rs_box e)),
            ao_remaining = word_of_nat (length (snd (ack_box xs (rs_box e))))\<rparr>"
    using assms(4,5) len by (intro entry_ack_refines [OF assms(1,3) _ _ a(2)]) simp_all
  have "e1 = e2"
    using x y by (intro rs_inv_box_unique [of r]) simp_all
  with x y show ?thesis unfolding a len by simp
qed

theorem ack_order_irrelevant_witness:
  "entry_ack [\<lparr>ai_message_id = 1, ai_chunk_index = 0\<rparr>, \<lparr>ai_message_id = 7, ai_chunk_index = 0\<rparr>]
      (entry_or_default sample_one ''alice'')
   = entry_ack [\<lparr>ai_message_id = 7, ai_chunk_index = 0\<rparr>, \<lparr>ai_message_id = 1, ai_chunk_index = 0\<rparr>]
      (entry_or_default sample_one ''alice'')"
  by (rule ack_order_irrelevant [OF mem_inv_entry [OF sample_one_inv]]) auto

text \<open>
  Acknowledging is idempotent: repeating a request deletes nothing more, leaves the
  mailbox as the first one did, and none of the named messages is left.
\<close>

theorem mem_ack_idempotent:
  assumes "cursor_codec E" and "mem_inv s" and "addressable r" and "length items < 2 ^ 64"
    and "mem_ack s r items = (res1, s1)" and "mem_ack s1 r items = (res2, s2)"
  shows "\<exists>out1 out2. res1 = Inr out1 \<and> res2 = Inr out2 \<and> ao_deleted out2 = 0
    \<and> ao_remaining out2 = ao_remaining out1 \<and> mem_box s2 r = mem_box s1 r
    \<and> (\<forall>m\<in>set (snd (mem_box s1 r)). \<not> acked items m)"
  by (rule relay_service.ack_again [OF mem_service [OF assms(1)] assms(2-4)])
    (simp_all add: mem_ops_def assms(5,6))

theorem mem_ack_idempotent_witness:
  "\<exists>out. fst (mem_ack (snd (mem_ack sample_one ''alice'' [\<lparr>ai_message_id = 1, ai_chunk_index = 0\<rparr>]))
      ''alice'' [\<lparr>ai_message_id = 1, ai_chunk_index = 0\<rparr>]) = Inr out \<and> ao_deleted out = 0"
  using mem_ack_idempotent [OF std.cursor_codec_axioms sample_one_inv sample_addressable, of
      "[\<lparr>ai_message_id = 1, ai_chunk_index = 0\<rparr>]"]
  by (metis (no_types, lifting) One_nat_def length_Cons list.size(3) one_less_numeral_iff
      one_less_power prod.collapse semiring_norm(76) zero_less_numeral)

section \<open>Purge\<close>

text \<open>
  C20. A purge of at most \<open>n\<close> messages removes at most \<open>min n 1024\<close>, answers exactly how many
  it removed, removes only messages whose deadline has passed, keeps the order of the rest and
  every counter, and stops short of its limit only when no queue starts with an expired
  message any more.
\<close>

theorem mem_purge_outcome:
  assumes "mem_inv s" and "mem_purge_expired s now n = (res, s')"
  shows "\<exists>k. res = Inr k \<and> mem_inv s' \<and> k \<le> min n 1024
    \<and> (\<forall>r. fst (mem_box s' r) = fst (mem_box s r)
      \<and> (\<exists>keep. snd (mem_box s' r) = filter (\<lambda>m. now < qm_deadline_ms m \<or> keep m) (snd (mem_box s r))))
    \<and> k + (\<Sum>r\<in>fst ` set s. length (snd (mem_box s' r))) = (\<Sum>r\<in>fst ` set s. length (snd (mem_box s r)))
    \<and> (k < min n 1024 \<longrightarrow>
        (\<forall>r. snd (mem_box s' r) = [] \<or> now < qm_deadline_ms (hd (snd (mem_box s' r)))))"
proof -
  obtain k where k: "res = Inr k" "mem_inv s'" "k \<le> min n 1024"
    and step: "\<forall>r. expiry_step now (mem_box s r) (mem_box s' r)"
    and count: "k + (\<Sum>r\<in>fst ` set s. length (snd (mem_box s' r))) = (\<Sum>r\<in>fst ` set s. length (snd (mem_box s r)))"
    and stop: "k = min n 1024 \<or> (\<forall>r. head_live now (mem_box s' r))"
    using mem_purge_refines [OF assms] by blast
  have "k < min n 1024 \<longrightarrow> (\<forall>r. snd (mem_box s' r) = [] \<or> now < qm_deadline_ms (hd (snd (mem_box s' r))))"
    using stop unfolding head_live_def live_def by (metis less_irrefl)
  with k count show ?thesis
    by (intro exI [of _ k] conjI step [unfolded expiry_step_def live_def])
qed

theorem mem_purge_outcome_witness:
  "\<exists>k. fst (mem_purge_expired sample_one 2000 5) = Inr k
     \<and> k + length (snd (mem_box (snd (mem_purge_expired sample_one 2000 5)) ''alice'')) = 1"
proof -
  have "fst ` set sample_one = {''alice''}" by (simp add: sample_one_eq)
  then show ?thesis
    using mem_purge_outcome [OF sample_one_inv, of 2000 5 "fst (mem_purge_expired sample_one 2000 5)"
        "snd (mem_purge_expired sample_one 2000 5)"]
    by (auto simp: sample_one_box)
qed

text \<open>
  When deadlines never decrease along a queue, as they do while the clock runs forwards
  and the retention time is fixed, a purge that stops short of its limit has removed every
  expired message of that queue.
\<close>

theorem mem_purge_complete:
  assumes "mem_inv s" and "mem_purge_expired s now n = (Inr k, s')" and "k < min n 1024"
    and "sorted (map qm_deadline_ms (snd (mem_box s r)))"
  shows "snd (mem_box s' r) = filter (live now) (snd (mem_box s r))"
proof -
  have step: "expiry_step now (mem_box s r) (mem_box s' r)" and hd: "head_live now (mem_box s' r)"
    using mem_purge_refines [OF assms(1,2)] assms(3) by auto
  from expiry_sorted_live [OF this assms(4)] show ?thesis .
qed

theorem mem_purge_complete_witness:
  "snd (mem_box (snd (mem_purge_expired sample_one 2000 5)) ''alice'') = []"
proof -
  have "mem_purge_expired sample_one 2000 5 = (Inr 1, snd (mem_purge_expired sample_one 2000 5))"
    by (simp add: sample_one_eq mem_purge_expired_def gc_batch_limit_def Let_def drop_seq_def bt_get_def)
  from mem_purge_complete [OF sample_one_inv this, of "''alice''"] show ?thesis
    by (simp add: sample_one_box live_def)
qed

text \<open>
  C32. A live message at the head of a queue shields the expired ones behind it: no purge
  touches that mailbox, however often and with whatever limit it runs.
\<close>

theorem mem_purge_shielded:
  assumes "mem_inv s" and "mem_purge_expired s now n = (res, s')"
    and "snd (mem_box s r) = m # rest" and "now < qm_deadline_ms m"
  shows "mem_box s' r = mem_box s r"
  by (rule mem_purge_head_live [OF assms(1,2)]) (simp add: head_live_def live_def assms(3,4))

theorem mem_purge_shielded_witness:
  "mem_box (snd (mem_purge_expired (snd (mem_push sample_one (sample_msg 2 1700) limits_default)) 1800 5)) ''alice''
    = (2, [stored_message (sample_msg 1 2000) 0, stored_message (sample_msg 2 1700) 1])"
proof -
  let ?s = "snd (mem_push sample_one (sample_msg 2 1700) limits_default)"
  have r: "mem_inv ?s \<and> mem_box ?s ''alice''
      = (2, [stored_message (sample_msg 1 2000) 0, stored_message (sample_msg 2 1700) 1])"
    using mem_push_refines [OF sample_one_inv, of limits_default "sample_msg 2 1700"
        "fst (mem_push sample_one (sample_msg 2 1700) limits_default)" ?s]
    by (auto simp: sample_one_box Let_def)
  show ?thesis
    using mem_purge_shielded [of ?s 1800 5 "fst (mem_purge_expired ?s 1800 5)" "snd (mem_purge_expired ?s 1800 5)" "''alice''"
        "stored_message (sample_msg 1 2000) 0" "[stored_message (sample_msg 2 1700) 1]"] r
    by simp
qed

section \<open>Cursors\<close>

text \<open>
  C33. Cursors round-trip exactly for recipients without a colon: what the relay issues for
  such a recipient decodes to it and the sequence number; a cursor issued for a recipient with
  a colon is refused as invalid whenever it is presented.
\<close>

theorem cursor_roundtrip:
  assumes "cursor_codec E" and "utf8_valid r"
  shows "decode_cursor E (encode_cursor E r n)
    = (if CHR '':'' \<in> set r then Inl (InvalidInput ''invalid cursor'') else Inr (r, n))"
  using cursor_codec.decode_encode_cursor [OF assms] by (simp add: invalid_cursor_def)

theorem cursor_roundtrip_witness:
  "decode_cursor std_externals (encode_cursor std_externals ''alice'' 41) = Inr (''alice'', 41)
   \<and> decode_cursor std_externals (encode_cursor std_externals ''a:b'' 41)
     = Inl (InvalidInput ''invalid cursor'')"
proof -
  have v: "utf8_valid ''alice''" "utf8_valid ''a:b''" by code_simp+
  show ?thesis
    using cursor_roundtrip [OF std.cursor_codec_axioms v(1), of 41]
      cursor_roundtrip [OF std.cursor_codec_axioms v(2), of 41]
    by simp
qed

text \<open>
  A cursor belongs to its recipient: presented by a client that pulls for somebody else it
  is refused, the store stays as it is and no message is returned.
\<close>

theorem foreign_cursor_refused:
  assumes "cursor_codec E" and "addressable q" and "q \<noteq> r" and "bt_get s r = Some e"
  shows "mem_pull E s r (Some (encode_cursor E q n)) limit now
    = (Inl (InvalidInput ''cursor recipient mismatch''), s)"
  using cursor_codec.resolve_foreign_cursor [OF assms(1-3)] assms(4) by (simp add: mem_pull_def)

theorem foreign_cursor_refused_witness:
  "mem_pull std_externals sample_one ''alice'' (Some (encode_cursor std_externals ''bob'' 0)) 5 1500
    = (Inl (InvalidInput ''cursor recipient mismatch''), sample_one)"
proof -
  have "addressable ''bob''" by code_simp
  moreover have "bt_get sample_one ''alice'' \<noteq> None" by (simp add: sample_one_eq bt_get_def)
  ultimately show ?thesis
    using foreign_cursor_refused [OF std.cursor_codec_axioms, of "''bob''" "''alice''" sample_one]
    by auto
qed

end
