(* ===== verification/Server_Props.thy ===== *)
theory Server_Props
  imports Server_Contract Mem_Props
begin

text \<open>
  The properties of the server: what it accepts, what a refused or failed request leaves
  alone, the states it reaches, delivery over HTTP, the counters, and the progress of the
  garbage collector. Those that depend on a store are stated for the in-memory backend.
\<close>

section \<open>Sample values for the witnesses\<close>

definition sample_env :: request_env where
  "sample_env = \<lparr>env_peer = None, env_now1 = 5, env_now2 = 6, env_system = 1500000000\<rparr>"

text \<open>A server with the limiter off that holds one message, and one that bans its client.\<close>

definition sample_app :: "mem_store app_state" where
  "sample_app = \<lparr>as_store = sample_one, as_config = config_default, as_limiter = limiter_new False 300,
     as_started = 0, as_metrics = relay_metrics_default\<rparr>"

definition sample_ban :: bucket where
  "sample_ban = (fresh_bucket 0 1 1)\<lparr>bk_ban_until := Some 100\<rparr>"

definition sample_banned_app :: "mem_store app_state" where
  "sample_banned_app = sample_app\<lparr>as_limiter := (limiter_new True 300)\<lparr>lim_buckets :=
     [\<lparr>rk_ip = localhost, rk_label = ''global''\<rparr> \<mapsto> sample_ban,
      \<lparr>rk_ip = localhost, rk_label = ''push''\<rparr> \<mapsto> sample_ban]\<rparr>\<rparr>"

text \<open>A push of three bytes to \<open>alice\<close>.\<close>

definition sample_body :: "uuid \<Rightarrow> push_request" where
  "sample_body i = \<lparr>pq_recipient = ''alice'', pq_message_id = i, pq_ciphertext_b64 = ''QUJD'', pq_meta = sample_meta\<rparr>"

section \<open>Requests\<close>

text \<open>
  A push body becomes a message exactly when the recipient and the kind are not blank, the
  chunk index is below the chunk count, and the ciphertext is base64 of at most
  \<open>max_message_bytes\<close> bytes. The message then carries the body's fields, the decoded length,
  the time of arrival, and a deadline of the retention time later, saturating at \<open>u64::MAX\<close>.
\<close>

theorem inbound_message_accepts:
  "build_inbound_message E body limits now = Inr m \<longleftrightarrow>
     str_trim (pq_recipient body) \<noteq> [] \<and> str_trim (mm_kind (pq_meta body)) \<noteq> []
     \<and> mm_chunk_index (pq_meta body) < mm_chunk_count (pq_meta body)
     \<and> b64_decode E (pq_ciphertext_b64 body) \<noteq> None
     \<and> im_payload_bytes m = word_of_nat (length (the (b64_decode E (pq_ciphertext_b64 body))))
     \<and> im_payload_bytes m \<le> max_message_bytes limits
     \<and> (im_recipient m, im_message_id m, im_ciphertext_b64 m, im_meta m, im_arrival_ms m)
       = (pq_recipient body, pq_message_id body, pq_ciphertext_b64 body, pq_meta body, now)
     \<and> unat (im_deadline_ms m)
       = min (unat now + min (unat (message_ttl_seconds limits) * 1000) (2 ^ 64 - 1)) (2 ^ 64 - 1)"
proof -
  have deadline: "d = sat_add now (sat_mul (message_ttl_seconds limits) 1000) \<longleftrightarrow>
      unat d = min (unat now + min (unat (message_ttl_seconds limits) * 1000) (2 ^ 64 - 1)) (2 ^ 64 - 1)"
    for d :: u64
    by (simp add: word_unat_eq_iff sat_simps)
  show ?thesis
    unfolding build_inbound_message_Inr deadline [symmetric]
    by (cases m; cases "b64_decode E (pq_ciphertext_b64 body)") auto
qed

text \<open>
  C28. Rate limiting comes first and isolates the store: when the client's global bucket or the
  endpoint's bucket refuses, the request is answered 429 whatever its body; the store and the
  configuration are not touched, and both buckets have been charged.
\<close>

theorem rate_limited_request:
  assumes "lim_enabled (as_limiter st)"
    and "(label, req) \<in> {(''push'', PostPush pb), (''pull'', PostPull lb), (''ack'', PostAck ab)}"
    and "cfg = cfg_rate_limit (as_config st)" and "burst = f64_of_nat (unat (rl_burst cfg))"
    and "allow (as_limiter st) (env_now1 env) (peer_ip env) ''global'' (f64_of_nat (unat (per_ip_rps cfg))) burst
      = (Some global_ok, l1)"
    and "allow l1 (env_now2 env) (peer_ip env) label (f64_of_nat (unat (endpoint_rps cfg label))) burst
      = (Some endpoint_ok, l2)"
    and "\<not> global_ok \<or> \<not> endpoint_ok"
  shows "\<exists>st1. serve F E D env req st = (Some (429, ErrorBody (into_response RateLimited)), st1)
    \<and> as_store st1 = as_store st \<and> as_config st1 = as_config st \<and> as_limiter st1 = l2"
proof -
  let ?st1 = "count F (\<lambda>m. m\<lparr>m_rate_limited := m_rate_limited m + 1\<rparr>) (st\<lparr>as_limiter := l2\<rparr>)"
  have "enforce_rate F env label st = (Some (Inl RateLimited), ?st1)"
    using assms by (simp add: enforce_rate_def Let_def)
  then have "serve F E D env req st = (Some (429, ErrorBody (into_response RateLimited)), ?st1)"
    using assms(2) by (auto simp: push_handler_def pull_handler_def ack_handler_def reply_with_def error_reply_def)
  then show ?thesis by simp
qed

theorem rate_limited_request_witness:
  "fst (serve default_features std_externals (mem_ops std_externals) sample_env (PostPush (sample_body 1)) sample_banned_app)
    = Some (429, ErrorBody (into_response RateLimited))"
proof -
  let ?rl = "as_limiter sample_banned_app"
  have b: "allow ?rl now (peer_ip sample_env) label rate burst = (Some False, ?rl)"
    if "now < 100" "label = ''global'' \<or> label = ''push''" for now label rate burst
    by (rule allow_banned [of _ _ _ sample_ban])
      (use that in \<open>auto simp: sample_banned_app_def sample_env_def peer_ip_def banned_def sample_ban_def limiter_new_def\<close>)
  have en: "lim_enabled ?rl" by (simp add: sample_banned_app_def limiter_new_def)
  have now: "env_now1 sample_env < 100" "env_now2 sample_env < 100"
    by (simp_all add: sample_env_def)
  have req: "(''push'', PostPush (sample_body 1))
    \<in> {(''push'', PostPush (sample_body 1)), (''pull'', PostPull lb), (''ack'', PostAck ab)}" for lb ab by simp
  have labels: "''global'' = ''global'' \<or> ''global'' = ''push''" "''push'' = ''global'' \<or> ''push'' = ''push''" by simp_all
  obtain st1 where "serve default_features std_externals (mem_ops std_externals) sample_env (PostPush (sample_body 1)) sample_banned_app
      = (Some (429, ErrorBody (into_response RateLimited)), st1)"
    using rate_limited_request [OF en req refl refl b [OF now(1) labels(1)] b [OF now(2) labels(2)]] by blast
  then show ?thesis by simp
qed

section \<open>Failed requests\<close>

lemma reply_not_200:
  "reply_with body r = (rep, st') \<Longrightarrow> \<forall>b. rep \<noteq> Some (200, b) \<Longrightarrow>
     snd r = st' \<and> (fst r = None \<or> (\<exists>e. fst r = Some (Inl e)))"
  by (auto simp: reply_with_def split: prod.splits option.splits sum.splits)

lemma push_handler_failed:
  assumes "push_handler F E D env body st = (out, st')" and "out = None \<or> out = Some (Inl e)"
  shows "as_store st' = as_store st
    \<or> (\<exists>m limits e'. op_push D (as_store st) m limits = (Inl e', as_store st'))"
proof -
  obtain r st1 where rate: "enforce_rate F env ''push'' st = (r, st1)" by fastforce
  note fr = enforce_rate_frame [OF rate]
  let ?limits = "cfg_relay (as_config st)"
  show ?thesis
  proof (cases "(\<exists>x. r = Some (Inr x)) \<and>
      (\<exists>m. build_inbound_message E body ?limits (now_millis (env_system env)) = Inr m)")
    case False
    then have "as_store st' = as_store st"
      using assms rate fr
      by (cases "build_inbound_message E body ?limits (now_millis (env_system env))")
        (auto simp: push_handler_def and_then_def Let_def split: option.splits sum.splits)
    then show ?thesis ..
  next
    case True
    then obtain m where m: "build_inbound_message E body ?limits (now_millis (env_system env)) = Inr m" by blast
    obtain res s' where p: "op_push D (as_store st) m ?limits = (res, s')" by fastforce
    obtain e' where "res = Inl e'"
      using assms rate fr True m p by (cases res) (auto simp: push_handler_def Let_def on_store_def)
    then have "op_push D (as_store st) m ?limits = (Inl e', as_store st')"
      using assms rate fr True m p by (auto simp: push_handler_def Let_def on_store_def)
    then show ?thesis by blast
  qed
qed

lemma pull_handler_failed:
  assumes "pull_handler F D env body st = (out, st')" and "out = None \<or> out = Some (Inl e)"
  shows "as_store st' = as_store st
    \<or> (\<exists>r cur n now e'. op_pull D (as_store st) r cur n now = (Inl e', as_store st'))"
proof -
  obtain r st1 where rate: "enforce_rate F env ''pull'' st = (r, st1)" by fastforce
  note fr = enforce_rate_frame [OF rate]
  show ?thesis
    using assms rate fr
    by (auto simp: pull_handler_def and_then_def Let_def on_store_def split: option.splits sum.splits if_splits prod.splits)
qed

lemma ack_handler_failed:
  assumes "ack_handler F D env body st = (out, st')" and "out = None \<or> out = Some (Inl e)"
  shows "as_store st' = as_store st
    \<or> (\<exists>r items e'. op_ack D (as_store st) r items = (Inl e', as_store st'))"
proof -
  obtain r st1 where rate: "enforce_rate F env ''ack'' st = (r, st1)" by fastforce
  note fr = enforce_rate_frame [OF rate]
  show ?thesis
    using assms rate fr
    by (auto simp: ack_handler_def and_then_def Let_def on_store_def split: option.splits sum.splits if_splits prod.splits)
qed

lemma mem_push_error_box:
  "mem_inv s \<Longrightarrow> mem_push s m limits = (Inl e, s') \<Longrightarrow> mem_box s' r = mem_box s r"
proof -
  assume inv: "mem_inv s" and p: "mem_push s m limits = (Inl e, s')"
  then have "s' = bt_insert (im_recipient m) (entry_or_default s (im_recipient m)) s"
    by (auto simp: mem_push_def entry_push_def Let_def split: if_splits prod.splits)
  then show ?thesis using inv by (simp add: mem_box_insert) (simp add: mem_box_def)
qed

lemma mem_pull_error: "mem_pull E s r cur limit now = (Inl e, s') \<Longrightarrow> s' = s"
  by (auto simp: mem_pull_def split: option.splits sum.splits prod.splits)

lemma mem_ack_no_error: "mem_ack s r items \<noteq> (Inl e, s')"
  by (auto simp: mem_ack_def split: option.splits prod.splits)

text \<open>
  A request that does not succeed changes no queue of the in-memory store: whatever the
  reason (rate limit, invalid body, quota, bad cursor, panic), every mailbox is as before.
\<close>

theorem mem_failed_request:
  assumes "mem_inv (as_store st)" and "serve F E (mem_ops E) env req st = (rep, st')"
    and "\<forall>body. rep \<noteq> Some (200, body)"
  shows "mem_box (as_store st') r = mem_box (as_store st) r"
proof (cases req)
  case (PostPush b)
  then have h: "snd (push_handler F E (mem_ops E) env b st) = st'"
      "fst (push_handler F E (mem_ops E) env b st) = None
       \<or> (\<exists>e. fst (push_handler F E (mem_ops E) env b st) = Some (Inl e))"
    using reply_not_200 [of PushBody "push_handler F E (mem_ops E) env b st" rep st'] assms(2,3) by simp_all
  then have "as_store st' = as_store st
      \<or> (\<exists>m limits e'. mem_push (as_store st) m limits = (Inl e', as_store st'))"
    using push_handler_failed [of F E "mem_ops E" env b st] by (simp add: mem_ops_def prod_eq_iff) blast
  then show ?thesis using mem_push_error_box [OF assms(1)] by auto
next
  case (PostPull b)
  then have h: "snd (pull_handler F (mem_ops E) env b st) = st'"
      "fst (pull_handler F (mem_ops E) env b st) = None
       \<or> (\<exists>e. fst (pull_handler F (mem_ops E) env b st) = Some (Inl e))"
    using reply_not_200 [of PullBody "pull_handler F (mem_ops E) env b st" rep st'] assms(2,3) by simp_all
  then have "as_store st' = as_store st
      \<or> (\<exists>r cur n now e'. mem_pull E (as_store st) r cur n now = (Inl e', as_store st'))"
    using pull_handler_failed [of F "mem_ops E" env b st] by (simp add: mem_ops_def prod_eq_iff) blast
  then show ?thesis using mem_pull_error by metis
next
  case (PostAck b)
  then have h: "snd (ack_handler F (mem_ops E) env b st) = st'"
      "fst (ack_handler F (mem_ops E) env b st) = None
       \<or> (\<exists>e. fst (ack_handler F (mem_ops E) env b st) = Some (Inl e))"
    using reply_not_200 [of AckBody "ack_handler F (mem_ops E) env b st" rep st'] assms(2,3) by simp_all
  then have "as_store st' = as_store st
      \<or> (\<exists>r items e'. mem_ack (as_store st) r items = (Inl e', as_store st'))"
    using ack_handler_failed [of F "mem_ops E" env b st] by (simp add: mem_ops_def prod_eq_iff) blast
  then show ?thesis using mem_ack_no_error by metis
next
  case GetHealth
  then show ?thesis using assms(2) by simp
next
  case GetStats
  then show ?thesis using assms(2) by (auto simp: stats_handler_def reply_with_def Let_def split: if_splits)
qed

theorem mem_failed_request_witness:
  "mem_box (as_store (snd (serve default_features std_externals (mem_ops std_externals) sample_env
      (PostPull \<lparr>lq_recipient = ''alice'', lq_cursor = None, lq_max = Some 0\<rparr>) sample_app))) ''alice''
    = (1, [stored_message (sample_msg 1 2000) 0])"
proof -
  let ?req = "PostPull \<lparr>lq_recipient = ''alice'', lq_cursor = None, lq_max = Some 0\<rparr>"
  let ?s = "serve default_features std_externals (mem_ops std_externals) sample_env ?req sample_app"
  have "str_trim ''alice'' = ''alice''" by code_simp
  then have "\<forall>body. fst ?s \<noteq> Some (200, body)"
    by (simp add: pull_handler_def enforce_rate_def sample_app_def limiter_new_def Let_def reply_with_def
        error_reply_def)
  moreover have "mem_inv (as_store sample_app)" by (simp add: sample_app_def sample_one_inv)
  ultimately have "mem_box (as_store (snd ?s)) ''alice'' = mem_box (as_store sample_app) ''alice''"
    by (rule mem_failed_request [OF _ prod.collapse [symmetric], rotated])
  then show ?thesis by (simp add: sample_app_def sample_one_box)
qed

section \<open>States the server reaches\<close>

text \<open>
  C8. In every state a server on the in-memory store reaches, whatever requests and collections
  ran and however they were interleaved, the queue of each recipient is within the configured
  number of messages and bytes, its messages are in arrival order and addressed to it, and no
  two have the same id and chunk.
\<close>

theorem server_queues_bounded:
  assumes "cursor_codec E" and "start_with_store F cfg t mem_new = Inr st0" and "\<forall>e\<in>set es. step_ok e"
    and "max_queue_bytes_per_user (cfg_relay cfg) \<noteq> u64_max" and "length es < 2 ^ 64 - 1"
    and "addressable r" and "mem_box (as_store (server_run F E (mem_ops E) es st0)) r = (n, q)"
  shows "length q \<le> unat (max_messages_per_user (cfg_relay cfg))
    \<and> box_bytes q \<le> unat (max_queue_bytes_per_user (cfg_relay cfg))
    \<and> sorted_wrt (<) (map qm_arrival_seq q) \<and> (\<forall>m\<in>set q. qm_recipient m = r)
    \<and> distinct (map msg_key q)"
proof -
  let ?s = "as_store (server_run F E (mem_ops E) es st0)"
  obtain k where k: "k \<le> length es" and reach: "reached (mem_ops E) (cfg_relay cfg) mem_new k ?s"
    using relay_service.server_reached [OF mem_service [OF assms(1)] start_with_store_sel(1) [OF assms(2)] assms(3)]
    unfolding start_with_store_sel(2) [OF assms(2)] by blast
  have lt: "k < 2 ^ 64 - 1" using k assms(5) by linarith
  have "mem_inv ?s" "within_limits (cfg_relay cfg) (mem_box ?s r)"
    using mem.reached_inv [OF reach lt assms(4)] assms(6) by blast+
  with mem_box_ok [of ?s r] show ?thesis
    unfolding assms(7) by (auto simp: within_limits_def box_ok_def)
qed


text \<open>A fresh server with the limiter off.\<close>

definition sample_cfg :: relay_config where
  "sample_cfg = config_default\<lparr>cfg_rate_limit := rate_limit_default\<lparr>rl_enabled := False\<rparr>\<rparr>"

definition sample_start :: "mem_store app_state" where
  "sample_start = \<lparr>as_store = mem_new, as_config = sample_cfg, as_limiter = limiter_new False 300,
     as_started = 0, as_metrics = relay_metrics_default\<rparr>"

lemma sample_start_eq: "start_with_store default_features sample_cfg 0 mem_new = Inr sample_start"
proof -
  have "str_trim ''127.0.0.1:0'' = ''127.0.0.1:0''" by code_simp
  then show ?thesis
    by (simp add: start_with_store_def validate_def sample_cfg_def config_default_def default_features_def
        limits_default_def rate_limit_default_def endpoints_default_def storage_default_def Let_def sample_start_def)
qed

lemma sample_body_trim: "str_trim ''alice'' = ''alice''" "str_trim ''msg'' = ''msg''"
  by code_simp+

lemma sample_decode: "b64_decode std_externals ''QUJD'' = Some ''ABC''"
proof -
  have "b64_encode std_externals ''ABC'' = ''QUJD''"
    by (simp add: std_externals_def b64_char_def b64_alphabet_def)
  then show ?thesis using std.b64_roundtrip [of "''ABC''"] by simp
qed

text \<open>The clock reads 1500 milliseconds.\<close>

lemma sample_now: "now_millis (env_system sample_env) = 1500"
  by (simp add: now_millis_def sample_env_def)

lemma sample_push_stored:
  "\<exists>resp st1. push_handler default_features std_externals (mem_ops std_externals) sample_env (sample_body 1) sample_start
    = (Some (Inr resp), st1) \<and> pp_stored resp"
  by (simp add: push_handler_def enforce_rate_def sample_start_def limiter_new_def Let_def count_def metered_def
      default_features_def build_inbound_message_def sample_body_def sample_body_trim sample_decode sample_meta_def
      sample_cfg_def config_default_def on_store_def mem_ops_def mem_push_def entry_push_def
      mem_new_def entry_or_default_def recipient_default_def sat_add_def)


theorem server_queues_bounded_witness:
  "length (snd (mem_box (as_store (server_run default_features std_externals (mem_ops std_externals)
      [Request sample_env (PostPush (sample_body 2)), GcTurn 1500000000] sample_start)) ''alice'')) \<le> 200000"
proof -
  have "max_queue_bytes_per_user (cfg_relay sample_cfg) \<noteq> u64_max"
      "unat (max_messages_per_user (cfg_relay sample_cfg)) = 200000"
    by (simp_all add: sample_cfg_def config_default_def)
  moreover have "\<forall>e\<in>set [Request sample_env (PostPush (sample_body 2)), GcTurn 1500000000]. step_ok e"
    using sample_addressable by (simp add: sample_body_def)
  ultimately show ?thesis
    using server_queues_bounded [OF std.cursor_codec_axioms sample_start_eq _ _ _ sample_addressable prod.collapse [symmetric],
        of "[Request sample_env (PostPush (sample_body 2)), GcTurn 1500000000]"]
    by simp
qed

section \<open>Pages\<close>

text \<open>
  A page is bounded and honest: a pull answered 200 holds at most \<open>pull_batch_max\<close>
  messages, and no more than the client asked for; every one of them is addressed to the
  recipient that was named, was in its queue, and is not past its deadline.
\<close>

theorem pull_page:
  assumes "mem_inv (as_store st)" and "pull_batch_max (cfg_relay (as_config st)) \<noteq> 0"
    and "pull_handler F (mem_ops E) env body st = (Some (Inr resp), st')"
  shows "length (lp_items resp) \<le> unat (pull_batch_max (cfg_relay (as_config st)))
    \<and> (\<forall>n. lq_max body = Some n \<longrightarrow> length (lp_items resp) \<le> unat n)
    \<and> (\<forall>i\<in>set (lp_items resp). di_recipient i = lq_recipient body
        \<and> i \<in> to_delivery ` set (snd (mem_box (as_store st) (lq_recipient body)))
        \<and> now_millis (env_system env) < di_deadline_ms i)"
proof -
  let ?now = "now_millis (env_system env)" and ?r = "lq_recipient body" and ?s = "as_store st"
  obtain n b where pull: "mem_pull E ?s ?r (lq_cursor body) n ?now = (Inr b, as_store st')"
    and n: "0 < n" "n = min (opt_or (pull_batch_max (cfg_relay (as_config st))) (lq_max body)) (pull_batch_max (cfg_relay (as_config st)))"
    and items: "lp_items resp = map to_delivery (pb_items b)"
    using pull_handler_page [OF assms(3)] assms(2) by (auto simp: mem_ops_def pull_max_def word_gt_0 min_def)
  have page: "length (pb_items b) \<le> unat n
      \<and> set (pb_items b) \<subseteq> {m \<in> set (snd (mem_box ?s ?r)). ?now < qm_deadline_ms m}"
  proof (cases "resolve_cursor E ?r (lq_cursor body)")
    case (Inl e)
    then show ?thesis using mem_pull_bad_cursor [OF Inl pull] by simp
  next
    case (Inr c)
    have "b = spec_batch E ?r c n ?now (mem_box ?s ?r) (mem_box (as_store st') ?r)"
      using mem_pull_refines [OF assms(1) Inr pull] by simp
    then have b: "pb_items b = take (page_limit n) (selection c ?now (snd (mem_box ?s ?r)))"
      by (simp add: spec_batch_def Let_def)
    have "page_limit n \<le> unat n" by (simp add: page_limit_def min_def word_le_nat_alt)
    then have "length (pb_items b) \<le> unat n" unfolding b by simp
    moreover have "set (pb_items b) \<subseteq> set (selection c ?now (snd (mem_box ?s ?r)))"
      unfolding b by (rule set_take_subset)
    ultimately show ?thesis by (auto simp: selection_def live_def)
  qed
  have rec: "qm_recipient m = ?r" if "m \<in> set (snd (mem_box ?s ?r))" for m
    using mem_box_ok [OF assms(1), of ?r] that by (auto simp: box_ok_def)
  have bounds: "unat n \<le> unat (pull_batch_max (cfg_relay (as_config st)))"
      "lq_max body = Some k \<Longrightarrow> unat n \<le> unat k" for k
    by (auto simp: n(2) min_def word_le_nat_alt)
  have "length (lp_items resp) \<le> unat (pull_batch_max (cfg_relay (as_config st)))"
    using page bounds(1) by (simp add: items)
  moreover have "\<forall>k. lq_max body = Some k \<longrightarrow> length (lp_items resp) \<le> unat k"
    using page bounds(2) by (fastforce simp: items)
  moreover have "\<forall>i\<in>set (lp_items resp). di_recipient i = ?r
        \<and> i \<in> to_delivery ` set (snd (mem_box ?s ?r)) \<and> ?now < di_deadline_ms i"
    using page rec by (auto simp: items to_delivery_def)
  ultimately show ?thesis by blast
qed

theorem pull_page_witness:
  "\<exists>resp. fst (pull_handler default_features (mem_ops std_externals) sample_env
      \<lparr>lq_recipient = ''alice'', lq_cursor = None, lq_max = Some 7\<rparr> sample_app) = Some (Inr resp)
    \<and> length (lp_items resp) \<le> 7"
proof -
  let ?body = "\<lparr>lq_recipient = ''alice'', lq_cursor = None, lq_max = Some 7\<rparr>"
  have off: "\<not> lim_enabled (as_limiter sample_app)" "str_trim ''alice'' \<noteq> []"
      "opt_or (pull_batch_max (cfg_relay (as_config sample_app))) (Some 7) \<noteq> 0"
    and nz: "pull_batch_max (cfg_relay (as_config sample_app)) \<noteq> 0"
    by (simp_all add: sample_app_def limiter_new_def sample_body_trim config_default_def)
  obtain b where b: "fst (mem_pull std_externals sample_one ''alice'' None (pull_max (as_config sample_app) (Some 7)) 1500) = Inr b"
    using mem_pull_refines [OF sample_one_inv, of std_externals "''alice''" None None _ _ _ _, OF _ prod.collapse [symmetric]]
    by (auto simp: resolve_cursor_def)
  then obtain s' where "op_pull (mem_ops std_externals) (as_store sample_app) ''alice'' None
      (pull_max (as_config sample_app) (Some 7)) (now_millis (env_system sample_env)) = (Inr b, s')"
    unfolding sample_now by (cases "mem_pull std_externals sample_one ''alice'' None (pull_max (as_config sample_app) (Some 7)) 1500")
      (simp add: mem_ops_def sample_app_def)
  from pull_handler_open [OF off this, of default_features] obtain resp st' where
    h: "pull_handler default_features (mem_ops std_externals) sample_env ?body sample_app = (Some (Inr resp), st')"
    by auto
  have "mem_inv (as_store sample_app)" by (simp add: sample_app_def sample_one_inv)
  from pull_page [OF this nz h] h show ?thesis by simp
qed

section \<open>Counters\<close>

text \<open>What a request adds to the counters of pushes.\<close>

lemma enforce_rate_metrics:
  assumes "enforce_rate F env label st = (r, st')"
  shows "m_push_total (as_metrics st') = m_push_total (as_metrics st)
    \<and> m_push_stored (as_metrics st') = m_push_stored (as_metrics st)
    \<and> m_duplicates (as_metrics st') = m_duplicates (as_metrics st)"
  using assms
  by (auto simp: enforce_rate_def Let_def count_def metered_def split: if_splits prod.splits option.splits)

lemma mem_push_flags: "mem_push s m limits = (Inr ps, s') \<Longrightarrow> \<not> (ps_stored ps \<and> ps_duplicate ps)"
  by (auto simp: mem_push_def entry_push_def Let_def split: if_splits prod.splits)

definition push_metrics_le :: "nat \<Rightarrow> relay_metrics \<Rightarrow> bool" where
  "push_metrics_le k m \<longleftrightarrow>
     unat (m_push_stored m) + unat (m_duplicates m) \<le> unat (m_push_total m) \<and> unat (m_push_total m) \<le> k"

lemma word_Suc: "unat w < 2 ^ 64 - 1 \<Longrightarrow> unat (w + 1) = Suc (unat w)" for w :: u64
  by (simp add: unat_word_ariths)

lemma push_handler_metrics:
  assumes "push_metrics_le k (as_metrics st)" and "k < 2 ^ 64 - 1"
    and "push_handler F E (mem_ops E') env body st = (out, st')"
  shows "push_metrics_le (Suc k) (as_metrics st')"
proof -
  obtain r st1 where rate: "enforce_rate F env ''push'' st = (r, st1)" by fastforce
  note fr = enforce_rate_frame [OF rate]
  have m1: "push_metrics_le k (as_metrics st1)"
    using assms(1) enforce_rate_metrics [OF rate] by (simp add: push_metrics_le_def)
  show ?thesis
  proof (cases "\<exists>x. r = Some (Inr x)")
    case False
    then have "st' = st1"
      using assms(3) rate by (auto simp: push_handler_def and_then_def split: option.splits sum.splits)
    then show ?thesis using m1 by (simp add: push_metrics_le_def)
  next
    case True
    let ?st2 = "count F (\<lambda>m. m\<lparr>m_push_total := m_push_total m + 1\<rparr>) st1"
    let ?a = "as_metrics ?st2" and ?limits = "cfg_relay (as_config st)"
    have b: "unat (m_push_total (as_metrics st1)) < 2 ^ 64 - 1"
        "unat (m_push_stored (as_metrics st1)) < 2 ^ 64 - 1" "unat (m_duplicates (as_metrics st1)) < 2 ^ 64 - 1"
      using m1 assms(2) by (simp_all add: push_metrics_le_def)
    show ?thesis
    proof (cases "\<exists>m ps s'. build_inbound_message E body ?limits (now_millis (env_system env)) = Inr m
        \<and> mem_push (as_store st) m ?limits = (Inr ps, s')")
      case False
      then have "as_metrics st' = ?a"
        using assms(3) rate True fr
        by (cases "build_inbound_message E body ?limits (now_millis (env_system env))")
          (auto simp: push_handler_def Let_def on_store_def mem_ops_def count_def and_then_def
            split: prod.splits sum.splits)
      then show ?thesis
        using m1 word_Suc [OF b(1)] by (simp add: push_metrics_le_def count_def metered_def)
    next
      case ok: True
      then obtain m ps s' where m: "build_inbound_message E body ?limits (now_millis (env_system env)) = Inr m"
        and p: "mem_push (as_store st) m ?limits = (Inr ps, s')" by blast
      have st': "as_metrics st' = (if feat_metrics F then
          (as_metrics st1)\<lparr>m_push_total := m_push_total (as_metrics st1) + 1,
            m_push_stored := m_push_stored (as_metrics st1) + of_bool (ps_stored ps),
            m_duplicates := m_duplicates (as_metrics st1) + of_bool (ps_duplicate ps)\<rparr>
          else as_metrics st1)"
        using assms(3) rate True fr m p
        by (auto simp: push_handler_def Let_def on_store_def mem_ops_def count_def metered_def split: if_splits)
      show ?thesis
        using m1 word_Suc [OF b(1)] word_Suc [OF b(2)] word_Suc [OF b(3)] mem_push_flags [OF p]
        unfolding st' by (cases "ps_stored ps"; cases "ps_duplicate ps") (auto simp: push_metrics_le_def)
    qed
  qed
qed

lemma server_step_metrics:
  assumes "push_metrics_le k (as_metrics st)" and "k < 2 ^ 64 - 1"
  shows "push_metrics_le (Suc k) (as_metrics (server_step F E (mem_ops E') e st))"
proof -
  have weak: "push_metrics_le (Suc k) m" if "m_push_total m = m_push_total (as_metrics st)"
      "m_push_stored m = m_push_stored (as_metrics st)" "m_duplicates m = m_duplicates (as_metrics st)" for m
    using assms(1) that by (simp add: push_metrics_le_def)
  show ?thesis
  proof (cases e)
    case (GcTurn system)
    then show ?thesis
      by (intro weak) (simp_all add: gc_tick_def Let_def count_def metered_def split: prod.split sum.split)
  next
    case (Request env req)
    note rate = enforce_rate_metrics [OF prod.collapse [symmetric], of F env _ st]
    show ?thesis
    proof (cases req)
      case (PostPush b)
      then show ?thesis
        using push_handler_metrics [OF assms prod.collapse [symmetric], of F E E' env b] Request by simp
    next
      case (PostPull b)
      then show ?thesis
        using rate [of "''pull''"] unfolding Request
        by (intro weak) (auto simp: pull_handler_def and_then_def Let_def on_store_def count_def metered_def
            split: prod.split option.split sum.split)
    next
      case (PostAck b)
      then show ?thesis
        using rate [of "''ack''"] unfolding Request
        by (intro weak) (auto simp: ack_handler_def and_then_def Let_def on_store_def count_def metered_def
            split: prod.split option.split sum.split)
    qed (use Request in \<open>auto intro: weak simp: stats_handler_def Let_def\<close>)
  qed
qed

text \<open>
  The counters add up: after any run of fewer than \<open>2 ^ 64 - 1\<close> steps from a fresh start,
  the pushes counted as stored and as duplicates are together no more than the pushes counted,
  and those no more than the steps; none of the three has wrapped around.
\<close>

theorem metrics_consistent:
  assumes "start_with_store F cfg t s = Inr st0" and "length es < 2 ^ 64 - 1"
  shows "let m = as_metrics (server_run F E (mem_ops E') es st0) in
    unat (m_push_stored m) + unat (m_duplicates m) \<le> unat (m_push_total m)
    \<and> unat (m_push_total m) \<le> length es"
proof -
  have run: "push_metrics_le (k + length es) (as_metrics (server_run F E (mem_ops E') es st))"
    if "push_metrics_le k (as_metrics st)" "k + length es < 2 ^ 64 - 1" for k es and st :: "mem_store app_state"
    using that
  proof (induction es arbitrary: k st)
    case (Cons e es)
    then show ?case
      using Cons.IH [OF server_step_metrics [OF Cons.prems(1)], of F E E' e] by simp
  qed simp
  have "push_metrics_le 0 (as_metrics st0)"
    using assms(1) by (auto simp: start_with_store_def res_bind_Inr_iff push_metrics_le_def relay_metrics_default_def)
  from run [OF this, of es] assms(2) show ?thesis
    by (simp add: push_metrics_le_def Let_def)
qed

theorem metrics_consistent_witness:
  "unat (m_push_total (as_metrics (server_run default_features std_externals (mem_ops std_externals)
      [Request sample_env (PostPush (sample_body 1)), Request sample_env (PostPush (sample_body 1))] sample_start))) \<le> 2"
  using metrics_consistent [OF sample_start_eq, of "[Request sample_env (PostPush (sample_body 1)), Request sample_env (PostPush (sample_body 1))]"
      std_externals std_externals]
  by (simp add: Let_def)

section \<open>Garbage collection\<close>

text \<open>The messages a store holds, over a set of recipients that covers it.\<close>

definition mem_total :: "mem_store \<Rightarrow> nat" where
  "mem_total st = (\<Sum>r\<in>fst ` set st. length (snd (mem_box st r)))"

lemma gc_tick_mem:
  assumes "mem_inv (as_store st)"
  shows "\<exists>k. mem_inv (as_store (gc_tick F (mem_ops E) system st))
    \<and> (\<forall>r. head_run (now_millis system) (mem_box (as_store st) r) (mem_box (as_store (gc_tick F (mem_ops E) system st)) r))
    \<and> k + mem_total (as_store (gc_tick F (mem_ops E) system st)) = mem_total (as_store st)
    \<and> (k = 1024 \<or> (\<forall>r. head_live (now_millis system) (mem_box (as_store (gc_tick F (mem_ops E) system st)) r)))
    \<and> (\<forall>r. head_live (now_millis system) (mem_box (as_store st) r) \<longrightarrow>
        mem_box (as_store (gc_tick F (mem_ops E) system st)) r = mem_box (as_store st) r)"
proof -
  obtain res s' where p: "mem_purge_expired (as_store st) (now_millis system) 1024 = (res, s')" by fastforce
  have s': "as_store (gc_tick F (mem_ops E) system st) = s'"
    using p by (simp add: gc_tick_def mem_ops_def Let_def split: sum.split)
  have keys: "fst ` set s' = fst ` set (as_store st)" using mem_purge_keys [OF p] .
  show ?thesis
    using mem_purge_refines [OF assms p] mem_purge_head_live [OF assms p] mem_purge_head_run [OF assms p]
    unfolding s' mem_total_def keys by auto
qed

lemma run_gc_replicate_Suc:
  "run_gc F D (replicate (Suc n) (Tick system)) st = run_gc F D (replicate n (Tick system)) (gc_tick F D system st)"
  by simp

lemma run_gc_clears:
  assumes "mem_inv (as_store st)" and "mem_total (as_store st) < n * 1024"
  shows "mem_inv (as_store (run_gc F (mem_ops E) (replicate n (Tick system)) st))
    \<and> (\<forall>r. head_run (now_millis system) (mem_box (as_store st) r)
          (mem_box (as_store (run_gc F (mem_ops E) (replicate n (Tick system)) st)) r)
        \<and> head_live (now_millis system)
          (mem_box (as_store (run_gc F (mem_ops E) (replicate n (Tick system)) st)) r))"
  using assms
proof (induction n arbitrary: st)
  case (Suc n)
  let ?st = "gc_tick F (mem_ops E) system st" and ?now = "now_millis system"
  obtain k where inv: "mem_inv (as_store ?st)"
    and step: "\<forall>r. head_run ?now (mem_box (as_store st) r) (mem_box (as_store ?st) r)"
    and total: "k + mem_total (as_store ?st) = mem_total (as_store st)"
    and stop: "k = 1024 \<or> (\<forall>r. head_live ?now (mem_box (as_store ?st) r))"
    using gc_tick_mem [OF Suc.prems(1), of F E system] by blast
  show ?case
  proof (cases "k = 1024")
    case True
    then have "mem_total (as_store ?st) < n * 1024" using total Suc.prems(2) by simp
    from Suc.IH [OF inv this] step show ?thesis
      unfolding run_gc_replicate_Suc by (blast intro: head_run_trans)
  next
    case False
    then have live: "\<forall>r. head_live ?now (mem_box (as_store ?st) r)" using stop by simp
    have stay: "mem_inv (as_store (run_gc F (mem_ops E) (replicate n (Tick system)) s))
        \<and> (\<forall>r. mem_box (as_store (run_gc F (mem_ops E) (replicate n (Tick system)) s)) r = mem_box (as_store s) r)"
      if "mem_inv (as_store s)" "\<forall>r. head_live ?now (mem_box (as_store s) r)" for s
      using that
    proof (induction n arbitrary: s)
      case (Suc n)
      let ?s = "gc_tick F (mem_ops E) system s"
      have "mem_inv (as_store ?s)" "\<forall>r. mem_box (as_store ?s) r = mem_box (as_store s) r"
        using gc_tick_mem [OF Suc.prems(1), of F E system] Suc.prems(2) by blast+
      with Suc.IH [of ?s] Suc.prems(2) show ?case unfolding run_gc_replicate_Suc by simp
    qed simp
    show ?thesis
      using stay [OF inv live] step live unfolding run_gc_replicate_Suc by simp
  qed
qed simp

lemma sorted_dropWhile_live:
  "sorted (map qm_deadline_ms q) \<Longrightarrow> dropWhile (\<lambda>m. \<not> live now m) q = filter (live now) q"
proof (induction q)
  case (Cons m q)
  then show ?case
    by (cases "live now m") (force simp: live_def filter_id_conv less_le_trans)+
qed simp

text \<open>
  C27. The collector catches up. After \<open>n\<close> turns of its loop at time \<open>now\<close>, with \<open>1024 n\<close> more than
  the messages held, the queue of every recipient is what was queued from its first unexpired
  message on: nothing is lost behind it, and every expired message before it is gone. When deadlines
  never decrease along the queue, that is exactly the unexpired messages, in order.
\<close>

theorem gc_catches_up:
  assumes "mem_inv (as_store st)" and "mem_total (as_store st) < n * 1024"
    and "queue = snd (mem_box (as_store (run_gc F (mem_ops E) (replicate n (Tick system) @ Shutdown # es) st)) r)"
  shows "queue = dropWhile (\<lambda>m. qm_deadline_ms m \<le> now_millis system) (snd (mem_box (as_store st) r))
    \<and> (sorted (map qm_deadline_ms (snd (mem_box (as_store st) r))) \<longrightarrow>
        queue = filter (\<lambda>m. now_millis system < qm_deadline_ms m) (snd (mem_box (as_store st) r)))"
proof -
  have "run_gc F (mem_ops E) (replicate n (Tick system) @ Shutdown # es) st
      = run_gc F (mem_ops E) (replicate n (Tick system)) st"
    by (induction n arbitrary: st) simp_all
  then have "queue = dropWhile (\<lambda>m. \<not> live (now_millis system) m) (snd (mem_box (as_store st) r))"
    using run_gc_clears [OF assms(1,2), of F E system] head_run_dropWhile unfolding assms(3) by metis
  moreover have "live t = (\<lambda>m. t < qm_deadline_ms m)" "(\<lambda>m. \<not> live t m) = (\<lambda>m. qm_deadline_ms m \<le> t)" for t
    by (simp_all add: live_def fun_eq_iff not_less)
  ultimately show ?thesis
    using sorted_dropWhile_live [of "snd (mem_box (as_store st) r)" "now_millis system"] by simp
qed

theorem gc_catches_up_witness:
  "snd (mem_box (as_store (run_gc default_features (mem_ops std_externals)
      (replicate 1 (Tick 2000000000) @ [Shutdown]) sample_app)) ''alice'') = []"
proof -
  have inv: "mem_inv (as_store sample_app)" by (simp add: sample_app_def sample_one_inv)
  have "fst ` set sample_one = {''alice''}" by (simp add: sample_one_eq)
  then have "mem_total (as_store sample_app) < 1 * 1024"
    by (simp add: mem_total_def sample_app_def sample_one_box)
  moreover have "now_millis 2000000000 = 2000" by (simp add: now_millis_def)
  ultimately show ?thesis
    using gc_catches_up [OF inv _ refl, of 1 default_features std_externals 2000000000 "[]" "''alice''"]
    by (simp add: sample_app_def sample_one_box del: run_gc.simps)
qed

end
