(* ===== verification/Sled_Props.thy ===== *)
theory Sled_Props
  imports Std_Sled Server_Props
begin

text \<open>
  The properties of the persistent backend, for every tree library and every codec that keep
  their laws, with witnesses on the reference instance of \<open>Std_Sled\<close>; and its agreement with
  the in-memory backend.
\<close>

section \<open>The specification of a run of pushes and acknowledgements\<close>

fun stores_or_acks :: "store_event \<Rightarrow> bool" where
  "stores_or_acks (EvPush m) = True"
| "stores_or_acks (EvAck r items) = True"
| "stores_or_acks _ = False"

fun event_boxes :: "relay_limits \<Rightarrow> store_event \<Rightarrow> (string \<Rightarrow> mailbox) \<Rightarrow> string \<Rightarrow> mailbox" where
  "event_boxes limits (EvPush m) b =
     b(im_recipient m := snd (spec_push limits m (b (im_recipient m))))"
| "event_boxes limits (EvAck r items) b = b(r := ack_box items (b r))"
| "event_boxes limits _ b = b"

context relay_system
begin

lemma event_spec:
  assumes "reached D limits init k s" and "k < 2 ^ 64 - 1" and "max_queue_bytes_per_user limits \<noteq> - 1"
    and "event_ok e" and "stores_or_acks e" and "\<forall>r. addressable r \<longrightarrow> box s r = b r"
  shows "\<forall>r. addressable r \<longrightarrow> box (event_state D limits e s) r = event_boxes limits e b r"
proof -
  have inv: "inv s" using reached_inv [OF assms(1-3)] by simp
  show ?thesis
  proof (cases e)
    case (EvPush m)
    have m: "addressable (im_recipient m)" using assms(4) EvPush by simp
    obtain res s' where p: "op_push D s m limits = (res, s')" by fastforce
    from push_contract [OF inv m assms(3) reached_room [OF assms(1-3) m] p] show ?thesis
      using EvPush p m assms(6) by (auto simp: fun_upd_def dest: arg_cong [of _ _ snd])
  next
    case (EvAck r items)
    have r: "addressable r" "length items < 2 ^ 64" using assms(4) EvAck by simp_all
    obtain res s' where a: "op_ack D s r items = (res, s')" by fastforce
    from ack_contract [OF inv r a] show ?thesis using EvAck a r assms(6) by auto
  qed (use assms(5) in simp_all)
qed

lemma run_spec:
  assumes "reached D limits init k s" and "k + length es < 2 ^ 64 - 1" and lim: "max_queue_bytes_per_user limits \<noteq> - 1"
    and "\<forall>e\<in>set es. event_ok e \<and> stores_or_acks e" and "\<forall>r. addressable r \<longrightarrow> box s r = b r"
  shows "\<forall>r. addressable r \<longrightarrow> box (run_events D limits es s) r = fold (event_boxes limits) es b r"
  using assms(1,2,4,5)
proof (induction es arbitrary: k s b)
  case (Cons e es)
  have k: "k < 2 ^ 64 - 1" and e: "event_ok e" "stores_or_acks e" using Cons.prems(2,3) by simp_all
  have "reached D limits init (Suc k) (event_state D limits e s)"
    using Cons.prems(1) e(1) by (rule reached.step)
  from Cons.IH [OF this _ _ event_spec [OF Cons.prems(1) k lim e Cons.prems(4)]] Cons.prems(2,3)
  show ?case by simp
qed simp

end

section \<open>Sample values for the witnesses\<close>

abbreviation std_box :: "(bytes, bytes) btree sled_store \<Rightarrow> string \<Rightarrow> mailbox" where
  "std_box \<equiv> sled_box (\<lambda>t. t) std_codecs"

abbreviation std_ops :: "(bytes, bytes) btree sled_store store_ops" where
  "std_ops \<equiv> sled_ops std_externals std_tree std_codecs"

text \<open>The reference store after one message with key 1 and deadline 2000 was pushed.\<close>

definition sample_sled :: "(bytes, bytes) btree sled_store" where
  "sample_sled = snd (sled_push std_tree std_codecs std_init (sample_msg 1 2000) limits_default)"

lemma sample_sled_push:
  "sled_push std_tree std_codecs std_init (sample_msg 1 2000) limits_default
     = (Inr \<lparr>ps_stored = True, ps_duplicate = False, ps_queue_len = 1, ps_queue_bytes = 3\<rparr>, sample_sled)"
  "std_box sample_sled ''alice'' = (1, [stored_message (sample_msg 1 2000) 0])"
proof -
  obtain res s1 where p: "sled_push std_tree std_codecs std_init (sample_msg 1 2000) limits_default = (res, s1)" by fastforce
  then have s1: "s1 = sample_sled" by (simp add: sample_sled_def)
  have "op_push std_ops std_init (sample_msg 1 2000) limits_default = (res, s1)" using p by (simp add: sled_ops_def)
  from std_sled.sled.push_contract [OF std_sled.sled.init_inv _ _ _ this]
  have "res = Inr \<lparr>ps_stored = True, ps_duplicate = False, ps_queue_len = 1, ps_queue_bytes = 3\<rparr>
      \<and> std_box s1 ''alice'' = (1, [stored_message (sample_msg 1 2000) 0])"
    by (simp add: sample_addressable std_sled.sled.init_box)
  then show "sled_push std_tree std_codecs std_init (sample_msg 1 2000) limits_default
     = (Inr \<lparr>ps_stored = True, ps_duplicate = False, ps_queue_len = 1, ps_queue_bytes = 3\<rparr>, sample_sled)"
    and "std_box sample_sled ''alice'' = (1, [stored_message (sample_msg 1 2000) 0])"
    using p s1 by simp_all
qed

lemma sample_sled_reached: "reached std_ops limits_default std_init 1 sample_sled"
proof -
  have "reached std_ops limits_default std_init (Suc 0)
      (event_state std_ops limits_default (EvPush (sample_msg 1 2000)) std_init)"
    by (intro reached.step reached.start) (simp add: sample_addressable)
  then show ?thesis by (simp add: sled_ops_def sample_sled_def)
qed

lemma sample_sled_inv: "sled_inv (\<lambda>t. t) bt_ok std_codecs sample_sled"
  using std_sled.sled.reached_inv [OF sample_sled_reached] by simp

section \<open>Delivery\<close>

text \<open>
  C6. An accepted message is delivered by the persistent backend too. From any state it reaches
  from empty trees, once \<open>push\<close> has answered \<open>stored\<close>, and after any further operations that
  neither acknowledge the message nor run at or past its deadline, a client that follows the
  cursors receives it, in a list that is exactly the unexpired queue in arrival order.
\<close>

theorem sled_accepted_delivered:
  assumes "sled_opened T view ok C init" and "cursor_codec E" and "reached (sled_ops E T C) limits init k s"
    and "k + length es + 1 < 2 ^ 64 - 1" and "max_queue_bytes_per_user limits \<noteq> u64_max"
    and "addressable (im_recipient m)"
    and "sled_push T C s m limits = (Inr res, s1)" and "ps_stored res"
    and "\<forall>e\<in>set es. event_ok e
      \<and> spares (im_recipient m) (stored_message m (fst (sled_box view C s (im_recipient m)))) e"
    and "now < im_deadline_ms m" and "0 < limit"
  shows "let s2 = run_events (sled_ops E T C) limits es s1; r = im_recipient m in
    \<exists>items s3. drain (sled_ops E T C) r limit now (Suc (length (snd (sled_box view C s2 r)))) None s2 = Some (items, s3)
      \<and> stored_message m (fst (sled_box view C s r)) \<in> set items
      \<and> items = filter (live now) (snd (sled_box view C s2 r))"
proof -
  have "op_push (sled_ops E T C) s m limits = (Inr res, s1)" using assms(7) by (simp add: sled_ops_def)
  from relay_service.accepted_delivered
    [OF sled_opened.service [OF assms(1,2)] assms(3-6) this assms(8-11)]
  show ?thesis .
qed

theorem sled_accepted_delivered_witness:
  "\<exists>items s3. drain std_ops ''alice'' 10 1600
      (Suc (length (snd (std_box (run_events std_ops limits_default
        [EvPurge 1500 10, EvPush (sample_msg 2 1700)] sample_sled) ''alice'')))) None
      (run_events std_ops limits_default [EvPurge 1500 10, EvPush (sample_msg 2 1700)] sample_sled) = Some (items, s3)
    \<and> stored_message (sample_msg 1 2000) 0 \<in> set items"
  using sled_accepted_delivered [OF std_sled.sled_opened_axioms std.cursor_codec_axioms reached.start _ _ _ sample_sled_push(1),
      of "[EvPurge 1500 10, EvPush (sample_msg 2 1700)]" 1600 10]
  by (auto simp: sample_addressable live_def Let_def std_sled.sled.init_box simp del: drain.simps run_events.simps)

section \<open>The invariant in reached states\<close>

context sled_backend
begin

lemma inv_consistent:
  assumes "sled_inv view ok C s" and r: "addressable r"
  shows "\<exists>q. read_quota_latest T C s r = Inr q
    \<and> unat (qv_count q) = length (snd (sled_box view C s r)) \<and> unat (qv_bytes q) = box_bytes (snd (sled_box view C s r))
    \<and> (\<forall>i c. tr_get T (ss_index s) (index_key C r i c) \<noteq> Inr None
        \<longleftrightarrow> (i, c) \<in> msg_key ` set (snd (sled_box view C s r)))"
proof -
  obtain ms where rep: "sled_rep view ok C s ms" using assms(1) by (auto simp: sled_inv_def)
  then have ok: "ok (ss_quota s)" "ok (ss_index s)" and sm: "sled_msgs C (view (ss_messages s)) (view (ss_index s)) ms"
    by (simp_all add: sled_rep_def trees_ok_def)
  have box: "snd (sled_box view C s r) = of_rcpt r ms" by (simp add: sled_rep_box [OF rep])
  obtain q where q: "quota_read C (view (ss_quota s)) r = Some q" "quota_for (of_rcpt r ms) q"
    using sled_rep_quota [OF rep r] by blast
  have "tr_get T (ss_index s) (index_key C r i c) \<noteq> Inr None \<longleftrightarrow> (i, c) \<in> msg_key ` set (of_rcpt r ms)" for i c
    using index_hit [OF sm r, of i c] by (simp add: get_view ok)
  then show ?thesis
    using q read_quota_simps(1) [OF ok(1) q(1)]
    by (simp add: box read_quota_latest_def quota_for_def del: of_rcpt_simps(4))
qed

end

text \<open>
  C13. In every state the persistent backend reaches from empty trees, and for every recipient:
  the stored quota is readable and is exactly the number and the bytes of the queued messages,
  these are within the limits, in arrival order and without duplicates, and the index has an
  entry for a key exactly when a message with that key is queued.
\<close>

theorem sled_reached_consistent:
  assumes "sled_opened T view ok C init" and "reached (sled_ops E T C) limits init k s" and "k < 2 ^ 64 - 1"
    and "max_queue_bytes_per_user limits \<noteq> u64_max" and "addressable r"
  shows "\<exists>q. read_quota_latest T C s r = Inr q
    \<and> unat (qv_count q) = length (snd (sled_box view C s r)) \<and> unat (qv_bytes q) = box_bytes (snd (sled_box view C s r))
    \<and> within_limits limits (sled_box view C s r) \<and> box_ok r (sled_box view C s r)
    \<and> (\<forall>i c. tr_get T (ss_index s) (index_key C r i c) \<noteq> Inr None
        \<longleftrightarrow> (i, c) \<in> msg_key ` set (snd (sled_box view C s r)))"
proof -
  note b = sled_opened.axioms(1) [OF assms(1)]
  have inv: "sled_inv view ok C s" and lim: "within_limits limits (sled_box view C s r)"
    using relay_system.reached_inv [OF sled_opened.system [OF assms(1)] assms(2-4)] assms(5) by blast+
  show ?thesis
    using sled_backend.inv_consistent [OF b inv assms(5)] sled_backend.sled_box_ok [OF b inv assms(5)] lim by blast
qed

theorem sled_reached_consistent_witness:
  "\<exists>q. read_quota_latest std_tree std_codecs sample_sled ''alice'' = Inr q \<and> unat (qv_count q) = 1 \<and> unat (qv_bytes q) = 3
    \<and> tr_get std_tree (ss_index sample_sled) (index_key std_codecs ''alice'' 1 0) \<noteq> Inr None
    \<and> tr_get std_tree (ss_index sample_sled) (index_key std_codecs ''alice'' 2 0) = Inr None"
proof -
  obtain q where q: "read_quota_latest std_tree std_codecs sample_sled ''alice'' = Inr q"
      "unat (qv_count q) = 1" "unat (qv_bytes q) = 3"
    and idx: "\<forall>i c. tr_get std_tree (ss_index sample_sled) (index_key std_codecs ''alice'' i c) \<noteq> Inr None
        \<longleftrightarrow> (i, c) \<in> msg_key ` set (snd (std_box sample_sled ''alice''))"
    using sled_reached_consistent [OF std_sled.sled_opened_axioms sample_sled_reached _ _ sample_addressable]
    by (auto simp: sample_sled_push(2))
  have "tr_get std_tree (ss_index sample_sled) (index_key std_codecs ''alice'' i c) \<noteq> Inr None \<longleftrightarrow> (i, c) = (1, 0)" for i c
    using idx [rule_format, of i c] by (simp add: sample_sled_push(2))
  from this [of 1 0] this [of 2 0] q show ?thesis by auto
qed

section \<open>Push and pull\<close>

text \<open>
  C16. A push on the persistent backend implements the specification: in a state of the
  invariant, with room in the counter and in the byte limit, its answer and its effect on the
  recipient's mailbox are those of \<open>spec_push\<close> on every branch (duplicate, too many messages,
  too many bytes, stored), it keeps the invariant of the four trees, and it touches no other
  mailbox.
\<close>

theorem sled_push_outcome:
  assumes "sled_backend T view ok C" and "sled_inv view ok C s" and "addressable (im_recipient msg)"
    and "max_queue_bytes_per_user limits \<noteq> u64_max" and "fst (sled_box view C s (im_recipient msg)) \<noteq> u64_max"
    and "sled_push T C s msg limits = (res, s')"
  shows "sled_inv view ok C s'
    \<and> spec_push limits msg (sled_box view C s (im_recipient msg)) = (res, sled_box view C s' (im_recipient msg))
    \<and> (\<forall>q. addressable q \<longrightarrow> q \<noteq> im_recipient msg \<longrightarrow> sled_box view C s' q = sled_box view C s q)"
  by (rule sled_backend.sled_push_refines [OF assms])

theorem sled_push_outcome_witness:
  "\<exists>s'. sled_push std_tree std_codecs sample_sled (sample_msg 2 2500) limits_default
      = (Inr \<lparr>ps_stored = True, ps_duplicate = False, ps_queue_len = 2, ps_queue_bytes = 6\<rparr>, s')
    \<and> std_box s' ''alice'' = (2, [stored_message (sample_msg 1 2000) 0, stored_message (sample_msg 2 2500) 1])"
proof -
  obtain res s' where p: "sled_push std_tree std_codecs sample_sled (sample_msg 2 2500) limits_default = (res, s')" by fastforce
  from sled_push_outcome [OF std_sled.sled_backend_axioms sample_sled_inv _ _ _ p] show ?thesis
    using p by (simp add: sample_addressable sample_sled_push(2))
qed

text \<open>
  C17. A pull on the persistent backend changes nothing and returns the batch of the
  specification: the first unexpired messages of the recipient behind the cursor, up to the
  limit and in arrival order, with a cursor exactly when more are left, and the number of
  queued messages less those returned. With a cursor it cannot resolve it fails.
\<close>

theorem sled_pull_outcome:
  assumes "sled_backend T view ok C" and "sled_inv view ok C s" and "addressable r"
  shows "sled_pull E T C s r cursor limit now =
    (case resolve_cursor E r cursor of
       Inl e \<Rightarrow> (Inl e, s)
     | Inr c \<Rightarrow> (Inr (spec_batch E r c limit now (sled_box view C s r) (sled_box view C s r)), s))"
  by (cases "resolve_cursor E r cursor")
    (simp_all add: sled_backend.sled_pull_refines [OF assms] sled_backend.sled_pull_bad_cursor [OF assms(1)])

theorem sled_pull_outcome_witness:
  "\<exists>b. fst (sled_pull std_externals std_tree std_codecs sample_sled ''alice'' None 10 1500) = Inr b
    \<and> pb_items b = [stored_message (sample_msg 1 2000) 0] \<and> pb_next_cursor b = None \<and> pb_remaining_estimate b = 0"
  using sled_pull_outcome [OF std_sled.sled_backend_axioms sample_sled_inv sample_addressable, of std_externals None 10 1500]
  by (simp add: resolve_cursor_def spec_batch_def selection_def after_cursor_def live_def page_limit_def
      sample_sled_push(2) Let_def)

section \<open>Acknowledgement and purge\<close>

text \<open>
  C19. An acknowledgement on the persistent backend removes exactly the named messages of the
  recipient, whatever the order in which the set of items is walked, keeps the order and the
  counter of the others and every other recipient's queue, and answers with the number removed,
  the number of distinct items that were not queued, and the number left.
\<close>

theorem sled_ack_outcome:
  assumes "sled_backend T view ok C" and "sled_inv view ok C s" and "addressable r" and "length items < 2 ^ 64"
    and "sled_ack T C s r items = (res, s')"
  shows "sled_box view C s' r = (fst (sled_box view C s r), filter (\<lambda>m. \<not> acked items m) (snd (sled_box view C s r)))
    \<and> res = Inr \<lparr>ao_deleted = word_of_nat (length (filter (acked items) (snd (sled_box view C s r)))),
        ao_missing = word_of_nat (length (remdups items) - length (filter (acked items) (snd (sled_box view C s r)))),
        ao_remaining = word_of_nat (length (snd (sled_box view C s' r)))\<rparr>
    \<and> sled_inv view ok C s'
    \<and> (\<forall>q. addressable q \<longrightarrow> q \<noteq> r \<longrightarrow> sled_box view C s' q = sled_box view C s q)"
  using sled_backend.sled_ack_refines [OF assms] by (simp add: ack_box_def ack_count_def)

theorem sled_ack_outcome_witness:
  "\<exists>s'. sled_ack std_tree std_codecs sample_sled ''alice''
      [\<lparr>ai_message_id = 1, ai_chunk_index = 0\<rparr>, \<lparr>ai_message_id = 7, ai_chunk_index = 0\<rparr>]
    = (Inr \<lparr>ao_deleted = 1, ao_missing = 1, ao_remaining = 0\<rparr>, s') \<and> std_box s' ''alice'' = (1, [])"
proof -
  let ?items = "[\<lparr>ai_message_id = 1, ai_chunk_index = 0\<rparr>, \<lparr>ai_message_id = 7, ai_chunk_index = 0\<rparr>]"
  obtain res s' where a: "sled_ack std_tree std_codecs sample_sled ''alice'' ?items = (res, s')" by fastforce
  have hit: "acked ?items (stored_message (sample_msg 1 2000) 0)" by (simp add: acked_def ack_key_def)
  show ?thesis
    using sled_ack_outcome [OF std_sled.sled_backend_axioms sample_sled_inv sample_addressable _ a] a
    by (simp add: sample_sled_push(2) hit)
qed

text \<open>
  C21. A purge of the persistent backend removes at most the smaller of its argument and 1024
  messages, in every recipient's queue only expired ones, and answers with the number it removed:
  the message tree has that many entries less. Its scan passes over live messages, so when it
  removed fewer than that, every queue holds exactly its unexpired messages.
\<close>

theorem sled_purge_outcome:
  assumes "sled_backend T view ok C" and "sled_inv view ok C s" and "sled_purge_expired T C s now n = (res, s')"
  shows "\<exists>k. res = Inr k \<and> k \<le> min n 1024 \<and> sled_inv view ok C s'
    \<and> k + length (view (ss_messages s')) = length (view (ss_messages s))
    \<and> (\<forall>r. expiry_step now (sled_box view C s r) (sled_box view C s' r))
    \<and> (k < min n 1024 \<longrightarrow> (\<forall>r. snd (sled_box view C s' r) = filter (live now) (snd (sled_box view C s r))))"
  using sled_backend.sled_purge_refines [OF assms] by auto

theorem sled_purge_outcome_witness:
  "\<exists>s'. sled_purge_expired std_tree std_codecs sample_sled 2000 10 = (Inr 1, s') \<and> ss_messages s' = []
    \<and> snd (std_box s' ''alice'') = []"
proof -
  obtain res s' where p: "sled_purge_expired std_tree std_codecs sample_sled 2000 10 = (res, s')" by fastforce
  have one: "ss_messages sample_sled = [(mkey std_codecs (stored_message (sample_msg 1 2000) 0), mval std_codecs (stored_message (sample_msg 1 2000) 0))]"
    using std_sled.first_push [of limits_default "sample_msg 1 2000"] by (simp add: sample_sled_push(1))
  have len: "length (ss_messages sample_sled) = 1" by (simp add: one)
  obtain k where k: "res = Inr k" "k + length (ss_messages s') = 1"
    and live: "k < min 10 1024 \<longrightarrow> (\<forall>r. snd (std_box s' r) = filter (live 2000) (snd (std_box sample_sled r)))"
    using sled_purge_outcome [OF std_sled.sled_backend_axioms sample_sled_inv p] unfolding len by blast
  have none: "snd (std_box s' r) = []" for r
    using live k(2) by (simp add: sled_box_def all_msgs_def one std_sled.msg_val live_def sample_msg_def)
  have "ss_messages s' = []"
  proof (cases "ss_messages s'")
    case (Cons e es)
    then show ?thesis using none [of "qm_recipient (projr (msg_from_slice std_codecs (snd e)))"]
      by (simp add: sled_box_def all_msgs_def)
  qed simp
  then show ?thesis using p k none by simp
qed

context sled_backend
begin

lemma purge_quotas_distinct:
  assumes "sled_inv view ok C s" and "purge_scan T C now target (tr_iter T (ss_messages s)) 0 [] s = (Inr (k, quotas), s1)"
  shows "distinct (map fst quotas)"
proof -
  obtain ms where rep: "sled_rep view ok C s ms" using assms(1) by (auto simp: sled_inv_def)
  have ok: "ok (ss_messages s)" and sm: "sled_msgs C (view (ss_messages s)) (view (ss_index s)) ms"
    using rep by (simp_all add: sled_rep_def trees_ok_def)
  have st: "purge_state view ok C (ss_quota s) (ss_seq s) [] s ms"
    using rep by (simp add: purge_state_def pending_def sled_rep_def quotas_ok_def)
  have iter: "tr_iter T (ss_messages s) = map (\<lambda>m. Inr (mkey C m, mval C m)) ms"
    using sm by (simp add: iter_view [OF ok] sled_msgs_def)
  show ?thesis
    using purge_scan_spec [OF st subset_refl sled_msgs_distinct [OF sm view_ok [OF ok]], of 0 target now] assms(2)
    unfolding iter by (auto simp: Let_def purge_state_def)
qed

end

text \<open>
  C23. A purge of the persistent backend is not a transaction. Whatever other operations make of
  the store between its loop and its last writes (\<open>s2\<close> is any store they may leave), the quotas
  it writes are those the loop computed, and messages and index stay as they are: a push to the
  recipient of an expired message that falls in between is stored but not counted.
\<close>

theorem purge_overwrites_quota:
  assumes "sled_backend T view ok C" and "sled_inv view ok C s"
    and "purge_scan T C now target (tr_iter T (ss_messages s)) 0 [] s = (Inr (k, quotas), s1)"
    and "map_of quotas r = Some q" and "trees_ok ok s2"
  shows "\<exists>s3. write_quotas T C quotas s2 = (Inr (), s3) \<and> read_quota_latest T C s3 r = Inr q
    \<and> ss_messages s3 = ss_messages s2 \<and> ss_index s3 = ss_index s2"
proof -
  note d = sled_backend.purge_quotas_distinct [OF assms(1-3)]
  obtain quota where w: "write_quotas T C quotas s2 = (Inr (), s2\<lparr>ss_quota := quota\<rparr>)" "ok quota"
      "\<forall>r. quota_read C (view quota) r = pending C quotas (view (ss_quota s2)) r"
    using sled_backend.write_quotas_spec [OF assms(1,5) d] by blast
  have "quota_read C (view quota) r = Some q" using w(3) assms(4) by (simp add: pending_def)
  then show ?thesis
    using w sled_backend.read_quota_simps(1) [OF assms(1) w(2)] by (simp add: read_quota_latest_def)
qed

context sled_backend
begin

lemma push_tx_ok: "push_tx T C msg limits s = Inr (out, s') \<Longrightarrow> trees_ok ok s \<Longrightarrow> trees_ok ok s'"
  by (auto simp: push_tx_def Let_def res_bind_Inr_iff tx_simps trees_ok_def tree_ok_simps split: if_splits)

lemma sled_push_trees_ok:
  assumes "trees_ok ok s"
  shows "trees_ok ok (snd (sled_push T C s msg limits))"
proof (cases "push_tx T C msg limits s")
  case (Inl e)
  then show ?thesis using sled_push_run [OF assms Inl] assms by simp
next
  case (Inr y)
  obtain x s' where y: "y = (x, s')" by fastforce
  then have "trees_ok ok s'" using push_tx_ok [OF _ assms] Inr by blast
  then show ?thesis using sled_push_run [OF assms Inr] synced_sel(2) by (simp add: y)
qed

end

lemma sample_sled_scan:
  "\<exists>q s1. purge_scan std_tree std_codecs 2000 10 (tr_iter std_tree (ss_messages sample_sled)) 0 [] sample_sled
     = (Inr (1, [(''alice'', q)]), s1) \<and> qv_count q = 0 \<and> trees_ok bt_ok s1"
proof -
  let ?m = "stored_message (sample_msg 1 2000) 0"
  obtain ms where rep: "sled_rep (\<lambda>t. t) bt_ok std_codecs sample_sled ms"
    using sample_sled_inv by (auto simp: sled_inv_def)
  have ok: "trees_ok bt_ok sample_sled" using rep by (simp add: sled_rep_def)
  have msgs: "ss_messages sample_sled = [(mkey std_codecs ?m, mval std_codecs ?m)]"
    using std_sled.first_push [of limits_default "sample_msg 1 2000"] by (simp add: sample_sled_push(1))
  obtain q where q: "read_quota_tree std_tree std_codecs (ss_quota sample_sled) (quota_key ''alice'') = Inr q" "unat (qv_count q) = 1"
    using sled_reached_consistent [OF std_sled.sled_opened_axioms sample_sled_reached _ _ sample_addressable]
    by (auto simp: sample_sled_push(2) read_quota_latest_def)
  have "unat (sat_sub (qv_count q) 1) = 0" using q(2) by (simp add: sat_simps)
  then have "sat_sub (qv_count q) 1 = 0" by (simp add: unat_eq_zero)
  moreover have "tr_remove std_tree k t = Inr (bt_remove k t)" "tr_iter std_tree t = map Inr t" for k t
    by (simp_all add: std_tree_def)
  ultimately show ?thesis
    using ok by (simp add: msgs std_sled.msg_val lookup_quota_def read_quota_latest_def q Let_def trees_ok_def
        bt.ok_remove)
qed

theorem purge_overwrites_quota_witness:
  "\<exists>quotas s1 s2 s3 q.
     purge_scan std_tree std_codecs 2000 10 (tr_iter std_tree (ss_messages sample_sled)) 0 [] sample_sled = (Inr (1, quotas), s1)
   \<and> s2 = snd (sled_push std_tree std_codecs s1 (sample_msg 2 2500) limits_default)
   \<and> write_quotas std_tree std_codecs quotas s2 = (Inr (), s3) \<and> ss_messages s3 = ss_messages s2
   \<and> read_quota_latest std_tree std_codecs s3 ''alice'' = Inr q \<and> qv_count q = 0"
proof -
  obtain q s1 where scan: "purge_scan std_tree std_codecs 2000 10 (tr_iter std_tree (ss_messages sample_sled)) 0 [] sample_sled
      = (Inr (1, [(''alice'', q)]), s1)" and q: "qv_count q = 0" and ok: "trees_ok bt_ok s1"
    using sample_sled_scan by blast
  let ?s2 = "snd (sled_push std_tree std_codecs s1 (sample_msg 2 2500) limits_default)"
  obtain s3 where s3: "write_quotas std_tree std_codecs [(''alice'', q)] ?s2 = (Inr (), s3)"
      "read_quota_latest std_tree std_codecs s3 ''alice'' = Inr q" "ss_messages s3 = ss_messages ?s2"
    using purge_overwrites_quota [OF std_sled.sled_backend_axioms sample_sled_inv scan _ std_sled.sled_push_trees_ok [OF ok]]
    by force
  show ?thesis
    by (intro exI [of _ "[(''alice'', q)]"] exI [of _ s1] exI [of _ ?s2] exI [of _ s3] exI [of _ q] conjI scan refl s3 q)
qed

section \<open>Keys\<close>

text \<open>
  C34. Message keys. For recipients without a colon, different messages have different keys, a
  key parses back to the sequence number it was made from, the prefix of a recipient matches
  the keys of that recipient only, and keys of one recipient sort, as byte strings, in the
  order of their numbers; the stored form of a number decodes to it.
\<close>

theorem sled_keys:
  assumes "uuid_format C" and "addressable r" and "addressable q"
  shows "(message_key C r m i c = message_key C q n j d \<longleftrightarrow> r = q \<and> m = n \<and> i = j \<and> c = d)
    \<and> parse_seq_from_key (message_key C r m i c) = Inr (Some m)
    \<and> (has_prefix (message_prefix q) (message_key C r m i c) \<longleftrightarrow> q = r)
    \<and> (m < n \<longrightarrow> message_key C r m i c < message_key C r n j d)
    \<and> decode_u64 (encode_u64 m) = Inr m"
  using uuid_format.message_key_eq [OF assms] uuid_format.parse_message_key [OF assms(1,2)]
    uuid_format.message_prefix_key [OF assms(1,3,2)] uuid_format.message_key_less [OF assms(1)]
  by simp

theorem sled_keys_witness:
  "message_key std_codecs ''alice'' 9 1 0 < message_key std_codecs ''alice'' 10 0 0
   \<and> parse_seq_from_key (message_key std_codecs ''alice'' 10 1 0) = Inr (Some 10)"
  using sled_keys [OF std_sled.uuid_format_axioms sample_addressable sample_addressable, of 9 1 0 10 0 0]
    sled_keys [OF std_sled.uuid_format_axioms sample_addressable sample_addressable, of 10 1 0 10 0 0] by simp

section \<open>Recipients with a colon\<close>

text \<open>What the text after the first colon of a recipient is taken for: a sequence number.\<close>

definition read_as_seq :: "string \<Rightarrow> u64 option result" where
  "read_as_seq x = res_bind (ok_or (Internal ''invalid key'') (parse_u64 x)) (\<lambda>n. Inr (Some n))"

context sled_opened
begin

lemma parse_colon_key:
  assumes "addressable r" and "utf8_valid x" and "CHR '':'' \<notin> set x"
  shows "has_prefix (message_prefix r) (message_key C (r @ CHR '':'' # x) n i c)"
    and "parse_seq_from_key (message_key C (r @ CHR '':'' # x) n i c)
      = read_as_seq x"
proof -
  have key: "message_key C (r @ CHR '':'' # x) n i c
      = message_prefix r @ x @ CHR '':'' # digs 20 (unat n) @ CHR '':'' # uuid_text C i @ CHR '':'' # digs 10 (unat c)"
    by (simp add: message_key_digs message_prefix_def)
  then show "has_prefix (message_prefix r) (message_key C (r @ CHR '':'' # x) n i c)" by simp
  let ?t = "CHR '':'' # digs 20 (unat n) @ CHR '':'' # uuid_text C i @ CHR '':'' # digs 10 (unat c)"
  have "utf8_valid (r @ '':'' @ x)"
    using assms utf8_valid_append [OF _ utf8_valid_append [OF utf8_valid_ascii, of "'':''" x], of r]
    by (simp add: addressable_def ascii_char_def)
  moreover have "list_all ascii_char ?t" using digs_ascii uuid_text_ascii by (simp add: ascii_char_def)
  ultimately have "utf8_valid (''msg:'' @ (r @ '':'' @ x) @ ?t)" by (rule utf8_valid_tail)
  then have "from_utf8_lossy (message_key C (r @ CHR '':'' # x) n i c) = ''msg'' @ CHR '':'' # r @ CHR '':'' # x @ ?t"
    by (simp add: key message_prefix_def from_utf8_lossy_valid)
  moreover have "str_split (CHR '':'') (''msg'' @ CHR '':'' # r @ CHR '':'' # x @ ?t)
      = [''msg'', r, x, digs 20 (unat n), uuid_text C i, digs 10 (unat c)]"
    using assms
    by (subst str_split_append; simp add: str_split_append str_split_none addressable_sep digs_no_sep uuid_text_sep)
  ultimately show "parse_seq_from_key (message_key C (r @ CHR '':'' # x) n i c) = read_as_seq x"
    by (simp add: parse_seq_from_key_def read_as_seq_def)
qed

lemma colon_pull:
  assumes r: "addressable r" and x: "utf8_valid x" "CHR '':'' \<notin> set x" and m: "im_recipient msg = r @ CHR '':'' # x"
    and lim: "max_messages_per_user limits \<noteq> 0" "im_payload_bytes msg \<le> max_queue_bytes_per_user limits"
    and quiet: "now < im_deadline_ms msg" "limit \<noteq> 0"
  shows "\<exists>out s1. sled_push T C init msg limits = (Inr out, s1) \<and> ps_stored out
    \<and> (parse_u64 x = None \<longrightarrow> sled_pull E T C s1 r None limit now = (Inl (Internal ''invalid key''), s1))
    \<and> (parse_u64 x \<noteq> None \<longrightarrow> (\<exists>b. sled_pull E T C s1 r None limit now = (Inr b, s1)
          \<and> pb_items b = [stored_message msg 0]))"
proof -
  let ?m = "stored_message msg 0"
  obtain s1 where push: "sled_push T C init msg limits = (Inr \<lparr>ps_stored = True, ps_duplicate = False,
        ps_queue_len = 1, ps_queue_bytes = im_payload_bytes msg\<rparr>, s1)"
    and ok: "trees_ok ok s1" and v: "view (ss_messages s1) = [(mkey C ?m, mval C ?m)]"
    and none: "\<forall>q. q \<noteq> im_recipient msg \<longrightarrow> bt_get (view (ss_quota s1)) (quota_key q) = None"
    using first_push [OF lim] by blast
  note key = parse_colon_key [OF r x, of 0 "im_message_id msg" "mm_chunk_index (im_meta msg)"]
  have mk: "mkey C ?m = message_key C (r @ CHR '':'' # x) 0 (im_message_id msg) (mm_chunk_index (im_meta msg))"
    by (simp add: mkey_def m)
  have scan: "tr_scan_prefix T (message_prefix r) (ss_messages s1) = [Inr (mkey C ?m, mval C ?m)]"
    using ok key(1) by (simp add: scan_view trees_ok_def v mk)
  have "0 < unat (min limit 4294967295)" using quiet(2) by (simp add: unat_gt_0 min_def)
  then have scanned: "sled_scan C None now (unat (min limit 4294967295)) [Inr (mkey C ?m, mval C ?m)] []
      = (case parse_u64 x of None \<Rightarrow> Inl (Internal ''invalid key'') | Some _ \<Rightarrow> Inr ([?m], False))"
    using key(2) quiet(1) by (simp add: mk read_as_seq_def msg_val not_le split: option.split)
  have quota: "read_quota_latest T C s1 r = Inr quota_default"
    using ok none by (simp add: m read_quota_latest_def read_quota_tree_def get_view trees_ok_def)
  have pull: "sled_pull E T C s1 r None limit now = (case parse_u64 x of
      None \<Rightarrow> (Inl (Internal ''invalid key''), s1)
    | Some _ \<Rightarrow> (Inr \<lparr>pb_items = [?m], pb_next_cursor = None,
        pb_remaining_estimate = sat_sub (qv_count quota_default) 1\<rparr>, s1))"
    unfolding sled_pull_def resolve_cursor_def Let_def option.case res_bind_simps scan scanned
    by (cases "parse_u64 x") (simp_all add: quota)
  show ?thesis
    using push by (cases "parse_u64 x") (simp_all add: pull)
qed

end

text \<open>
  C35. Recipients with a colon. The push handler accepts them, and the persistent backend files
  their messages under keys that begin like those of the recipient before the colon. After a
  message to \<open>r:x\<close> was stored in an empty relay, a pull of \<open>r\<close> fails with an internal error
  when \<open>x\<close> is not a number, and hands \<open>r\<close> the message of \<open>r:x\<close> when it is.
\<close>

theorem sled_colon_recipient:
  assumes "sled_opened T view ok C init" and "addressable r" and "utf8_valid x" and "CHR '':'' \<notin> set x"
    and "im_recipient msg = r @ CHR '':'' # x"
    and "max_messages_per_user limits \<noteq> 0" and "im_payload_bytes msg \<le> max_queue_bytes_per_user limits"
    and "now < im_deadline_ms msg" and "limit \<noteq> 0"
  shows "\<exists>out s1. sled_push T C init msg limits = (Inr out, s1) \<and> ps_stored out
    \<and> (parse_u64 x = None \<longrightarrow> sled_pull E T C s1 r None limit now = (Inl (Internal ''invalid key''), s1))
    \<and> (parse_u64 x \<noteq> None \<longrightarrow> (\<exists>b. sled_pull E T C s1 r None limit now = (Inr b, s1)
          \<and> pb_items b = [stored_message msg 0]))"
  by (rule sled_opened.colon_pull [OF assms])

theorem sled_colon_recipient_witness:
  "\<exists>out s1. sled_push std_tree std_codecs std_init (sample_msg 1 2000\<lparr>im_recipient := ''alice:x''\<rparr>) limits_default = (Inr out, s1)
    \<and> sled_pull std_externals std_tree std_codecs s1 ''alice'' None 10 1500 = (Inl (Internal ''invalid key''), s1)"
proof -
  have x: "utf8_valid ''x''" "parse_u64 ''x'' = None" by code_simp+
  show ?thesis
    using sled_colon_recipient [OF std_sled.sled_opened_axioms sample_addressable x(1), of
        "sample_msg 1 2000\<lparr>im_recipient := ''alice:x''\<rparr>" limits_default 1500 10 std_externals] x(2)
    by (auto simp: sample_msg_def)
qed

section \<open>Both backends\<close>

context relay_system
begin

text \<open>What an operation answers is determined by the mailbox of its recipient.\<close>

lemma push_answer:
  assumes "reached D limits init k s" and "k < 2 ^ 64 - 1" and "max_queue_bytes_per_user limits \<noteq> - 1"
    and "addressable (im_recipient m)"
  shows "fst (op_push D s m limits) = fst (spec_push limits m (box s (im_recipient m)))"
proof -
  obtain res s' where p: "op_push D s m limits = (res, s')" by fastforce
  have "inv s" using reached_inv [OF assms(1-3)] by simp
  from push_contract [OF this assms(4,3) reached_room [OF assms(1-4)] p] show ?thesis by (simp add: p)
qed

lemma pull_answer:
  assumes "reached D limits init k s" and "k < 2 ^ 64 - 1" and "max_queue_bytes_per_user limits \<noteq> - 1"
    and "addressable r" and "resolve_cursor E r cur = Inr c"
  shows "\<exists>b'. fst (op_pull D s r cur limit now) = Inr (spec_batch E r c limit now (box s r) b')
    \<and> expiry_step now (box s r) b'"
proof -
  obtain res s' where p: "op_pull D s r cur limit now = (res, s')" by fastforce
  have "inv s" using reached_inv [OF assms(1-3)] by simp
  from pull_contract [OF this assms(4,5) p] show ?thesis by (intro exI [of _ "box s' r"]) (simp add: p)
qed

lemma ack_answer:
  assumes "reached D limits init k s" and "k < 2 ^ 64 - 1" and "max_queue_bytes_per_user limits \<noteq> - 1"
    and "addressable r" and "length items < 2 ^ 64"
  shows "\<exists>out. fst (op_ack D s r items) = Inr out \<and> spec_ack items (box s r) out"
proof -
  obtain res s' where a: "op_ack D s r items = (res, s')" by fastforce
  have "inv s" using reached_inv [OF assms(1-3)] by simp
  from ack_contract [OF this assms(4,5) a] show ?thesis by (auto simp: a)
qed

end

lemma spec_ack_unique:
  "distinct items \<Longrightarrow> spec_ack items b out \<Longrightarrow> spec_ack items b out' \<Longrightarrow> out' = out"
  by (cases out; cases out') (simp add: spec_ack_def)

text \<open>Batches that differ in the expired messages a pull has dropped.\<close>

lemma spec_batch_dropped:
  assumes "expiry_step now b b'" and "length (snd b) < 2 ^ 64"
  shows "pb_items (spec_batch E r c limit now b b') = pb_items (spec_batch E r c limit now b b)"
    and "pb_next_cursor (spec_batch E r c limit now b b') = pb_next_cursor (spec_batch E r c limit now b b)"
    and "pb_remaining_estimate (spec_batch E r c limit now b b') \<le> pb_remaining_estimate (spec_batch E r c limit now b b)"
    and "\<forall>m\<in>set (snd b). live now m \<Longrightarrow> spec_batch E r c limit now b b' = spec_batch E r c limit now b b"
proof -
  obtain keep where keep: "snd b' = filter (\<lambda>m. live now m \<or> keep m) (snd b)"
    using assms(1) by (auto simp: expiry_step_def)
  have le: "length (snd b') \<le> length (snd b)" unfolding keep by (rule length_filter_le)
  show "pb_items (spec_batch E r c limit now b b') = pb_items (spec_batch E r c limit now b b)"
    and "pb_next_cursor (spec_batch E r c limit now b b') = pb_next_cursor (spec_batch E r c limit now b b)"
    by (simp_all add: spec_batch_def Let_def)
  have "unat (word_of_nat (k - n) :: u64) = k - n" if "k \<le> length (snd b)" for k n
    using that assms(2) by (intro unat_of_nat_small) simp
  then show "pb_remaining_estimate (spec_batch E r c limit now b b') \<le> pb_remaining_estimate (spec_batch E r c limit now b b)"
    using le by (simp add: spec_batch_def Let_def word_le_nat_alt diff_le_mono)
  show "spec_batch E r c limit now b b' = spec_batch E r c limit now b b" if "\<forall>m\<in>set (snd b). live now m"
  proof -
    have "snd b' = snd b" unfolding keep by (rule filter_True) (use that in simp)
    then show ?thesis by (simp add: spec_batch_def Let_def)
  qed
qed

text \<open>
  C7. The backends agree. After the same pushes and acknowledgements from an empty store, the
  in-memory and the persistent backend hold the same queue for every recipient, answer a
  further push alike, duplicates and exceeded quotas included, and an acknowledgement of distinct
  items. A pull with a cursor of the recipient, or none, gives the same page and the same next
  cursor; the estimate of what remains is the same too when no message of the recipient has
  expired, and else the in-memory one may be smaller, because its pull drops expired messages. A
  cursor that does not resolve is refused alike, except that the in-memory backend answers an empty
  page for a recipient it has never heard of.
\<close>

theorem backends_agree:
  assumes "sled_opened T view ok C init" and "\<forall>e\<in>set es. event_ok e \<and> stores_or_acks e"
    and "length es < 2 ^ 64 - 1" and "max_queue_bytes_per_user limits \<noteq> u64_max" and "addressable r"
    and s1: "s1 = run_events (mem_ops E) limits es mem_new"
    and s2: "s2 = run_events (sled_ops E T C) limits es init"
  shows "mem_box s1 r = sled_box view C s2 r
    \<and> (im_recipient m = r \<longrightarrow> fst (mem_push s1 m limits) = fst (sled_push T C s2 m limits))
    \<and> (distinct items \<and> length items < 2 ^ 64 \<longrightarrow> fst (mem_ack s1 r items) = fst (sled_ack T C s2 r items))
    \<and> (case resolve_cursor E r cur of
         Inr c \<Rightarrow> \<exists>b1 b2. fst (mem_pull E s1 r cur limit now) = Inr b1 \<and> fst (sled_pull E T C s2 r cur limit now) = Inr b2
           \<and> pb_items b1 = pb_items b2 \<and> pb_next_cursor b1 = pb_next_cursor b2
           \<and> pb_remaining_estimate b1 \<le> pb_remaining_estimate b2
           \<and> ((\<forall>x\<in>set (snd (mem_box s1 r)). live now x) \<longrightarrow> b1 = b2)
       | Inl e \<Rightarrow> fst (sled_pull E T C s2 r cur limit now) = Inl e
           \<and> (fst (mem_pull E s1 r cur limit now) = Inl e \<or> bt_get s1 r = None))"
proof -
  have es: "\<forall>e\<in>set es. event_ok e" using assms(2) by simp
  note S = sled_opened.system [OF assms(1), of E] and M = mem.relay_system_axioms [of E]
  have reach: "reached (mem_ops E) limits mem_new (length es) s1" "reached (sled_ops E T C) limits init (length es) s2"
    using reached_run [OF reached.start es] unfolding s1 s2 by simp_all
  have len: "0 + length es < 2 ^ 64 - 1" using assms(3) by simp
  have "mem_box s1 r = fold (event_boxes limits) es (\<lambda>_. (0, [])) r"
    unfolding s1
    by (rule relay_system.run_spec [OF M reached.start len assms(4,2), rule_format, OF _ assms(5)])
      (rule relay_system.init_box [OF M])
  moreover have "sled_box view C s2 r = fold (event_boxes limits) es (\<lambda>_. (0, [])) r"
    unfolding s2
    by (rule relay_system.run_spec [OF S reached.start len assms(4,2), rule_format, OF _ assms(5)])
      (rule relay_system.init_box [OF S])
  ultimately have box: "mem_box s1 r = sled_box view C s2 r" by simp
  have push: "im_recipient m = r \<longrightarrow> fst (mem_push s1 m limits) = fst (sled_push T C s2 m limits)"
    using relay_system.push_answer [OF M reach(1) assms(3,4), of m]
      relay_system.push_answer [OF S reach(2) assms(3,4), of m] assms(5) box
    by (auto simp: mem_ops_def sled_ops_def)
  have ack: "fst (mem_ack s1 r items) = fst (sled_ack T C s2 r items)" if d: "distinct items" and l: "length items < 2 ^ 64"
  proof -
    obtain out out' where "fst (mem_ack s1 r items) = Inr out" "spec_ack items (mem_box s1 r) out"
        "fst (sled_ack T C s2 r items) = Inr out'" "spec_ack items (sled_box view C s2 r) out'"
      using relay_system.ack_answer [OF M reach(1) assms(3-5) l] relay_system.ack_answer [OF S reach(2) assms(3-5) l]
      by (auto simp: mem_ops_def sled_ops_def)
    then show ?thesis using spec_ack_unique [OF d] by (simp add: box)
  qed
  have "case resolve_cursor E r cur of
      Inr c \<Rightarrow> \<exists>b1 b2. fst (mem_pull E s1 r cur limit now) = Inr b1 \<and> fst (sled_pull E T C s2 r cur limit now) = Inr b2
           \<and> pb_items b1 = pb_items b2 \<and> pb_next_cursor b1 = pb_next_cursor b2
           \<and> pb_remaining_estimate b1 \<le> pb_remaining_estimate b2
           \<and> ((\<forall>x\<in>set (snd (mem_box s1 r)). live now x) \<longrightarrow> b1 = b2)
    | Inl e \<Rightarrow> fst (sled_pull E T C s2 r cur limit now) = Inl e
           \<and> (fst (mem_pull E s1 r cur limit now) = Inl e \<or> bt_get s1 r = None)"
  proof (cases "resolve_cursor E r cur")
    case (Inl e)
    then show ?thesis by (auto simp: sled_pull_def mem_pull_def split: option.split)
  next
    case (Inr c)
    obtain b' where mem: "fst (mem_pull E s1 r cur limit now) = Inr (spec_batch E r c limit now (mem_box s1 r) b')"
        "expiry_step now (mem_box s1 r) b'"
      using relay_system.pull_answer [OF M reach(1) assms(3-5) Inr, of limit now] by (auto simp: mem_ops_def)
    have inv: "sled_inv view ok C s2" using relay_system.reached_inv [OF S reach(2) assms(3,4)] by simp
    note b = sled_opened.axioms(1) [OF assms(1)]
    have sled: "fst (sled_pull E T C s2 r cur limit now) = Inr (spec_batch E r c limit now (mem_box s1 r) (mem_box s1 r))"
      using sled_backend.sled_pull_refines [OF b inv assms(5) Inr] by (simp add: box)
    have "length (snd (mem_box s1 r)) < 2 ^ 64"
      using box_ok_length [of r "fst (mem_box s1 r)" "snd (mem_box s1 r)"] sled_backend.sled_box_ok [OF b inv assms(5)]
        unat_lt_pow [of "fst (mem_box s1 r)"] by (simp add: box)
    from spec_batch_dropped [OF mem(2) this] show ?thesis using Inr mem(1) sled by auto
  qed
  then show ?thesis using box push ack by blast
qed

theorem backends_agree_witness:
  "fst (mem_push (run_events (mem_ops std_externals) limits_default [EvPush (sample_msg 1 2000)] mem_new) (sample_msg 1 2000) limits_default)
    = fst (sled_push std_tree std_codecs (run_events std_ops limits_default [EvPush (sample_msg 1 2000)] std_init) (sample_msg 1 2000) limits_default)"
  using backends_agree [OF std_sled.sled_opened_axioms _ _ _ sample_addressable refl refl,
      of "[EvPush (sample_msg 1 2000)]" limits_default std_externals "sample_msg 1 2000"]
  by (simp add: sample_addressable del: run_events.simps)

section \<open>Failing trees\<close>

text \<open>
  The trees \<open>ts\<close> flushed in turn up to one whose flush fails: those before it are as their flush left
  them, that one and the rest as they were, and \<open>e\<close> is the error of the flush.
\<close>

fun flush_fails :: "('t, 'x) tree_ops_scheme \<Rightarrow> 't list \<Rightarrow> 't list \<Rightarrow> enigma_relay_error \<Rightarrow> bool" where
  "flush_fails T (t # ts) us e =
     (case tr_flush T t of
        Inl txt \<Rightarrow> us = t # ts \<and> e = from_sled_error txt
      | Inr t' \<Rightarrow> us \<noteq> [] \<and> hd us = t' \<and> flush_fails T ts (tl us) e)"
| "flush_fails T [] us e = False"

lemma transaction_outcome:
  "transaction T trees f s = (r, s1) \<Longrightarrow>
     (case r of Inl e \<Rightarrow> s1 = s | Inr x \<Rightarrow> f s = Inr (x, s1))"
  by (auto simp: transaction_def split: sum.splits prod.splits)

lemma failed_push:
  assumes "sled_push T C s msg limits = (Inl e, s1)"
  shows "s1 = s \<or> (\<exists>out s'. push_tx T C msg limits s = Inr (out, s') \<and> flush_fails T
    [ss_messages s', ss_index s', ss_quota s', ss_seq s'] [ss_messages s1, ss_index s1, ss_quota s1, ss_seq s1] e)"
proof -
  obtain r s' where t: "transaction T (\<lambda>s. [ss_messages s, ss_index s, ss_quota s, ss_seq s]) (push_tx T C msg limits) s = (r, s')"
    by fastforce
  show ?thesis
    using assms transaction_outcome [OF t]
    by (cases r) (auto simp: sled_push_def t flush_tree_def split: sum.splits)
qed

lemma failed_ack:
  assumes "sled_ack T C s r items = (Inl e, s1)"
  shows "s1 = s \<or> (\<exists>out s'. ack_tx T C r (remdups items) s = Inr (out, s') \<and> ss_seq s1 = ss_seq s' \<and> flush_fails T
    [ss_messages s', ss_index s', ss_quota s'] [ss_messages s1, ss_index s1, ss_quota s1] e)"
proof -
  obtain x s' where t: "transaction T (\<lambda>s. [ss_messages s, ss_index s, ss_quota s]) (ack_tx T C r (remdups items)) s = (x, s')"
    by fastforce
  show ?thesis
    using assms transaction_outcome [OF t]
    by (cases x) (auto simp: sled_ack_def t flush_tree_def split: sum.splits)
qed

text \<open>
  C22. Failure of the persistent backend, for a tree library that may fail at any call. A push
  or an acknowledgement that reports an error leaves the trees as they were, or its transaction
  was committed and the error is that of a flush after it: then the trees are those of the
  completed operation, flushed in turn up to the failing one, although the client is told it failed.
\<close>

theorem sled_failed_write:
  "(sled_push T C s msg limits = (Inl e, s1) \<longrightarrow>
      s1 = s \<or> (\<exists>out s'. push_tx T C msg limits s = Inr (out, s') \<and> flush_fails T
        [ss_messages s', ss_index s', ss_quota s', ss_seq s'] [ss_messages s1, ss_index s1, ss_quota s1, ss_seq s1] e))
   \<and> (sled_ack T C s r items = (Inl e, s2) \<longrightarrow>
      s2 = s \<or> (\<exists>out s'. ack_tx T C r (remdups items) s = Inr (out, s') \<and> ss_seq s2 = ss_seq s' \<and> flush_fails T
        [ss_messages s', ss_index s', ss_quota s'] [ss_messages s2, ss_index s2, ss_quota s2] e))"
  using failed_push failed_ack by blast

theorem sled_failed_write_witness:
  "snd (sled_push (std_tree\<lparr>tr_get := \<lambda>_ _. Inl ''io''\<rparr>) std_codecs sample_sled (sample_msg 2 2000) limits_default) = sample_sled"
proof -
  let ?T = "std_tree\<lparr>tr_get := \<lambda>_ _. Inl ''io''\<rparr>"
  obtain res s1 where p: "sled_push ?T std_codecs sample_sled (sample_msg 2 2000) limits_default = (res, s1)" by fastforce
  moreover from p have "res = Inl (from_sled_error ''io'')"
    by (simp add: sled_push_def transaction_def push_tx_def tx_get_def Let_def)
  moreover have "\<not> flush_fails ?T [t1, t2, t3, t4] us e" for t1 t2 t3 t4 us e by (simp add: std_tree_def)
  ultimately show ?thesis
    using sled_failed_write [of ?T std_codecs sample_sled "sample_msg 2 2000" limits_default "from_sled_error ''io''" s1]
    by (auto simp del: flush_fails.simps)
qed

section \<open>The server on the persistent backend\<close>

lemma sled_new_opened:
  assumes "sled_backend T view ok C" and "sled_new open_db open_tree path = Inr s"
    and "\<forall>db name t. open_tree db name = Inr t \<longrightarrow> ok t \<and> view t = []"
  shows "sled_opened T view ok C s"
proof -
  have "trees_ok ok s" "view (ss_messages s) = []" "view (ss_index s) = []" "view (ss_quota s) = []" "view (ss_seq s) = []"
    using assms(2,3) by (auto simp: sled_new_def trees_ok_def map_err_def res_bind_def split: sum.splits)
  then show ?thesis by (intro sled_opened.intro [OF assms(1)] sled_opened_axioms.intro)
qed

text \<open>
  Delivery over HTTP with the persistent backend. On a relay that \<open>start\<close> brought up on new
  trees, a message whose push was answered \<open>stored\<close> is received, with its id, ciphertext, metadata
  and times, by a client of its recipient that follows the cursors to the end before the deadline,
  after any requests and collections that neither acknowledge the message nor run at or past its
  deadline; with rate limiting off the client does come to the end.
\<close>

theorem server_delivers_sled:
  assumes "sled_backend T view ok C" and "cursor_codec E"
    and "start F cfg t mem (sled_new open_db open_tree) = Inr (Inr st0)"
    and "\<forall>db name u. open_tree db name = Inr u \<longrightarrow> ok u \<and> view u = []"
    and "max_queue_bytes_per_user (cfg_relay cfg) \<noteq> u64_max"
    and "\<forall>e\<in>set before. step_ok e" and "st = server_run F E (sled_ops E T C) before st0"
    and "push_handler F E (sled_ops E T C) env body st = (Some (Inr resp), st1)" and "pp_stored resp"
    and "addressable (pq_recipient body)"
    and "deadline = sat_add (now_millis (env_system env)) (sat_mul (message_ttl_seconds (cfg_relay cfg)) 1000)"
    and "\<forall>e\<in>set after. step_ok e \<and> step_spares (pq_recipient body)
      (pq_message_id body, mm_chunk_index (pq_meta body)) deadline e"
    and "length before + length after + 1 < 2 ^ 64 - 1"
    and "now_millis (env_system env') < deadline" and "mx \<noteq> Some 0"
  shows "(\<forall>fuel items st3. http_drain F (sled_ops E T C) env' (pq_recipient body) mx fuel None
        (server_run F E (sled_ops E T C) after st1) = Some (items, st3)
      \<longrightarrow> \<lparr>di_recipient = pq_recipient body, di_message_id = pq_message_id body, di_ciphertext_b64 = pq_ciphertext_b64 body,
        di_meta = pq_meta body, di_arrival_ms = now_millis (env_system env), di_deadline_ms = deadline\<rparr> \<in> set items)
    \<and> (\<not> rl_enabled (cfg_rate_limit cfg) \<longrightarrow> (\<exists>fuel items st3. http_drain F (sled_ops E T C) env' (pq_recipient body) mx fuel None
        (server_run F E (sled_ops E T C) after st1) = Some (items, st3)))"
proof -
  obtain s where s: "sled_new open_db open_tree (sc_path (cfg_storage cfg)) = Inr s"
    and st0: "start_with_store F cfg t s = Inr st0"
    using assms(3) by (auto simp: start_def res_bind_Inr_iff split: storage_kind.splits if_splits)
  note opened = sled_new_opened [OF assms(1) s assms(4)]
  show ?thesis
    by (rule relay_service.server_delivers [OF sled_opened.service [OF opened assms(2)] st0 assms(5-15)])
qed

text \<open>A relay on new reference trees.\<close>

definition sample_sled_cfg :: relay_config where
  "sample_sled_cfg = sample_cfg\<lparr>cfg_storage := \<lparr>sc_kind = Sled, sc_path = ''relay.db''\<rparr>\<rparr>"

definition std_open :: "string \<Rightarrow> string + unit" where
  "std_open path = Inr ()"

definition std_open_tree :: "unit \<Rightarrow> string \<Rightarrow> string + (bytes, bytes) btree" where
  "std_open_tree db name = Inr []"

definition sample_started :: "'s \<Rightarrow> 's app_state" where
  "sample_started s = \<lparr>as_store = s, as_config = sample_sled_cfg, as_limiter = limiter_new False 300,
     as_started = 0, as_metrics = relay_metrics_default\<rparr>"

abbreviation sample_sled_start :: "(bytes, bytes) btree sled_store app_state" where
  "sample_sled_start \<equiv> sample_started std_init"

lemma sample_started_with: "start_with_store default_features sample_sled_cfg 0 s = Inr (sample_started s)"
proof -
  have "str_trim ''127.0.0.1:0'' = ''127.0.0.1:0''" by code_simp
  then show ?thesis
    by (simp add: start_with_store_def validate_def sample_sled_cfg_def sample_cfg_def config_default_def
        default_features_def limits_default_def rate_limit_default_def endpoints_default_def Let_def sample_started_def)
qed

lemma sample_started_on:
  "sled_new open_db open_tree ''relay.db'' = Inr s \<Longrightarrow>
     start default_features sample_sled_cfg 0 mem_new (sled_new open_db open_tree) = Inr (Inr (sample_started s))"
  using sample_started_with [of s] by (simp add: start_def sample_sled_cfg_def sample_cfg_def default_features_def)

lemma sample_sled_start_eq:
  "start default_features sample_sled_cfg 0 mem_new (sled_new std_open std_open_tree) = Inr (Inr sample_sled_start)"
  by (rule sample_started_on) (simp add: sled_new_def std_open_def std_open_tree_def std_init_def)

context sled_opened
begin

lemma sample_stored:
  "\<exists>resp st1. push_handler default_features std_externals (sled_ops std_externals T C) sample_env (sample_body 1)
    (sample_started init) = (Some (Inr resp), st1) \<and> pp_stored resp"
proof -
  obtain m where m: "build_inbound_message std_externals (sample_body 1) (cfg_relay sample_sled_cfg) (now_millis (env_system sample_env)) = Inr m"
    and p: "im_payload_bytes m = 3"
    by (simp add: build_inbound_message_def sample_body_def sample_body_trim sample_decode sample_meta_def
        sample_sled_cfg_def sample_cfg_def config_default_def Let_def)
  obtain s1 where s1: "sled_push T C init m (cfg_relay sample_sled_cfg)
      = (Inr \<lparr>ps_stored = True, ps_duplicate = False, ps_queue_len = 1, ps_queue_bytes = 3\<rparr>, s1)"
    using first_push [of "cfg_relay sample_sled_cfg" m] p
    by (auto simp: sample_sled_cfg_def sample_cfg_def config_default_def)
  show ?thesis
    by (simp add: push_handler_def enforce_rate_def sample_started_def limiter_new_def Let_def count_def metered_def
        default_features_def m on_store_def sled_ops_def s1)
qed

end

lemmas sample_sled_stored = std_sled.sample_stored

theorem server_delivers_sled_witness:
  "\<exists>st1 fuel items st3. push_handler default_features std_externals std_ops sample_env (sample_body 1) sample_sled_start = st1
    \<and> http_drain default_features std_ops sample_env ''alice'' (Some 1) fuel None
      (server_run default_features std_externals std_ops [GcTurn 1500000000] (snd st1)) = Some (items, st3)
    \<and> (\<exists>i\<in>set items. di_message_id i = 1 \<and> di_ciphertext_b64 i = ''QUJD'')"
proof -
  obtain resp st1 where push: "push_handler default_features std_externals std_ops sample_env (sample_body 1) sample_sled_start
      = (Some (Inr resp), st1)" and stored: "pp_stored resp"
    using sample_sled_stored by blast
  let ?deadline = "sat_add (now_millis (env_system sample_env)) (sat_mul (message_ttl_seconds (cfg_relay sample_sled_cfg)) 1000)"
  have deadline: "?deadline = 1209601500"
    by (simp add: sample_now sample_sled_cfg_def sample_cfg_def config_default_def sat_add_def sat_mul_def)
  have cfg: "\<not> rl_enabled (cfg_rate_limit sample_sled_cfg)" "max_queue_bytes_per_user (cfg_relay sample_sled_cfg) \<noteq> u64_max"
    by (simp_all add: sample_sled_cfg_def sample_cfg_def config_default_def)
  have fresh: "\<forall>db name u. std_open_tree db name = Inr u \<longrightarrow> bt_ok u \<and> u = []"
    by (simp add: std_open_tree_def bt_ok_def)
  have run: "sample_sled_start = server_run default_features std_externals std_ops [] sample_sled_start" by simp
  have body: "pq_recipient (sample_body 1) = ''alice''" "pq_message_id (sample_body 1) = 1"
      "pq_ciphertext_b64 (sample_body 1) = ''QUJD''"
    by (simp_all add: sample_body_def)
  have adr: "addressable (pq_recipient (sample_body 1))" using sample_addressable body by simp
  have none: "\<forall>e\<in>set []. step_ok e" by simp
  have after: "\<forall>e\<in>set [GcTurn 1500000000]. step_ok e \<and> step_spares (pq_recipient (sample_body 1))
      (pq_message_id (sample_body 1), mm_chunk_index (pq_meta (sample_body 1))) ?deadline e"
    unfolding deadline by (simp add: now_millis_def)
  have len: "length ([] :: server_event list) + length [GcTurn 1500000000] + 1 < 2 ^ 64 - 1" by simp
  have now: "now_millis (env_system sample_env) < ?deadline" unfolding deadline by (simp add: sample_now)
  have mx: "Some 1 \<noteq> Some (0 :: u64)" by simp
  note delivers = server_delivers_sled [OF std_sled.sled_backend_axioms std.cursor_codec_axioms sample_sled_start_eq fresh cfg(2)
      none run push stored adr refl after len now mx, unfolded body]
  obtain fuel items st3 where d: "http_drain default_features std_ops sample_env ''alice'' (Some 1) fuel None
      (server_run default_features std_externals std_ops [GcTurn 1500000000] st1) = Some (items, st3)"
    using delivers cfg(1) by blast
  from delivers [THEN conjunct1, rule_format, OF d] obtain i where
    i: "i \<in> set items" "di_message_id i = 1" "di_ciphertext_b64 i = ''QUJD''" by force
  show ?thesis
    by (rule exI [of _ "(Some (Inr resp), st1)"], rule exI [of _ fuel], rule exI [of _ items], rule exI [of _ st3])
      (intro conjI push bexI [OF _ i(1)] i(2,3), simp only: snd_conv d)
qed

end
