(* ===== verification/Launch.thy ===== *)
theory Launch
  imports Server
begin

text \<open>
  The rest of \<open>start_with_store\<close> in \<open>src/server.rs\<close>: \<open>build_server\<close> and \<open>build_rustls_config\<close>.
  The file system with the PEM reader and rustls, and the network, are parameters: records of
  the calls the code makes, each of which may fail with a text. What is modelled is which calls
  are made, in which order, what is handed from one to the next, and which error each failure
  becomes.
\<close>

section \<open>TLS\<close>

record ('file, 'cert, 'key, 'roots, 'verifier, 'tls) tls_lib =
  tl_open :: "string \<Rightarrow> string + 'file"
  tl_certs :: "'file \<Rightarrow> (string + 'cert) list"
  tl_keys :: "'file \<Rightarrow> (string + 'key) list"
  tl_no_roots :: 'roots
  tl_add_root :: "'cert \<Rightarrow> 'roots \<Rightarrow> string + 'roots"
  tl_verifier :: "'roots \<Rightarrow> string + 'verifier"
  tl_server_config :: "'verifier option \<Rightarrow> 'cert list \<Rightarrow> 'key \<Rightarrow> string + 'tls"

text \<open>\<open>collect\<close> into a \<open>Result\<close>: all the items, or the first error.\<close>

fun collect_ok :: "('e + 'a) list \<Rightarrow> 'e + 'a list" where
  "collect_ok [] = Inr []"
| "collect_ok (x # xs) = res_bind x (\<lambda>y. res_bind (collect_ok xs) (\<lambda>ys. Inr (y # ys)))"

fun add_roots ::
  "('file, 'cert, 'key, 'roots, 'verifier, 'tls) tls_lib \<Rightarrow> 'cert list \<Rightarrow> 'roots \<Rightarrow> 'roots result" where
  "add_roots L [] roots = Inr roots"
| "add_roots L (ca # cas) roots = res_bind (map_err Tls (tl_add_root L ca roots)) (add_roots L cas)"

text \<open>\<open>keys.pop()\<close> takes the last key of the file.\<close>

definition build_rustls_config ::
  "features \<Rightarrow> ('file, 'cert, 'key, 'roots, 'verifier, 'tls) tls_lib \<Rightarrow> tls_config \<Rightarrow> 'tls result" where
  "build_rustls_config F L tls =
     res_bind (map_err Tls (tl_open L (tc_cert_pem_path tls))) (\<lambda>cert_file.
     res_bind (map_err Tls (tl_open L (tc_key_pem_path tls))) (\<lambda>key_file.
     res_bind (map_err Tls (collect_ok (tl_certs L cert_file))) (\<lambda>cert_chain.
     res_bind (map_err Tls (collect_ok (tl_keys L key_file))) (\<lambda>keys.
     res_bind (if keys = [] then Inl (Tls ''no private key found'') else Inr (last keys)) (\<lambda>key.
     if feat_mtls F then
       (case tc_client_ca_pem_path tls of
          Some ca_path \<Rightarrow>
            res_bind (map_err Tls (tl_open L ca_path)) (\<lambda>ca_file.
            res_bind (map_err Tls (collect_ok (tl_certs L ca_file))) (\<lambda>cas.
            res_bind (add_roots L cas (tl_no_roots L)) (\<lambda>roots.
            res_bind (map_err Tls (tl_verifier L roots)) (\<lambda>verifier.
            map_err Tls (tl_server_config L (Some verifier) cert_chain key)))))
        | None \<Rightarrow> map_err Tls (tl_server_config L None cert_chain key))
     else if tc_client_ca_pem_path tls \<noteq> None then Inl (Disabled ''mtls feature not enabled'')
     else map_err Tls (tl_server_config L None cert_chain key))))))"

section \<open>Listening\<close>

record ('listener, 'addr, 'tls, 'srv) net_lib =
  nl_bind :: "string \<Rightarrow> string + 'listener"
  nl_set_nonblocking :: "'listener \<Rightarrow> string + unit"
  nl_local_addr :: "'listener \<Rightarrow> string + 'addr"
  nl_listen :: "'listener \<Rightarrow> string + 'srv"
  nl_listen_rustls :: "'listener \<Rightarrow> 'tls \<Rightarrow> string + 'srv"
  nl_addr_text :: "'addr \<Rightarrow> string"

text \<open>Binding the address, common to both modes; \<open>serve_on\<close> hands the listener to the server.\<close>

definition listen_on ::
  "('listener, 'addr, 'tls, 'srv) net_lib \<Rightarrow> string \<Rightarrow> ('listener \<Rightarrow> string + 'srv) \<Rightarrow> ('srv \<times> 'addr) result" where
  "listen_on N address serve_on =
     res_bind (map_err Internal (nl_bind N address)) (\<lambda>listener.
     res_bind (map_err Internal (nl_set_nonblocking N listener)) (\<lambda>_.
     res_bind (map_err Internal (nl_local_addr N listener)) (\<lambda>addr.
     res_bind (map_err Internal (serve_on listener)) (\<lambda>server.
     Inr (server, addr)))))"

definition build_server ::
  "features \<Rightarrow> ('file, 'cert, 'key, 'roots, 'verifier, 'tls) tls_lib \<Rightarrow> ('listener, 'addr, 'tls, 'srv) net_lib
     \<Rightarrow> relay_config \<Rightarrow> ('srv \<times> 'addr) result" where
  "build_server F L N cfg =
     (case cfg_mode cfg of
        Http \<Rightarrow> listen_on N (cfg_address cfg) (nl_listen N)
      | TlsMode \<Rightarrow>
          if feat_tls F then
            res_bind (ok_or (Config ''missing tls config'') (cfg_tls cfg)) (\<lambda>tls_cfg.
            res_bind (build_rustls_config F L tls_cfg) (\<lambda>server_config.
            listen_on N (cfg_address cfg) (\<lambda>listener. nl_listen_rustls N listener server_config)))
          else Inl (Disabled ''tls feature not enabled''))"

text \<open>
  The running relay: the state of the handlers, the server and the URL. The collector's task is
  spawned with the state before the server is built; it stops with the shutdown signal.
\<close>

record ('s, 'srv) running_relay =
  rr_state :: "'s app_state"
  rr_server :: 'srv
  rr_base_url :: string

definition launch ::
  "features \<Rightarrow> ('file, 'cert, 'key, 'roots, 'verifier, 'tls) tls_lib \<Rightarrow> ('listener, 'addr, 'tls, 'srv) net_lib
     \<Rightarrow> relay_config \<Rightarrow> instant \<Rightarrow> 's \<Rightarrow> ('s, 'srv) running_relay result" where
  "launch F L N cfg now store =
     res_bind (start_with_store F cfg now store) (\<lambda>state.
     res_bind (build_server F L N cfg) (\<lambda>(server, addr).
     let scheme = (case cfg_mode cfg of Http \<Rightarrow> ''http'' | TlsMode \<Rightarrow> ''https'') in
     Inr \<lparr>rr_state = state, rr_server = server, rr_base_url = scheme @ ''://'' @ nl_addr_text N addr\<rparr>))"

text \<open>
  What the handle of the running relay resolves to: the outcome of joining the server's task,
  and within it that of the server.
\<close>

definition join_result :: "string + (string + unit) \<Rightarrow> unit result" where
  "join_result joined = res_bind (map_err Internal joined) (map_err Internal)"

section \<open>Properties\<close>

lemma map_err_Inr_iff: "map_err f r = Inr x \<longleftrightarrow> r = Inr x"
  by (cases r) simp_all

lemma collect_ok_Inr: "collect_ok xs = Inr ys \<longleftrightarrow> xs = map Inr ys"
  by (induction xs arbitrary: ys) (auto simp: res_bind_Inr_iff)

text \<open>The verifier of a configuration with a client CA accepts exactly the roots of its file.\<close>

definition verifies_clients ::
  "('file, 'cert, 'key, 'roots, 'verifier, 'tls) tls_lib \<Rightarrow> string \<Rightarrow> 'verifier \<Rightarrow> bool" where
  "verifies_clients L ca_path verifier \<longleftrightarrow>
     (\<exists>file cas roots. tl_open L ca_path = Inr file \<and> tl_certs L file = map Inr cas
        \<and> add_roots L cas (tl_no_roots L) = Inr roots \<and> tl_verifier L roots = Inr verifier)"

lemma build_rustls_config_Inr:
  assumes "build_rustls_config F L tls = Inr c"
  shows "\<exists>cert_file chain key_file keys key client.
      tl_open L (tc_cert_pem_path tls) = Inr cert_file \<and> tl_certs L cert_file = map Inr chain
    \<and> tl_open L (tc_key_pem_path tls) = Inr key_file \<and> tl_keys L key_file = map Inr (keys @ [key])
    \<and> tl_server_config L client chain key = Inr c
    \<and> (case tc_client_ca_pem_path tls of
         None \<Rightarrow> client = None
       | Some ca \<Rightarrow> feat_mtls F \<and> (\<exists>v. client = Some v \<and> verifies_clients L ca v))"
proof -
  obtain cert_file chain key_file keys where files: "tl_open L (tc_cert_pem_path tls) = Inr cert_file"
      "tl_certs L cert_file = map Inr chain" "tl_open L (tc_key_pem_path tls) = Inr key_file"
      "tl_keys L key_file = map Inr keys" "keys \<noteq> []"
    and rest: "(if feat_mtls F then
       (case tc_client_ca_pem_path tls of
          Some ca_path \<Rightarrow>
            res_bind (map_err Tls (tl_open L ca_path)) (\<lambda>ca_file.
            res_bind (map_err Tls (collect_ok (tl_certs L ca_file))) (\<lambda>cas.
            res_bind (add_roots L cas (tl_no_roots L)) (\<lambda>roots.
            res_bind (map_err Tls (tl_verifier L roots)) (\<lambda>verifier.
            map_err Tls (tl_server_config L (Some verifier) chain (last keys))))))
        | None \<Rightarrow> map_err Tls (tl_server_config L None chain (last keys)))
     else if tc_client_ca_pem_path tls \<noteq> None then Inl (Disabled ''mtls feature not enabled'')
     else map_err Tls (tl_server_config L None chain (last keys))) = Inr c"
    using assms unfolding build_rustls_config_def
    by (auto simp: res_bind_Inr_iff map_err_Inr_iff collect_ok_Inr split: if_splits)
  have "\<exists>client. tl_server_config L client chain (last keys) = Inr c
    \<and> (case tc_client_ca_pem_path tls of
         None \<Rightarrow> client = None
       | Some ca \<Rightarrow> feat_mtls F \<and> (\<exists>v. client = Some v \<and> verifies_clients L ca v))"
    using rest
    by (auto simp: res_bind_Inr_iff map_err_Inr_iff collect_ok_Inr verifies_clients_def split: if_splits option.splits)
  moreover have "tl_keys L key_file = map Inr (butlast keys @ [last keys])" using files(4,5) by simp
  ultimately show ?thesis using files by blast
qed

lemma listen_on_Inr:
  "listen_on N address serve_on = Inr (srv, addr) \<Longrightarrow>
     \<exists>listener. nl_bind N address = Inr listener \<and> nl_set_nonblocking N listener = Inr ()
       \<and> nl_local_addr N listener = Inr addr \<and> serve_on listener = Inr srv"
  by (auto simp: listen_on_def res_bind_Inr_iff map_err_Inr_iff)

text \<open>
  C29. A relay that comes up serves what its configuration asks for. The configuration passed
  validation, the handlers work on the store they were given, and the URL has the scheme of the
  mode. In TLS mode the listener at the configured address is served with a rustls
  configuration made from all the certificates of the configured certificate file, in order, and
  the last key of the configured key file, never in the clear; and when a client CA is configured, that configuration verifies clients
  against the roots of the CA file, all of which were accepted.
\<close>

theorem launched_as_configured:
  assumes "launch F L N cfg now store = Inr rr"
  shows "validate F cfg = Inr () \<and> as_store (rr_state rr) = store \<and> as_config (rr_state rr) = cfg
    \<and> (case cfg_mode cfg of
         Http \<Rightarrow> take 7 (rr_base_url rr) = ''http://''
           \<and> (\<exists>l. nl_bind N (cfg_address cfg) = Inr l \<and> nl_listen N l = Inr (rr_server rr))
       | TlsMode \<Rightarrow> take 8 (rr_base_url rr) = ''https://''
           \<and> (\<exists>tls c l file keys key certs chain client. cfg_tls cfg = Some tls \<and> feat_tls F
                \<and> nl_bind N (cfg_address cfg) = Inr l \<and> nl_listen_rustls N l c = Inr (rr_server rr)
                \<and> tl_open L (tc_key_pem_path tls) = Inr file \<and> tl_keys L file = map Inr (keys @ [key])
                \<and> tl_open L (tc_cert_pem_path tls) = Inr certs \<and> tl_certs L certs = map Inr chain
                \<and> tl_server_config L client chain key = Inr c
                \<and> (\<forall>ca. tc_client_ca_pem_path tls = Some ca \<longrightarrow>
                     feat_mtls F \<and> (\<exists>v. client = Some v \<and> verifies_clients L ca v))))"
proof -
  obtain server addr where st: "start_with_store F cfg now store = Inr (rr_state rr)"
    and srv: "build_server F L N cfg = Inr (server, addr)" and rr: "rr_server rr = server"
      "rr_base_url rr = (case cfg_mode cfg of Http \<Rightarrow> ''http'' | TlsMode \<Rightarrow> ''https'') @ ''://'' @ nl_addr_text N addr"
    using assms by (auto simp: launch_def res_bind_Inr_iff Let_def)
  have "validate F cfg = Inr ()" "as_store (rr_state rr) = store" "as_config (rr_state rr) = cfg"
    using st by (auto simp: start_with_store_def res_bind_Inr_iff dest!: sym [of _ "rr_state rr"])
  moreover have ?thesis if "cfg_mode cfg = Http"
    using calculation that srv rr by (auto simp: build_server_def dest!: listen_on_Inr)
  moreover have ?thesis if mode: "cfg_mode cfg = TlsMode"
  proof -
    obtain tls c where tls: "cfg_tls cfg = Some tls" "feat_tls F" "build_rustls_config F L tls = Inr c"
      and "listen_on N (cfg_address cfg) (\<lambda>l. nl_listen_rustls N l c) = Inr (server, addr)"
      using srv mode by (cases "cfg_tls cfg") (auto simp: build_server_def res_bind_Inr_iff split: if_splits)
    then obtain l where "nl_bind N (cfg_address cfg) = Inr l" "nl_listen_rustls N l c = Inr server"
      by (auto dest!: listen_on_Inr)
    moreover obtain kf keys key cf chain client where
      "tl_open L (tc_cert_pem_path tls) = Inr cf" "tl_certs L cf = map Inr chain"
      "tl_open L (tc_key_pem_path tls) = Inr kf" "tl_keys L kf = map Inr (keys @ [key])"
      "tl_server_config L client chain key = Inr c"
      "case tc_client_ca_pem_path tls of None \<Rightarrow> client = None
       | Some ca \<Rightarrow> feat_mtls F \<and> (\<exists>v. client = Some v \<and> verifies_clients L ca v)"
      using build_rustls_config_Inr [OF tls(3)] by blast
    moreover have "take 8 (rr_base_url rr) = ''https://''" using rr(2) mode by simp
    ultimately show ?thesis
      using tls(1,2) rr(1) mode \<open>validate F cfg = Inr ()\<close> \<open>as_store (rr_state rr) = store\<close> \<open>as_config (rr_state rr) = cfg\<close>
      by (simp only: relay_mode.case simp_thms) (auto split: option.splits)
  qed
  ultimately show ?thesis by (cases "cfg_mode cfg") blast+
qed

text \<open>A file system of PEM files named after their content, and a network that always listens.\<close>

definition sample_tls_lib :: "(string, string, string, string list, string list, string list \<times> string) tls_lib" where
  "sample_tls_lib = \<lparr>tl_open = Inr, tl_certs = (\<lambda>f. [Inr f]), tl_keys = (\<lambda>f. [Inr ''old'', Inr f]), tl_no_roots = [],
     tl_add_root = (\<lambda>c rs. Inr (c # rs)), tl_verifier = Inr,
     tl_server_config = (\<lambda>v chain key. Inr (case v of None \<Rightarrow> chain | Some rs \<Rightarrow> chain @ rs, key))\<rparr>"

definition sample_net :: "(string, string, string list \<times> string, (string list \<times> string) option) net_lib" where
  "sample_net = \<lparr>nl_bind = Inr, nl_set_nonblocking = (\<lambda>_. Inr ()), nl_local_addr = Inr, nl_listen = (\<lambda>_. Inr None),
     nl_listen_rustls = (\<lambda>_ c. Inr (Some c)), nl_addr_text = (\<lambda>a. a)\<rparr>"

definition sample_tls_cfg :: relay_config where
  "sample_tls_cfg = config_default\<lparr>cfg_mode := TlsMode,
     cfg_tls := Some \<lparr>tc_cert_pem_path = ''cert.pem'', tc_key_pem_path = ''key.pem'', tc_client_ca_pem_path = Some ''ca.pem''\<rparr>\<rparr>"

theorem launched_as_configured_witness:
  "\<exists>rr. launch (default_features\<lparr>feat_tls := True, feat_mtls := True\<rparr>) sample_tls_lib sample_net sample_tls_cfg 0 () = Inr rr
    \<and> rr_server rr = Some ([''cert.pem'', ''ca.pem''], ''key.pem'') \<and> take 8 (rr_base_url rr) = ''https://''"
proof -
  have trim: "str_trim ''127.0.0.1:0'' = ''127.0.0.1:0''" by code_simp
  obtain rr where rr: "launch (default_features\<lparr>feat_tls := True, feat_mtls := True\<rparr>) sample_tls_lib sample_net sample_tls_cfg 0 () = Inr rr"
    and srv: "rr_server rr = Some ([''cert.pem'', ''ca.pem''], ''key.pem'')"
    by (simp add: launch_def start_with_store_def validate_def sample_tls_cfg_def config_default_def trim
        default_features_def limits_default_def rate_limit_default_def endpoints_default_def storage_default_def Let_def
        build_server_def build_rustls_config_def sample_tls_lib_def listen_on_def sample_net_def)
  have "cfg_mode sample_tls_cfg = TlsMode" by (simp add: sample_tls_cfg_def)
  with launched_as_configured [OF rr] rr srv show ?thesis by auto
qed

end
