(* ===== verification/Tasks.thy ===== *)
theory Tasks
  imports Launch Server_Contract
begin

text \<open>
  The tasks \<open>start_with_store\<close> of \<open>src/server.rs\<close> spawns, and the graceful shutdown: the
  collector's task, the server's task, the task behind the handle of the running relay and the
  one-shot signal they share. The scheduler, the peers and the owner of the relay decide which
  task moves next, so the steps are a relation, labelled with what happened. One handler's
  request and one turn of the collector are one step each.
\<close>

section \<open>The state of the tasks\<close>

text \<open>
  The receiver of the signal resolves when the sender sends and also when it is dropped. The
  outcome of a joined task is \<open>Inl\<close> when it panicked or was cancelled.
\<close>

datatype signal = Pending | Sent | Dropped

datatype gc_task = Looping | Gc_done "string + unit"

datatype server_task = Absent | Serving | Stopping | Ended "string + (string + unit)"

datatype handle_task = Unspawned | Await_signal | Await_stop | Await_gc | Await_server | Resolved "unit result"

record 's tasks =
  tk_signal :: signal
  tk_gc :: gc_task
  tk_server :: server_task
  tk_handle :: handle_task
  tk_app :: "'s app_state"

text \<open>
  What is spawned when. The collector starts before the server is built; when building it fails,
  the early return drops the sender of the signal and leaves the collector behind.
\<close>

definition spawn_tasks ::
  "features \<Rightarrow> ('file, 'cert, 'key, 'roots, 'verifier, 'tls) tls_lib \<Rightarrow> ('listener, 'addr, 'tls, 'srv) net_lib
     \<Rightarrow> relay_config \<Rightarrow> instant \<Rightarrow> 's \<Rightarrow> 's tasks option" where
  "spawn_tasks F L N cfg now store =
     (case start_with_store F cfg now store of
        Inl _ \<Rightarrow> None
      | Inr st \<Rightarrow>
          Some (case build_server F L N cfg of
            Inl _ \<Rightarrow> \<lparr>tk_signal = Dropped, tk_gc = Looping, tk_server = Absent, tk_handle = Unspawned, tk_app = st\<rparr>
          | Inr _ \<Rightarrow> \<lparr>tk_signal = Pending, tk_gc = Looping, tk_server = Serving, tk_handle = Await_signal, tk_app = st\<rparr>))"

section \<open>Steps\<close>

datatype task_event =
    Send_shutdown
  | Drop_shutdown
  | Served request_env http_request
  | Collected int
  | Gc_breaks
  | Gc_fails string
  | Server_ends "string + (string + unit)"
  | Server_fails "string + (string + unit)"
  | Stop_sent
  | Stop_returned
  | Gc_joined
  | Server_joined

text \<open>
  A server serves until it is told to stop; then it takes no new connection, finishes the requests it
  has and ends. The collector loops until the signal is there; in its \<open>select!\<close> a tick may win even
  then. That the server or the collector comes to an end of itself, by a failure of the runtime or a
  panic, is an event of its own. The task of the handle waits for the signal, stops the server,
  joins the collector, whose outcome it ignores, and joins the server.
\<close>

inductive task_step ::
  "features \<Rightarrow> 'x externals_scheme \<Rightarrow> 's store_ops \<Rightarrow> 's tasks \<Rightarrow> task_event \<Rightarrow> 's tasks \<Rightarrow> bool"
  for F :: features and E :: "'x externals_scheme" and D :: "'s store_ops" where
  send: "tk_signal t = Pending \<Longrightarrow> task_step F E D t Send_shutdown (t\<lparr>tk_signal := Sent\<rparr>)"
| drop_sender: "tk_signal t = Pending \<Longrightarrow> task_step F E D t Drop_shutdown (t\<lparr>tk_signal := Dropped\<rparr>)"
| served: "tk_server t = Serving \<or> tk_server t = Stopping \<Longrightarrow>
     task_step F E D t (Served env req) (t\<lparr>tk_app := snd (serve F E D env req (tk_app t))\<rparr>)"
| collected: "tk_gc t = Looping \<Longrightarrow>
     task_step F E D t (Collected system) (t\<lparr>tk_app := gc_tick F D system (tk_app t)\<rparr>)"
| gc_breaks: "tk_gc t = Looping \<Longrightarrow> tk_signal t \<noteq> Pending \<Longrightarrow>
     task_step F E D t Gc_breaks (t\<lparr>tk_gc := Gc_done (Inr ())\<rparr>)"
| gc_fails: "tk_gc t = Looping \<Longrightarrow>
     task_step F E D t (Gc_fails err) (t\<lparr>tk_gc := Gc_done (Inl err)\<rparr>)"
| server_ends: "tk_server t = Stopping \<Longrightarrow>
     task_step F E D t (Server_ends out) (t\<lparr>tk_server := Ended out\<rparr>)"
| server_fails: "tk_server t = Serving \<Longrightarrow>
     task_step F E D t (Server_fails out) (t\<lparr>tk_server := Ended out\<rparr>)"
| stop_sent: "tk_handle t = Await_signal \<Longrightarrow> tk_signal t \<noteq> Pending \<Longrightarrow>
     task_step F E D t Stop_sent
       (t\<lparr>tk_server := (if tk_server t = Serving then Stopping else tk_server t), tk_handle := Await_stop\<rparr>)"
| stop_returned: "tk_handle t = Await_stop \<Longrightarrow>
     task_step F E D t Stop_returned (t\<lparr>tk_handle := Await_gc\<rparr>)"
| gc_joined: "tk_handle t = Await_gc \<Longrightarrow> tk_gc t = Gc_done r \<Longrightarrow>
     task_step F E D t Gc_joined (t\<lparr>tk_handle := Await_server\<rparr>)"
| server_joined: "tk_handle t = Await_server \<Longrightarrow> tk_server t = Ended out \<Longrightarrow>
     task_step F E D t Server_joined (t\<lparr>tk_handle := Resolved (join_result out)\<rparr>)"

inductive_cases task_stepE: "task_step F E D t e t'"

inductive_simps task_step_simps:
  "task_step F E D t Send_shutdown t'"
  "task_step F E D t (Served env req) t'"
  "task_step F E D t (Collected system) t'"
  "task_step F E D t Gc_breaks t'"
  "task_step F E D t (Server_ends out) t'"
  "task_step F E D t Stop_sent t'"
  "task_step F E D t Stop_returned t'"
  "task_step F E D t Gc_joined t'"
  "task_step F E D t Server_joined t'"

inductive task_run ::
  "features \<Rightarrow> 'x externals_scheme \<Rightarrow> 's store_ops \<Rightarrow> 's tasks \<Rightarrow> task_event list \<Rightarrow> 's tasks \<Rightarrow> bool"
  for F :: features and E :: "'x externals_scheme" and D :: "'s store_ops" where
  run_nil: "task_run F E D t [] t"
| run_step: "task_step F E D t e u \<Longrightarrow> task_run F E D u es v \<Longrightarrow> task_run F E D t (e # es) v"

section \<open>What the tasks do to the relay's state\<close>

text \<open>The requests and turns of the collector among the events.\<close>

fun task_acts :: "task_event list \<Rightarrow> server_event list" where
  "task_acts [] = []"
| "task_acts (Served env req # es) = Request env req # task_acts es"
| "task_acts (Collected system # es) = GcTurn system # task_acts es"
| "task_acts (_ # es) = task_acts es"

lemma task_step_app:
  "task_step F E D t e u \<Longrightarrow> tk_app u = server_run F E D (task_acts [e]) (tk_app t)"
  by (induction rule: task_step.induct) simp_all

lemma task_acts_Cons: "task_acts (e # es) = task_acts [e] @ task_acts es"
  by (cases e) simp_all

lemma task_acts_length: "length (task_acts es) \<le> length es"
  by (induction es rule: task_acts.induct) simp_all

lemma server_run_append: "server_run F E D (xs @ ys) st = server_run F E D ys (server_run F E D xs st)"
  by (induction xs arbitrary: st) simp_all

lemma task_run_app:
  "task_run F E D t es u \<Longrightarrow> tk_app u = server_run F E D (task_acts es) (tk_app t)"
proof (induction rule: task_run.induct)
  case (run_step t e u es v)
  then show ?case
    by (subst task_acts_Cons) (simp add: task_step_app server_run_append)
qed simp

section \<open>The invariant of the tasks\<close>

definition tasks_inv :: "'s tasks \<Rightarrow> bool" where
  "tasks_inv t \<longleftrightarrow>
     (tk_server t = Absent \<longleftrightarrow> tk_handle t = Unspawned)
   \<and> (tk_signal t = Pending \<longrightarrow> tk_handle t = Await_signal \<and> tk_gc t \<noteq> Gc_done (Inr ()) \<and> tk_server t \<noteq> Stopping)
   \<and> (tk_server t = Serving \<longrightarrow> tk_handle t = Await_signal)
   \<and> (tk_handle t = Await_server \<longrightarrow> tk_gc t \<noteq> Looping)
   \<and> (\<forall>r. tk_handle t = Resolved r \<longrightarrow> tk_gc t \<noteq> Looping \<and> (\<exists>out. tk_server t = Ended out \<and> r = join_result out))"

lemma spawn_inv: "spawn_tasks F L N cfg now store = Some t \<Longrightarrow> tasks_inv t"
  by (auto simp: spawn_tasks_def tasks_inv_def split: sum.splits)

lemma step_inv: "task_step F E D t e u \<Longrightarrow> tasks_inv t \<Longrightarrow> tasks_inv u"
  by (induction rule: task_step.induct) (auto simp: tasks_inv_def)

lemma run_inv: "task_run F E D t es u \<Longrightarrow> tasks_inv t \<Longrightarrow> tasks_inv u"
  by (induction rule: task_run.induct) (auto intro: step_inv)

text \<open>Once the handle has resolved, no step changes the state of the relay or the outcome.\<close>

lemma resolved_step:
  "task_step F E D t e u \<Longrightarrow> tasks_inv t \<Longrightarrow> tk_handle t = Resolved r \<Longrightarrow>
     tk_handle u = Resolved r \<and> tk_app u = tk_app t"
  by (induction rule: task_step.induct) (auto simp: tasks_inv_def)

lemma resolved_run:
  "task_run F E D t es u \<Longrightarrow> tasks_inv t \<Longrightarrow> tk_handle t = Resolved r \<Longrightarrow>
     tk_handle u = Resolved r \<and> tk_app u = tk_app t"
proof (induction rule: task_run.induct)
  case (run_step t e u es v)
  then show ?case using resolved_step [OF run_step.hyps(1)] step_inv [OF run_step.hyps(1)] by simp
qed simp

lemma resolved_acts:
  "task_run F E D t es u \<Longrightarrow> tasks_inv t \<Longrightarrow> tk_handle t = Resolved r \<Longrightarrow> task_acts es = []"
proof (induction rule: task_run.induct)
  case (run_step t e u es v)
  have "task_acts [e] = []"
    using run_step.hyps(1) run_step.prems by (induction rule: task_step.induct) (auto simp: tasks_inv_def)
  then show ?case
    using run_step resolved_step [OF run_step.hyps(1)] step_inv [OF run_step.hyps(1)]
    by (subst task_acts_Cons) simp
qed simp

section \<open>Progress after the signal\<close>

text \<open>
  The steps the tasks take of their own accord. The signal, requests, ticks and failures are up to
  others: nothing that is said of the end of a shutdown counts on them.
\<close>

fun internal :: "task_event \<Rightarrow> bool" where
  "internal Gc_breaks = True"
| "internal (Server_ends out) = True"
| "internal Stop_sent = True"
| "internal Stop_returned = True"
| "internal Gc_joined = True"
| "internal Server_joined = True"
| "internal _ = False"

text \<open>The internal steps that are left.\<close>

fun gc_left :: "gc_task \<Rightarrow> nat" where
  "gc_left Looping = 1"
| "gc_left (Gc_done r) = 0"

fun server_left :: "server_task \<Rightarrow> nat" where
  "server_left Serving = 1"
| "server_left Stopping = 1"
| "server_left _ = 0"

fun handle_left :: "handle_task \<Rightarrow> nat" where
  "handle_left Await_signal = 4"
| "handle_left Await_stop = 3"
| "handle_left Await_gc = 2"
| "handle_left Await_server = 1"
| "handle_left _ = 0"

definition steps_left :: "'s tasks \<Rightarrow> nat" where
  "steps_left t = gc_left (tk_gc t) + server_left (tk_server t) + handle_left (tk_handle t)"

lemma steps_left_step:
  "task_step F E D t e u \<Longrightarrow> steps_left u + (if internal e then 1 else 0) \<le> steps_left t"
  by (induction rule: task_step.induct) (auto simp: steps_left_def)

lemma steps_left_run:
  "task_run F E D t es u \<Longrightarrow> steps_left u + length (filter internal es) \<le> steps_left t"
proof (induction rule: task_run.induct)
  case (run_step t e u es v)
  then show ?case using steps_left_step [OF run_step.hyps(1)] by (simp split: if_splits)
qed simp

lemma steps_left_le: "steps_left t \<le> 6"
  by (cases "tk_gc t"; cases "tk_server t"; cases "tk_handle t") (simp_all add: steps_left_def)

lemma signal_stays: "task_step F E D t e u \<Longrightarrow> tk_signal t \<noteq> Pending \<Longrightarrow> tk_signal u \<noteq> Pending"
  by (induction rule: task_step.induct) simp_all

lemma signal_stays_run: "task_run F E D t es u \<Longrightarrow> tk_signal t \<noteq> Pending \<Longrightarrow> tk_signal u \<noteq> Pending"
  by (induction rule: task_run.induct) (auto dest: signal_stays)

lemma some_step_left:
  assumes inv: "tasks_inv t" and signal: "tk_signal t \<noteq> Pending" and "steps_left t \<noteq> 0"
  shows "\<exists>e u. internal e \<and> task_step F E D t e u"
proof -
  consider (gc) "tk_gc t = Looping" | (stop) "tk_handle t = Await_signal" | (returned) "tk_handle t = Await_stop"
    | (server) "tk_server t = Stopping" | (gc_join) r where "tk_handle t = Await_gc" "tk_gc t = Gc_done r"
    | (server_join) out where "tk_handle t = Await_server" "tk_server t = Ended out"
    using inv assms(3)
    by (cases "tk_gc t"; cases "tk_server t"; cases "tk_handle t") (auto simp: steps_left_def tasks_inv_def)
  then show ?thesis
  proof cases
    case gc
    from gc_breaks [OF this signal] show ?thesis by (metis internal.simps(1))
  next
    case stop
    from stop_sent [OF this signal] show ?thesis by (metis internal.simps(3))
  next
    case returned
    from stop_returned [OF this] show ?thesis by (metis internal.simps(4))
  next
    case server
    from server_ends [OF this] show ?thesis by (metis internal.simps(2))
  next
    case gc_join
    from gc_joined [OF this] show ?thesis by (metis internal.simps(5))
  next
    case server_join
    from server_joined [OF this] show ?thesis by (metis internal.simps(6))
  qed
qed

lemma none_left:
  "tasks_inv t \<Longrightarrow> steps_left t = 0 \<Longrightarrow>
     tk_gc t \<noteq> Looping \<and> ((\<exists>r. tk_handle t = Resolved r) \<or> tk_handle t = Unspawned \<and> tk_server t = Absent)"
  by (cases "tk_gc t"; cases "tk_server t"; cases "tk_handle t") (auto simp: steps_left_def tasks_inv_def)

end
