(* ===== verification/Sled_Disk.thy ===== *)
theory Sled_Disk
  imports Sled_Contract Std_Sled
begin

text \<open>
  What of the persistent backend is on disk. A write to a tree is in memory first; a flush that
  succeeds has put on disk what the tree holds (\<open>sled_disk\<close>), and nothing is assumed of what is
  there before. Every operation flushes the trees it wrote before it answers, so between operations
  the disk has all of the store, and trees that are opened from it are those the relay left, however
  it came to its end.
\<close>

section \<open>The contract of a flush\<close>

locale sled_disk = sled_backend T view ok C
  for T :: "('t, 'x) tree_ops_scheme" and view and ok and C :: "'c sled_codecs_scheme" +
  fixes disk :: "'t \<Rightarrow> (bytes, bytes) btree"
  assumes flush_disk: "ok t \<Longrightarrow> tr_flush T t = Inr u \<Longrightarrow> disk u = view t"

definition on_disk ::
  "('t \<Rightarrow> (bytes, bytes) btree) \<Rightarrow> ('t \<Rightarrow> (bytes, bytes) btree) \<Rightarrow> 't sled_store \<Rightarrow> bool" where
  "on_disk view disk s \<longleftrightarrow>
     disk (ss_messages s) = view (ss_messages s) \<and> disk (ss_index s) = view (ss_index s)
     \<and> disk (ss_quota s) = view (ss_quota s) \<and> disk (ss_seq s) = view (ss_seq s)"

text \<open>
  Opening the trees anew: a tree that opens under the name of one of the trees of \<open>s\<close> holds what
  the disk has of it.
\<close>

definition opens_disk ::
  "('t \<Rightarrow> (bytes, bytes) btree) \<Rightarrow> ('t \<Rightarrow> bool) \<Rightarrow> ('t \<Rightarrow> (bytes, bytes) btree) \<Rightarrow> ('db \<Rightarrow> string \<Rightarrow> string + 't)
     \<Rightarrow> 't sled_store \<Rightarrow> bool" where
  "opens_disk view ok disk open_tree s \<longleftrightarrow> (\<forall>db u.
     (open_tree db ''messages'' = Inr u \<longrightarrow> ok u \<and> view u = disk (ss_messages s))
     \<and> (open_tree db ''index'' = Inr u \<longrightarrow> ok u \<and> view u = disk (ss_index s))
     \<and> (open_tree db ''quota'' = Inr u \<longrightarrow> ok u \<and> view u = disk (ss_quota s))
     \<and> (open_tree db ''seq'' = Inr u \<longrightarrow> ok u \<and> view u = disk (ss_seq s)))"

lemma sled_new_empty_disk:
  assumes "sled_new open_db open_tree path = Inr s"
    and "\<forall>db name u. open_tree db name = Inr u \<longrightarrow> ok u \<and> view u = [] \<and> disk u = []"
  shows "on_disk view disk s"
  using assms by (auto simp: sled_new_def on_disk_def map_err_def res_bind_def split: sum.splits)

text \<open>What the transaction of an acknowledgement makes of the trees, for any recipient.\<close>

context sled_backend
begin

lemma ack_one_trees:
  assumes "sled_ack_one T C r a (s, q, out) = Inr (s', q', out')" and "trees_ok ok s"
  shows "trees_ok ok s' \<and> ss_seq s' = ss_seq s"
  using assms
  by (auto simp: sled_ack_one_def Let_def res_bind_Inr_iff tx_simps trees_ok_def tree_ok_simps split: option.splits)

lemma ack_loop_trees:
  "sled_ack_loop T C r xs (s, q, out) = Inr (s', q', out') \<Longrightarrow> trees_ok ok s \<Longrightarrow>
     trees_ok ok s' \<and> ss_seq s' = ss_seq s"
proof (induction xs arbitrary: s q out)
  case (Cons a xs)
  obtain s1 q1 out1 where one: "sled_ack_one T C r a (s, q, out) = Inr (s1, q1, out1)"
    and rest: "sled_ack_loop T C r xs (s1, q1, out1) = Inr (s', q', out')"
    using Cons.prems(1) by (auto simp: res_bind_Inr_iff)
  show ?case using Cons.IH [OF rest] ack_one_trees [OF one Cons.prems(2)] by simp
qed simp

lemma ack_tx_trees:
  assumes "ack_tx T C r items s = Inr (out, s')" and "trees_ok ok s"
  shows "trees_ok ok s' \<and> ss_seq s' = ss_seq s"
proof -
  obtain q s1 q1 out1 data quota where "sled_ack_loop T C r items (s, q, ack_outcome_default) = Inr (s1, q1, out1)"
    and quota: "tx_insert T (quota_key r) data (ss_quota s1) = Inr quota" and s': "s' = s1\<lparr>ss_quota := quota\<rparr>"
    using assms(1) by (auto simp: ack_tx_def res_bind_Inr_iff)
  with ack_loop_trees assms(2) have "trees_ok ok s1" "ss_seq s1 = ss_seq s" by blast+
  then show ?thesis using quota by (auto simp: s' trees_ok_def tx_simps tree_ok_simps)
qed

lemma push_tx_trees: "push_tx T C msg limits s = Inr (out, s') \<Longrightarrow> trees_ok ok s \<Longrightarrow> trees_ok ok s'"
  by (auto simp: push_tx_def Let_def res_bind_Inr_iff tx_simps trees_ok_def tree_ok_simps split: if_splits)

end

section \<open>Every operation leaves the store on disk\<close>

context sled_disk
begin

lemma sync_disk: "ok t \<Longrightarrow> disk (tree_sync T t) = view t"
  using tree_sync_ok [of t] flush_disk by blast

lemma synced_disk:
  assumes "trees_ok ok s"
  shows "on_disk view disk (synced T s)"
    and "disk (ss_seq s) = view (ss_seq s) \<Longrightarrow> on_disk view disk (synced3 T s)"
  using assms tree_sync_ok by (simp_all add: on_disk_def synced_def synced3_def trees_ok_def sync_disk)

lemma push_disk:
  assumes ok: "trees_ok ok s" and "on_disk view disk s"
  shows "on_disk view disk (snd (sled_push T C s msg limits))"
proof -
  have tx: "trees_ok ok s'" if "push_tx T C msg limits s = Inr (x, s')" for x s'
    using push_tx_trees [OF that ok] .
  have run: "sled_push T C s msg limits
      = (case push_tx T C msg limits s of Inl e \<Rightarrow> (Inl (tx_result e), s) | Inr (x, s') \<Rightarrow> (Inr x, synced T s'))"
    by (rule sled_push_run [OF ok refl tx])
  show ?thesis
  proof (cases "push_tx T C msg limits s")
    case (Inl e)
    then show ?thesis using run assms(2) by simp
  next
    case (Inr y)
    obtain x s' where y: "y = (x, s')" by fastforce
    then show ?thesis using run Inr synced_disk(1) [OF tx, of x s'] by simp
  qed
qed

lemma ack_disk:
  assumes ok: "trees_ok ok s" and disk: "on_disk view disk s"
  shows "on_disk view disk (snd (sled_ack T C s r items))"
proof (cases "ack_tx T C r (remdups items) s")
  case (Inl e)
  then show ?thesis using disk by (simp add: sled_ack_def transaction_def)
next
  case (Inr y)
  obtain out s1 where y: "y = (out, s1)" by fastforce
  have s1: "trees_ok ok s1" "ss_seq s1 = ss_seq s" using ack_tx_trees [OF _ ok] Inr y by blast+
  have "transaction T (\<lambda>s. [ss_messages s, ss_index s, ss_quota s]) (ack_tx T C r (remdups items)) s = (Inr out, s1)"
    by (rule transaction_ok) (use Inr y s1(1) in \<open>simp_all add: trees_ok_def\<close>)
  then have "sled_ack T C s r items = (Inr out, synced3 T s1)"
    using synced3_run [OF s1(1), of "\<lambda>_ s. (Inr out, s)"] by (simp add: sled_ack_def)
  then show ?thesis using synced_disk(2) [OF s1(1)] disk s1(2) by (simp add: on_disk_def)
qed

lemma purge_disk:
  assumes "sled_inv view ok C s" and disk: "on_disk view disk s"
  shows "on_disk view disk (snd (sled_purge_expired T C s now n))"
proof -
  obtain ms where "sled_rep view ok C s ms" using assms(1) by (auto simp: sled_inv_def)
  from sled_purge_run [OF this, of now n] obtain k s1 ms1 where
    run: "sled_purge_expired T C s now n = (Inr k, synced3 T s1)" and "sled_rep view ok C s1 ms1" and seq: "ss_seq s1 = ss_seq s"
    unfolding Let_def by blast
  then have "trees_ok ok s1" by (simp add: sled_rep_def)
  then show ?thesis using synced_disk(2) disk seq by (simp add: run on_disk_def)
qed

lemma event_disk:
  assumes "sled_inv view ok C s" and disk: "on_disk view disk s"
  shows "on_disk view disk (event_state (sled_ops E T C) limits e s)"
proof -
  have "trees_ok ok s" using assms(1) by (auto simp: sled_inv_def sled_rep_def)
  then show ?thesis
    using push_disk ack_disk purge_disk assms by (cases e) (simp_all add: sled_ops_def sled_pull_def)
qed

lemma reached_disk:
  assumes opened: "sled_opened T view ok C init" and "on_disk view disk init"
    and "reached (sled_ops E T C) limits init k s" and "k < 2 ^ 64 - 1" and "max_queue_bytes_per_user limits \<noteq> - 1"
  shows "on_disk view disk s"
  using assms(3,4)
proof (induction rule: reached.induct)
  case (step k s e)
  have k: "k < 2 ^ 64 - 1" using step.prems by simp
  have "sled_inv view ok C s"
    using relay_system.reached_inv [OF sled_opened.system [OF opened] step.hyps(1) k assms(5)] by simp
  then show ?case using event_disk step.IH [OF k] by blast
qed (rule assms(2))

text \<open>What is opened from the disk is the store again.\<close>

lemma reopened:
  assumes inv: "sled_inv view ok C s" and disk: "on_disk view disk s" and opens: "opens_disk view ok disk open_tree s"
    and new: "sled_new open_db open_tree path = Inr s'"
  shows "sled_inv view ok C s' \<and> sled_box view C s' = sled_box view C s"
proof -
  obtain db where "open_tree db ''messages'' = Inr (ss_messages s')" "open_tree db ''index'' = Inr (ss_index s')"
      "open_tree db ''quota'' = Inr (ss_quota s')" "open_tree db ''seq'' = Inr (ss_seq s')"
    using new by (auto simp: sled_new_def map_err_def res_bind_def split: sum.splits)
  then have ok: "trees_ok ok s'" and same: "view (ss_messages s') = view (ss_messages s)" "view (ss_index s') = view (ss_index s)"
      "view (ss_quota s') = view (ss_quota s)" "view (ss_seq s') = view (ss_seq s)"
    using opens disk by (simp_all add: opens_disk_def on_disk_def trees_ok_def)
  show ?thesis
    using inv ok same by (auto simp: sled_inv_def sled_rep_def sled_box_def fun_eq_iff)
qed

end

section \<open>A reference instance with a disk\<close>

text \<open>A tree in memory beside what was flushed of it: writes go to memory, a flush copies it.\<close>

type_synonym disk_tree = "(bytes, bytes) btree \<times> (bytes, bytes) btree"

definition std_disk_tree :: "disk_tree tree_ops" where
  "std_disk_tree = \<lparr>tr_get = (\<lambda>t k. Inr (bt_get (fst t) k)),
     tr_insert = (\<lambda>k v t. Inr (bt_insert k v (fst t), snd t)),
     tr_remove = (\<lambda>k t. Inr (bt_remove k (fst t), snd t)),
     tr_scan_prefix = (\<lambda>p t. map Inr (filter (\<lambda>e. has_prefix p (fst e)) (fst t))),
     tr_iter = (\<lambda>t. map Inr (fst t)),
     tr_flush = (\<lambda>t. Inr (fst t, fst t)),
     tr_commit = (\<lambda>_. Inr ())\<rparr>"

definition std_disk_init :: "disk_tree sled_store" where
  "std_disk_init = \<lparr>ss_messages = ([], []), ss_index = ([], []), ss_quota = ([], []), ss_seq = ([], [])\<rparr>"

interpretation std_disk: sled_opened std_disk_tree fst "\<lambda>t. bt_ok (fst t)" std_codecs std_disk_init
  by (unfold_locales)
    (auto simp: std_disk_tree_def std_disk_init_def trees_ok_def bt.ok_insert bt.ok_remove bt.ok_empty
      std_sled.uuid_text_sep std_sled.uuid_text_ascii)

interpretation std_disk_flush: sled_disk std_disk_tree fst "\<lambda>t. bt_ok (fst t)" std_codecs snd
  by unfold_locales (auto simp: std_disk_tree_def)

end
