(* ===== verification/Tasks_Props.thy ===== *)
theory Tasks_Props
  imports Tasks Sled_Props Sled_Disk
begin

text \<open>
  The properties of a running relay: what its handle promises, that a shutdown comes to an end,
  that requests and collections are all that changes its state, and that what the persistent
  backend accepted is delivered by the relay that is started on the disk it left, however it ended.
\<close>

section \<open>A clean shutdown\<close>

definition clean_stop :: "task_event list" where
  "clean_stop = [Send_shutdown, Stop_sent, Gc_breaks, Server_ends (Inr (Inr ())), Stop_returned, Gc_joined, Server_joined]"

definition stopped_tasks :: "'s tasks \<Rightarrow> 's tasks" where
  "stopped_tasks t = t\<lparr>tk_signal := Sent, tk_gc := Gc_done (Inr ()), tk_server := Ended (Inr (Inr ())),
     tk_handle := Resolved (Inr ())\<rparr>"

lemma clean_stop_run:
  assumes "tk_signal t = Pending" and "tk_gc t = Looping" and "tk_server t = Serving" and "tk_handle t = Await_signal"
  shows "task_run F E D t clean_stop (stopped_tasks t)"
  using assms unfolding clean_stop_def stopped_tasks_def
  by (auto intro!: run_step run_nil simp: task_step_simps join_result_def)

text \<open>The persistent relay of the samples with its tasks.\<close>

definition sample_tasks :: "(bytes, bytes) btree sled_store tasks" where
  "sample_tasks = \<lparr>tk_signal = Pending, tk_gc = Looping, tk_server = Serving, tk_handle = Await_signal, tk_app = sample_sled_start\<rparr>"

lemmas sample_start_with_store = sample_started_with [of std_init]

lemma sample_build_server:
  "\<exists>x. build_server default_features sample_tls_lib sample_net sample_sled_cfg = Inr x"
  by (simp add: build_server_def listen_on_def sample_net_def sample_sled_cfg_def sample_cfg_def config_default_def)

lemma sample_spawn:
  "spawn_tasks default_features sample_tls_lib sample_net sample_sled_cfg 0 std_init = Some sample_tasks"
  using sample_build_server by (auto simp: spawn_tasks_def sample_start_with_store sample_tasks_def)

lemma sample_stop:
  "task_run default_features std_externals std_ops sample_tasks clean_stop (stopped_tasks sample_tasks)"
  by (rule clean_stop_run) (simp_all add: sample_tasks_def)

section \<open>The handle\<close>

text \<open>
  C31. The handle of the relay resolves last. When it has resolved, the signal was sent or its
  sender dropped, the collector's task has ended, and so has the server, whose outcome is what the
  handle gives; from then on no request is served and no collection runs, so the state of the
  relay is final. It is the state the requests and collections before led to, in their order.
\<close>

theorem handle_resolves_last:
  assumes "spawn_tasks F L N cfg now store = Some t0" and "start_with_store F cfg now store = Inr st0"
    and "task_run F E D t0 es t" and "tk_handle t = Resolved r" and "task_run F E D t fs u"
  shows "tk_signal t \<noteq> Pending \<and> tk_gc t \<noteq> Looping \<and> (\<exists>out. tk_server t = Ended out \<and> r = join_result out)
    \<and> tk_app t = server_run F E D (task_acts es) st0 \<and> task_acts fs = [] \<and> tk_app u = tk_app t \<and> tk_handle u = Resolved r"
proof -
  have inv: "tasks_inv t" using run_inv [OF assms(3) spawn_inv [OF assms(1)]] .
  have app0: "tk_app t0 = st0" using assms(1,2) by (auto simp: spawn_tasks_def split: sum.splits)
  show ?thesis
    using inv assms(4) task_run_app [OF assms(3)] resolved_run [OF assms(5) inv assms(4)] resolved_acts [OF assms(5) inv assms(4)]
    by (auto simp: tasks_inv_def app0)
qed

theorem handle_resolves_last_witness:
  "tk_handle (stopped_tasks sample_tasks) = Resolved (Inr ())
   \<and> task_run default_features std_externals std_ops sample_tasks clean_stop (stopped_tasks sample_tasks)
   \<and> tk_gc (stopped_tasks sample_tasks) \<noteq> Looping \<and> tk_app (stopped_tasks sample_tasks) = sample_sled_start"
proof -
  have "tk_handle (stopped_tasks sample_tasks) = Resolved (Inr ())" by (simp add: stopped_tasks_def)
  from this sample_stop handle_resolves_last [OF sample_spawn sample_start_with_store sample_stop this run_nil]
  show ?thesis by (simp add: clean_stop_def)
qed

text \<open>
  C30. A shutdown comes to an end. Once the signal was sent or its sender dropped, also by a start
  that failed after the collector was spawned, the tasks take at most six further steps of their
  own, however many requests and collections come between; and as long as the collector runs or
  the handle has not resolved, one of these steps is possible. No failure is needed for it: the
  collector breaks out of its loop by the signal, and the server ends by being told to stop.
\<close>

theorem shutdown_ends:
  assumes "spawn_tasks F L N cfg now store = Some t0" and "task_run F E D t0 es t" and "tk_signal t \<noteq> Pending"
    and "task_run F E D t fs u"
  shows "length (filter internal fs) \<le> 6
    \<and> ((\<exists>e v. internal e \<and> task_step F E D u e v)
       \<or> tk_gc u \<noteq> Looping \<and> ((\<exists>r. tk_handle u = Resolved r) \<or> tk_handle u = Unspawned \<and> tk_server u = Absent))"
proof -
  have inv: "tasks_inv u" using run_inv [OF assms(4) run_inv [OF assms(2) spawn_inv [OF assms(1)]]] .
  have "length (filter internal fs) \<le> 6" using steps_left_run [OF assms(4)] steps_left_le [of t] by linarith
  moreover have "tk_signal u \<noteq> Pending" using signal_stays_run [OF assms(4,3)] .
  ultimately show ?thesis using some_step_left [OF inv] none_left [OF inv] by blast
qed

theorem shutdown_ends_witness:
  "length (filter internal (tl clean_stop)) \<le> 6 \<and> tk_gc (stopped_tasks sample_tasks) \<noteq> Looping"
proof -
  let ?t = "sample_tasks\<lparr>tk_signal := Sent\<rparr>"
  have "task_run default_features std_externals std_ops sample_tasks [Send_shutdown] ?t"
    and t: "tk_signal ?t \<noteq> Pending" and run: "task_run default_features std_externals std_ops ?t (tl clean_stop) (stopped_tasks sample_tasks)"
    by (auto intro!: run_step run_nil simp: task_step_simps sample_tasks_def clean_stop_def stopped_tasks_def join_result_def)
  from shutdown_ends [OF sample_spawn this] show ?thesis by (simp add: stopped_tasks_def)
qed

section \<open>Restart\<close>

lemma serve_push_stored:
  "fst (serve F E D env (PostPush body) st) = Some (200, PushBody resp) \<Longrightarrow>
     push_handler F E D env body st = (Some (Inr resp), snd (serve F E D env (PostPush body) st))"
  by (auto simp: reply_with_def split: prod.splits option.splits sum.splits)

lemma spawn_app:
  "spawn_tasks F L N cfg now store = Some t \<Longrightarrow> start_with_store F cfg now store = Inr (tk_app t)"
  by (auto simp: spawn_tasks_def split: sum.splits)

context relay_service
begin

text \<open>The store of a relay is reached by as many operations as it has seen events.\<close>

lemma tasks_reached:
  assumes "spawn_tasks F L N cfg now init = Some t0" and "task_run F E D t0 before t1"
    and "task_step F E D t1 (Served env req) t2" and "task_run F E D t2 after t3"
    and "\<forall>e\<in>set (task_acts before @ Request env req # task_acts after). step_ok e"
  shows "\<exists>k\<le>length before + length after + 1. reached D (cfg_relay cfg) init k (as_store (tk_app t3))"
proof -
  let ?es = "task_acts before @ Request env req # task_acts after"
  note sel = start_with_store_sel [OF spawn_app [OF assms(1)]]
  have "tk_app t3 = server_run F E D ?es (tk_app t0)"
    using task_run_app [OF assms(2)] task_step_app [OF assms(3)] task_run_app [OF assms(4)]
    by (simp add: server_run_append)
  moreover have "length ?es \<le> length before + length after + 1"
    using task_acts_length [of before] task_acts_length [of after] by simp
  moreover obtain k where "k \<le> length ?es" "reached D (cfg_relay cfg) init k (as_store (server_run F E D ?es (tk_app t0)))"
    using server_reached [OF sel(1) assms(5), of F] by (auto simp: sel(2))
  ultimately show ?thesis by (intro exI [of _ k]) simp
qed

lemma restart_delivers:
  assumes spawn: "spawn_tasks F L N cfg now init = Some t0" and "task_run F E D t0 before t1"
    and push: "task_step F E D t1 (Served env (PostPush body)) t2"
    and answer: "fst (serve F E D env (PostPush body) (tk_app t1)) = Some (200, PushBody resp)" "pp_stored resp"
    and "task_run F E D t2 after t3"
    and same: "inv s'" "box s' = box (as_store (tk_app t3))"
    and again: "start_with_store F cfg' now' s' = Inr st"
    and lim: "max_queue_bytes_per_user (cfg_relay cfg) \<noteq> - 1" "max_queue_bytes_per_user (cfg_relay cfg') \<noteq> - 1"
    and r: "addressable (pq_recipient body)" and ok: "\<forall>e\<in>set (task_acts before). step_ok e"
    and deadline: "deadline = sat_add (now_millis (env_system env)) (sat_mul (message_ttl_seconds (cfg_relay cfg)) 1000)"
    and later: "\<forall>e\<in>set (task_acts after @ es). step_ok e \<and> step_spares (pq_recipient body)
      (pq_message_id body, mm_chunk_index (pq_meta body)) deadline e"
    and len: "length before + length after + length es + 2 < 2 ^ 64"
    and time: "now_millis (env_system env') < deadline" and mx: "mx \<noteq> Some 0"
  shows "(\<forall>fuel items st'. http_drain F D env' (pq_recipient body) mx fuel None (server_run F E D es st) = Some (items, st')
      \<longrightarrow> \<lparr>di_recipient = pq_recipient body, di_message_id = pq_message_id body, di_ciphertext_b64 = pq_ciphertext_b64 body,
        di_meta = pq_meta body, di_arrival_ms = now_millis (env_system env), di_deadline_ms = deadline\<rparr> \<in> set items)
    \<and> (\<not> rl_enabled (cfg_rate_limit cfg') \<longrightarrow>
        (\<exists>fuel items st'. http_drain F D env' (pq_recipient body) mx fuel None (server_run F E D es st) = Some (items, st')))"
proof -
  let ?i = "\<lparr>di_recipient = pq_recipient body, di_message_id = pq_message_id body, di_ciphertext_b64 = pq_ciphertext_b64 body,
        di_meta = pq_meta body, di_arrival_ms = now_millis (env_system env), di_deadline_ms = deadline\<rparr>"
  note sel0 = start_with_store_sel [OF spawn_app [OF spawn]] and sel = start_with_store_sel [OF again]
  have st0: "inv (as_store (tk_app t0))" "\<forall>q. addressable q \<longrightarrow> unat (fst (box (as_store (tk_app t0)) q)) \<le> 0"
    by (simp_all add: sel0 init_inv init_box)
  have b: "length (task_acts before) \<le> length before" and a: "length (task_acts after) \<le> length after"
    by (rule task_acts_length)+
  have 1: "inv (as_store (tk_app t1))" "as_config (tk_app t1) = cfg"
    "\<forall>q. addressable q \<longrightarrow> unat (fst (box (as_store (tk_app t1)) q)) \<le> length (task_acts before)"
    using server_run_from [OF st0, of "task_acts before"] ok b len lim(1) task_run_app [OF assms(2)]
    by (simp_all add: sel0)
  have st2: "tk_app t2 = snd (serve F E D env (PostPush body) (tk_app t1))" using task_step_app [OF push] by simp
  obtain m where m: "m \<in> set (snd (box (as_store (tk_app t2)) (pq_recipient body)))" and msel: "to_delivery m = ?i"
    and 2: "inv (as_store (tk_app t2))" "\<forall>q. addressable q \<longrightarrow> unat (fst (box (as_store (tk_app t2)) q)) \<le> length (task_acts before) + 1"
      "as_config (tk_app t2) = cfg" "str_trim (pq_recipient body) \<noteq> []"
    using push_handler_box [OF 1(1,3) _ _ r serve_push_stored [OF answer(1)] answer(2), folded st2] b len lim(1)
    unfolding 1(2) deadline by auto
  have key: "msg_key m = (pq_message_id body, mm_chunk_index (pq_meta body))" "qm_deadline_ms m = deadline"
    using msel by (auto simp: to_delivery_def msg_key_def)
  have 3: "inv (as_store st)" "\<forall>q. addressable q \<longrightarrow> unat (fst (box (as_store st) q)) \<le> length (task_acts before) + 1 + length (task_acts after)"
    "m \<in> set (snd (box (as_store st) (pq_recipient body)))"
    using server_run_from [OF 2(1,2), of "task_acts after"] m later lim(1) len a b r same
    unfolding 2(3) sel(1) task_run_app [OF assms(6)] key [symmetric] by auto
  have 4: "inv (as_store (server_run F E D es st))" "as_config (server_run F E D es st) = cfg'"
    "m \<in> set (snd (box (as_store (server_run F E D es st)) (pq_recipient body)))"
    using server_run_from [OF 3(1,2), of es] 3(3) later lim(2) len a b r unfolding sel(2) key [symmetric] by auto
  have "enabled (server_run F E D es st) = rl_enabled (cfg_rate_limit cfg')" "0 < pull_batch_max (cfg_relay cfg')"
    using sel(3,4) by (simp_all add: server_run_enabled config_ok_def positive_limits_def)
  then show ?thesis
    using http_delivers [OF 4(1,3) r 2(4) _ mx, of env' F] time unfolding 4(2) msel live_def key(2) by simp
qed

end


text \<open>The relay of the samples on trees with a disk, and what opens from that disk.\<close>

abbreviation std_disk_ops :: "disk_tree sled_store store_ops" where
  "std_disk_ops \<equiv> sled_ops std_externals std_disk_tree std_codecs"

definition std_disk_open :: "disk_tree sled_store \<Rightarrow> unit \<Rightarrow> string \<Rightarrow> string + disk_tree" where
  "std_disk_open s db name =
     Inr (let d = snd (if name = ''messages'' then ss_messages s else if name = ''index'' then ss_index s
            else if name = ''quota'' then ss_quota s else ss_seq s) in (d, d))"

definition std_disk_reopened :: "disk_tree sled_store \<Rightarrow> disk_tree sled_store" where
  "std_disk_reopened s =
     \<lparr>ss_messages = (snd (ss_messages s), snd (ss_messages s)), ss_index = (snd (ss_index s), snd (ss_index s)),
      ss_quota = (snd (ss_quota s), snd (ss_quota s)), ss_seq = (snd (ss_seq s), snd (ss_seq s))\<rparr>"

lemma std_disk_open_new: "sled_new std_open (std_disk_open s) path = Inr (std_disk_reopened s)"
  by (simp add: sled_new_def std_open_def std_disk_open_def std_disk_reopened_def Let_def)

definition sample_disk_tasks :: "disk_tree sled_store tasks" where
  "sample_disk_tasks = \<lparr>tk_signal = Pending, tk_gc = Looping, tk_server = Serving, tk_handle = Await_signal,
     tk_app = sample_started std_disk_init\<rparr>"

lemma sample_disk_spawn:
  "spawn_tasks default_features sample_tls_lib sample_net sample_sled_cfg 0 std_disk_init = Some sample_disk_tasks"
  using sample_build_server by (auto simp: spawn_tasks_def sample_started_with sample_disk_tasks_def)

lemma sample_disk_after:
  assumes "push_handler default_features std_externals std_disk_ops sample_env (sample_body 1) (sample_started std_disk_init)
      = (Some (Inr resp), st1)" and "pp_stored resp"
  shows "opens_disk fst (\<lambda>t. bt_ok (fst t)) snd (std_disk_open (as_store st1)) (as_store st1)"
proof -
  obtain m limits where "as_store st1 = snd (sled_push std_disk_tree std_codecs std_disk_init m limits)"
    using push_handler_stored [OF assms] by (metis (no_types, lifting) app_state.simps(1) sample_started_def sled_ops_def snd_conv store_ops.simps(1))
  moreover have "on_disk fst snd std_disk_init" by (simp add: on_disk_def std_disk_init_def)
  ultimately have "on_disk fst snd (as_store st1)" "trees_ok (\<lambda>t. bt_ok (fst t)) (as_store st1)"
    using std_disk_flush.push_disk [OF std_disk.init_ok] sled_backend.sled_push_trees_ok [OF std_disk.sled_backend_axioms std_disk.init_ok] by simp_all
  then show ?thesis by (auto simp: opens_disk_def std_disk_open_def on_disk_def trees_ok_def Let_def)
qed


end
