(* ===== verification/Purge_Steps.thy ===== *)
theory Purge_Steps
  imports Sled_Purge Sled_Pull Sled_Ack
begin

text \<open>
  \<open>SledStore::purge_expired\<close> call by call. The purge is not a transaction: pushes, pulls and
  acknowledgements fall between its calls. \<open>purge_next\<close> makes one call of the tree library; run
  alone it is the purge of \<open>Store_Sled\<close>; \<open>race_step\<close> lets the operations of the handlers, which are
  transactions, in between. The flushes at its end are one step: they change nothing that a handler
  can read.
\<close>

section \<open>The purge in steps\<close>

text \<open>
  Where the purge is: in the loop, with the entries left, the number removed and the pending
  quotas; between removing a message and its index entry; before the quota of its recipient is
  looked up; writing the quotas; at its end.
\<close>

datatype purge_pc =
    Scanning "(string + bytes \<times> bytes) list" usize "(string \<times> quota_value) list"
  | Unindexing queue_message "(string + bytes \<times> bytes) list" usize "(string \<times> quota_value) list"
  | Charging queue_message "(string + bytes \<times> bytes) list" usize "(string \<times> quota_value) list"
  | Writing "(string \<times> quota_value) list" usize
  | Purged "usize result"

fun purge_next ::
  "('t, 'x) tree_ops_scheme \<Rightarrow> 'c sled_codecs_scheme \<Rightarrow> u64 \<Rightarrow> usize \<Rightarrow> purge_pc \<Rightarrow> 't sled_store
     \<Rightarrow> purge_pc \<times> 't sled_store" where
  "purge_next T C now target (Scanning [] removed quotas) s = (Writing quotas removed, s)"
| "purge_next T C now target (Scanning (entry # rest) removed quotas) s =
     (if target \<le> removed then (Writing quotas removed, s)
      else
        (case entry of
           Inl err \<Rightarrow> (Purged (Inl (from_sled_error err)), s)
         | Inr (key, val) \<Rightarrow>
             (case msg_from_slice C val of
                Inl err \<Rightarrow> (Purged (Inl (from_json_error err)), s)
              | Inr msg \<Rightarrow>
                  if now < qm_deadline_ms msg then (Scanning rest removed quotas, s)
                  else
                    (case tr_remove T key (ss_messages s) of
                       Inl err \<Rightarrow> (Purged (Inl (from_sled_error err)), s)
                     | Inr messages \<Rightarrow> (Unindexing msg rest removed quotas, s\<lparr>ss_messages := messages\<rparr>)))))"
| "purge_next T C now target (Unindexing msg rest removed quotas) s =
     (case tr_remove T (index_key C (qm_recipient msg) (qm_message_id msg) (mm_chunk_index (qm_meta msg))) (ss_index s) of
        Inl err \<Rightarrow> (Purged (Inl (from_sled_error err)), s)
      | Inr index \<Rightarrow> (Charging msg rest removed quotas, s\<lparr>ss_index := index\<rparr>))"
| "purge_next T C now target (Charging msg rest removed quotas) s =
     (case lookup_quota T C quotas s (qm_recipient msg) of
        Inl err \<Rightarrow> (Purged (Inl err), s)
      | Inr q \<Rightarrow>
          (Scanning rest (removed + 1)
             (AList.update (qm_recipient msg)
               (q\<lparr>qv_count := sat_sub (qv_count q) 1,
                  qv_bytes := sat_sub (qv_bytes q) (qm_payload_bytes msg)\<rparr>) quotas), s))"
| "purge_next T C now target (Writing [] removed) s =
     (case st_bind (flush_tree T ss_messages ss_messages_update s) (\<lambda>_ s.
           st_bind (flush_tree T ss_index ss_index_update s) (\<lambda>_ s.
           st_bind (flush_tree T ss_quota ss_quota_update s) (\<lambda>_ s. (Inr removed, s)))) of
        (res, s') \<Rightarrow> (Purged res, s'))"
| "purge_next T C now target (Writing ((recipient, q) # rest) removed) s =
     (case quota_to_vec C q of
        Inl err \<Rightarrow> (Purged (Inl (from_json_error err)), s)
      | Inr data \<Rightarrow>
          (case tr_insert T (quota_key recipient) data (ss_quota s) of
             Inl err \<Rightarrow> (Purged (Inl (from_sled_error err)), s)
           | Inr quota \<Rightarrow> (Writing rest removed, s\<lparr>ss_quota := quota\<rparr>)))"
| "purge_next T C now target (Purged res) s = (Purged res, s)"

definition purge_begin :: "('t, 'x) tree_ops_scheme \<Rightarrow> 't sled_store \<Rightarrow> purge_pc" where
  "purge_begin T s = Scanning (tr_iter T (ss_messages s)) 0 []"

section \<open>Alone, the steps are the purge\<close>

text \<open>The purge as it goes on from one point, in one piece.\<close>

definition write_rest ::
  "('t, 'x) tree_ops_scheme \<Rightarrow> 'c sled_codecs_scheme \<Rightarrow> (string \<times> quota_value) list \<Rightarrow> usize \<Rightarrow> 't sled_store
     \<Rightarrow> usize result \<times> 't sled_store" where
  "write_rest T C quotas removed s =
     st_bind (write_quotas T C quotas s) (\<lambda>_ s.
     st_bind (flush_tree T ss_messages ss_messages_update s) (\<lambda>_ s.
     st_bind (flush_tree T ss_index ss_index_update s) (\<lambda>_ s.
     st_bind (flush_tree T ss_quota ss_quota_update s) (\<lambda>_ s. (Inr removed, s)))))"

definition scan_rest ::
  "('t, 'x) tree_ops_scheme \<Rightarrow> 'c sled_codecs_scheme \<Rightarrow> u64 \<Rightarrow> usize \<Rightarrow> (string + bytes \<times> bytes) list
     \<Rightarrow> usize \<Rightarrow> (string \<times> quota_value) list \<Rightarrow> 't sled_store \<Rightarrow> usize result \<times> 't sled_store" where
  "scan_rest T C now target es removed quotas s =
     st_bind (purge_scan T C now target es removed quotas s) (\<lambda>(removed, quotas) s. write_rest T C quotas removed s)"

lemma purge_as_scan_rest:
  "sled_purge_expired T C s now n = scan_rest T C now (min n sled_gc_batch_limit) (tr_iter T (ss_messages s)) 0 [] s"
  unfolding sled_purge_expired_def scan_rest_def write_rest_def by (rule refl)

inductive purge_steps ::
  "('t, 'x) tree_ops_scheme \<Rightarrow> 'c sled_codecs_scheme \<Rightarrow> u64 \<Rightarrow> usize \<Rightarrow> purge_pc \<Rightarrow> 't sled_store
     \<Rightarrow> usize result \<Rightarrow> 't sled_store \<Rightarrow> bool" for T C now target where
  steps_done: "purge_steps T C now target (Purged res) s res s"
| steps_next: "purge_next T C now target pc s = (pc', s') \<Longrightarrow> purge_steps T C now target pc' s' res s2 \<Longrightarrow>
     purge_steps T C now target pc s res s2"

inductive_simps purge_steps_done: "purge_steps T C now target (Purged res) s res' s'"

lemma write_steps:
  "write_rest T C quotas removed s = (res, s') \<Longrightarrow> purge_steps T C now target (Writing quotas removed) s res s'"
proof (induction quotas arbitrary: s)
  case Nil
  then show ?case by (intro steps_next [OF _ steps_done]) (simp add: write_rest_def)
next
  case (Cons p quotas)
  obtain r q where p: "p = (r, q)" by fastforce
  show ?case
  proof (cases "\<exists>data quota. quota_to_vec C q = Inr data \<and> tr_insert T (quota_key r) data (ss_quota s) = Inr quota")
    case True
    then obtain data quota where io: "quota_to_vec C q = Inr data" "tr_insert T (quota_key r) data (ss_quota s) = Inr quota"
      by blast
    then have "purge_steps T C now target (Writing quotas removed) (s\<lparr>ss_quota := quota\<rparr>) res s'"
      using Cons.prems by (intro Cons.IH) (simp add: write_rest_def p)
    then show ?thesis by (rule steps_next [rotated]) (simp add: p io)
  next
    case False
    then show ?thesis
      using Cons.prems
      by (auto simp: write_rest_def p split: sum.splits intro!: steps_next [OF _ steps_done])
  qed
qed

text \<open>An expired message that was removed: its index entry, its quota, and on.\<close>

lemma unindex_steps:
  assumes run: "scan_rest T C now target (Inr (k, v) # es) removed quotas s = (res, s')"
    and e: "removed < target" "msg_from_slice C v = Inr m" "\<not> now < qm_deadline_ms m" "tr_remove T k (ss_messages s) = Inr ms"
    and rest: "\<And>removed quotas s. scan_rest T C now target es removed quotas s = (res, s') \<Longrightarrow>
      purge_steps T C now target (Scanning es removed quotas) s res s'"
  shows "purge_steps T C now target (Unindexing m es removed quotas) (s\<lparr>ss_messages := ms\<rparr>) res s'"
proof (cases "tr_remove T (index_key C (qm_recipient m) (qm_message_id m) (mm_chunk_index (qm_meta m))) (ss_index s)")
  case (Inl x)
  then show ?thesis using run e by (auto simp: scan_rest_def intro!: steps_next [OF _ steps_done])
next
  case (Inr ix)
  let ?s = "s\<lparr>ss_messages := ms, ss_index := ix\<rparr>"
  have "purge_steps T C now target (Charging m es removed quotas) ?s res s'"
  proof (cases "lookup_quota T C quotas ?s (qm_recipient m)")
    case (Inl x)
    then show ?thesis using run e Inr by (auto simp: scan_rest_def intro!: steps_next [OF _ steps_done])
  next
    case q: (Inr q)
    have "purge_steps T C now target (Scanning es (removed + 1) (AList.update (qm_recipient m)
        (q\<lparr>qv_count := sat_sub (qv_count q) 1, qv_bytes := sat_sub (qv_bytes q) (qm_payload_bytes m)\<rparr>) quotas)) ?s res s'"
      using run e Inr q by (intro rest) (simp add: scan_rest_def Let_def)
    then show ?thesis by (rule steps_next [rotated]) (simp add: q)
  qed
  then show ?thesis by (rule steps_next [rotated]) (simp add: Inr)
qed

lemma scan_steps:
  "scan_rest T C now target es removed quotas s = (res, s') \<Longrightarrow>
     purge_steps T C now target (Scanning es removed quotas) s res s'"
proof (induction es arbitrary: removed quotas s)
  case Nil
  then show ?case by (auto simp: scan_rest_def intro: steps_next write_steps)
next
  case (Cons e es)
  consider (full) "target \<le> removed"
    | (stop) x where "removed < target" "e = Inl x \<or> (\<exists>k v y. e = Inr (k, v) \<and> msg_from_slice C v = Inl y)"
    | (live) k v m where "removed < target" "e = Inr (k, v)" "msg_from_slice C v = Inr m" "now < qm_deadline_ms m"
    | (stuck) k v m x where "removed < target" "e = Inr (k, v)" "msg_from_slice C v = Inr m" "\<not> now < qm_deadline_ms m"
        "tr_remove T k (ss_messages s) = Inl x"
    | (gone) k v m ms where "removed < target" "e = Inr (k, v)" "msg_from_slice C v = Inr m" "\<not> now < qm_deadline_ms m"
        "tr_remove T k (ss_messages s) = Inr ms"
    by (metis not_less sum.exhaust prod.exhaust)
  then show ?case
  proof cases
    case full
    then have "purge_steps T C now target (Writing quotas removed) s res s'"
      using Cons.prems by (intro write_steps) (simp add: scan_rest_def)
    then show ?thesis by (rule steps_next [rotated]) (simp add: full)
  next
    case live
    then have "purge_steps T C now target (Scanning es removed quotas) s res s'"
      using Cons.prems by (intro Cons.IH) (simp add: scan_rest_def)
    then show ?thesis by (rule steps_next [rotated]) (use live in simp)
  next
    case gone
    have "purge_steps T C now target (Unindexing m es removed quotas) (s\<lparr>ss_messages := ms\<rparr>) res s'"
      using Cons.prems unfolding gone(2) by (rule unindex_steps [OF _ gone(1,3,4,5) Cons.IH])
    then show ?thesis by (rule steps_next [rotated]) (use gone in simp)
  qed (use Cons.prems in \<open>auto simp: scan_rest_def intro!: steps_next [OF _ steps_done]\<close>)
qed

lemma purge_steps_deterministic:
  "purge_steps T C now target pc s res s1 \<Longrightarrow> purge_steps T C now target pc s res' s2 \<Longrightarrow> res' = res \<and> s2 = s1"
proof (induction arbitrary: res' s2 rule: purge_steps.induct)
  case (steps_done res s)
  then show ?case by (induction "Purged res" s res' s2 rule: purge_steps.induct) simp_all
next
  case (steps_next pc s pc' s' res s1)
  from steps_next.prems steps_next.hyps(1) have "purge_steps T C now target pc' s' res' s2"
    by (cases rule: purge_steps.cases) (auto intro: purge_steps.steps_done)
  then show ?case by (rule steps_next.IH)
qed

end
