(* ===== verification/Purge_Race.thy ===== *)
theory Purge_Race
  imports Purge_Steps Sled_Contract "HOL-Library.Multiset"
begin

text \<open>
  A purge of the persistent backend with the requests that fall into it. What survives the races
  is the message tree: its messages stay readable under their keys, no number is used twice, and
  a message leaves it only by an acknowledgement of its recipient or after its deadline. The index
  and the quotas may be left wrong; of them only that they can be read.
\<close>

section \<open>Steps of the race\<close>

record purge_task =
  pt_now :: u64
  pt_target :: usize
  pt_pc :: purge_pc

datatype race_event =
    Race_push inbound_message
  | Race_ack string "ack_item list"
  | Race_begin u64 usize
  | Race_turn
  | Race_seen
  | Race_order

text \<open>
  Pushes and acknowledgements are transactions; a pull changes nothing. The collector runs one
  purge at a time. Its iterator is no snapshot: in any of its steps it may come to see entries
  that are in the tree now, and miss or repeat others. The pending quotas are a hash map, written
  in any order.
\<close>

inductive race_step ::
  "('t, 'x) tree_ops_scheme \<Rightarrow> 'c sled_codecs_scheme \<Rightarrow> relay_limits \<Rightarrow> purge_task \<Rightarrow> 't sled_store \<Rightarrow> race_event
     \<Rightarrow> purge_task \<Rightarrow> 't sled_store \<Rightarrow> bool" for T C limits where
  race_push: "race_step T C limits p s (Race_push msg) p (snd (sled_push T C s msg limits))"
| race_ack: "race_step T C limits p s (Race_ack r items) p (snd (sled_ack T C s r items))"
| race_begin: "pt_pc p = Purged res \<Longrightarrow>
     race_step T C limits p s (Race_begin now n)
       \<lparr>pt_now = now, pt_target = min n sled_gc_batch_limit, pt_pc = purge_begin T s\<rparr> s"
| race_turn: "purge_next T C (pt_now p) (pt_target p) (pt_pc p) s = (pc, s') \<Longrightarrow>
     race_step T C limits p s Race_turn (p\<lparr>pt_pc := pc\<rparr>) s'"
| race_seen: "pt_pc p = Scanning es removed quotas \<Longrightarrow> set es' \<subseteq> set es \<union> set (tr_iter T (ss_messages s)) \<Longrightarrow>
     race_step T C limits p s Race_seen (p\<lparr>pt_pc := Scanning es' removed quotas\<rparr>) s"
| race_order: "pt_pc p = Writing quotas removed \<Longrightarrow> mset quotas' = mset quotas \<Longrightarrow>
     race_step T C limits p s Race_order (p\<lparr>pt_pc := Writing quotas' removed\<rparr>) s"

inductive race_run ::
  "('t, 'x) tree_ops_scheme \<Rightarrow> 'c sled_codecs_scheme \<Rightarrow> relay_limits \<Rightarrow> purge_task \<Rightarrow> 't sled_store \<Rightarrow> race_event list
     \<Rightarrow> purge_task \<Rightarrow> 't sled_store \<Rightarrow> bool" for T C limits where
  race_nil: "race_run T C limits p s [] p s"
| race_cons: "race_step T C limits p s e q t \<Longrightarrow> race_run T C limits q t es p' s' \<Longrightarrow>
     race_run T C limits p s (e # es) p' s'"

definition idle_purge :: purge_task where
  "idle_purge = \<lparr>pt_now = 0, pt_target = 0, pt_pc = Purged (Inr 0)\<rparr>"

fun race_ok :: "race_event \<Rightarrow> bool" where
  "race_ok (Race_push msg) = addressable (im_recipient msg)"
| "race_ok (Race_ack r items) = addressable r"
| "race_ok _ = True"

text \<open>Events that leave the message of \<open>r\<close> with this key and deadline alone.\<close>

fun race_spares :: "string \<Rightarrow> dedup_key \<Rightarrow> u64 \<Rightarrow> race_event \<Rightarrow> bool" where
  "race_spares r key deadline (Race_ack q items) = (q = r \<longrightarrow> key \<notin> ack_key ` set items)"
| "race_spares r key deadline (Race_begin now n) = (now < deadline)"
| "race_spares r key deadline _ = True"

text \<open>A purge that is over, or runs for a time before the deadline.\<close>

definition purge_spares :: "u64 \<Rightarrow> purge_task \<Rightarrow> bool" where
  "purge_spares deadline p \<longleftrightarrow> (\<exists>res. pt_pc p = Purged res) \<or> pt_now p < deadline"

section \<open>What the races keep\<close>

definition index_reads :: "'c sled_codecs_scheme \<Rightarrow> (bytes, bytes) btree \<Rightarrow> bool" where
  "index_reads C iv \<longleftrightarrow> (\<forall>r i c x. addressable r \<longrightarrow> bt_get iv (index_key C r i c) = Some x \<longrightarrow> (\<exists>n. x = encode_u64 n))"

definition quotas_read :: "'c sled_codecs_scheme \<Rightarrow> (bytes, bytes) btree \<Rightarrow> bool" where
  "quotas_read C qv \<longleftrightarrow> (\<forall>r. addressable r \<longrightarrow> quota_read C qv r \<noteq> None)"

definition race_rep ::
  "('t \<Rightarrow> (bytes, bytes) btree) \<Rightarrow> ('t \<Rightarrow> bool) \<Rightarrow> 'c sled_codecs_scheme \<Rightarrow> 't sled_store \<Rightarrow> queue_message list \<Rightarrow> bool" where
  "race_rep view ok C s ms \<longleftrightarrow>
     trees_ok ok s \<and> msgs_stored C (view (ss_messages s)) ms \<and> seqs_ok (view (ss_seq s)) ms
     \<and> index_reads C (view (ss_index s)) \<and> quotas_read C (view (ss_quota s))"

text \<open>
  An entry the purge may still handle: a message that was stored once, under a number that was
  given out; whatever is stored under its recipient and number now is that message.
\<close>

definition seen_msg :: "(bytes, bytes) btree \<Rightarrow> queue_message list \<Rightarrow> queue_message \<Rightarrow> bool" where
  "seen_msg sv ms m \<longleftrightarrow>
     addressable (qm_recipient m) \<and> (\<exists>n. seq_read sv (qm_recipient m) = Some n \<and> qm_arrival_seq m < n)
     \<and> (\<forall>x\<in>set ms. qm_recipient x = qm_recipient m \<longrightarrow> qm_arrival_seq x = qm_arrival_seq m \<longrightarrow> x = m)"

fun pc_entries :: "purge_pc \<Rightarrow> (string + bytes \<times> bytes) list" where
  "pc_entries (Scanning es removed quotas) = es"
| "pc_entries (Unindexing m es removed quotas) = es"
| "pc_entries (Charging m es removed quotas) = es"
| "pc_entries _ = []"

definition pc_ok :: "'c sled_codecs_scheme \<Rightarrow> (bytes, bytes) btree \<Rightarrow> queue_message list \<Rightarrow> purge_pc \<Rightarrow> bool" where
  "pc_ok C sv ms pc \<longleftrightarrow> (\<forall>e\<in>set (pc_entries pc). \<exists>m. e = Inr (mkey C m, mval C m) \<and> seen_msg sv ms m)"

definition counters_le :: "(bytes, bytes) btree \<Rightarrow> nat \<Rightarrow> bool" where
  "counters_le sv k \<longleftrightarrow> (\<forall>r n. addressable r \<longrightarrow> seq_read sv r = Some n \<longrightarrow> unat n \<le> k)"

definition race_inv ::
  "('t \<Rightarrow> (bytes, bytes) btree) \<Rightarrow> ('t \<Rightarrow> bool) \<Rightarrow> 'c sled_codecs_scheme \<Rightarrow> nat \<Rightarrow> purge_task \<Rightarrow> 't sled_store
     \<Rightarrow> queue_message list \<Rightarrow> bool" where
  "race_inv view ok C k p s ms \<longleftrightarrow>
     race_rep view ok C s ms \<and> pc_ok C (view (ss_seq s)) ms (pt_pc p) \<and> counters_le (view (ss_seq s)) k"

text \<open>Fewer messages and the same numbers: the entries of the purge stay good.\<close>

lemma seen_msg_less: "seen_msg sv ms m \<Longrightarrow> set ms' \<subseteq> set ms \<Longrightarrow> seen_msg sv ms' m"
  unfolding seen_msg_def by blast

lemma pc_ok_less: "pc_ok C sv ms pc \<Longrightarrow> set ms' \<subseteq> set ms \<Longrightarrow> pc_ok C sv ms' pc"
  unfolding pc_ok_def by (meson seen_msg_less)

lemma pc_ok_entries: "pc_ok C sv ms pc \<Longrightarrow> set (pc_entries pc') \<subseteq> set (pc_entries pc) \<Longrightarrow> pc_ok C sv ms pc'"
  unfolding pc_ok_def by blast

lemma seqs_ok_less: "seqs_ok sv ms \<Longrightarrow> set ms' \<subseteq> set ms \<Longrightarrow> seqs_ok sv ms'"
  unfolding seqs_ok_def of_rcpt_simps(4) by blast

context sled_backend
begin

lemma index_reads_remove: "bt_ok iv \<Longrightarrow> index_reads C iv \<Longrightarrow> index_reads C (bt_remove k iv)"
  by (auto simp: index_reads_def bt.get_remove split: if_splits)

lemma index_reads_insert: "bt_ok iv \<Longrightarrow> index_reads C iv \<Longrightarrow> index_reads C (bt_insert k (encode_u64 n) iv)"
  by (auto simp: index_reads_def bt.get_insert split: if_splits)

lemma quotas_read_insert: "bt_ok qv \<Longrightarrow> quotas_read C qv \<Longrightarrow> quotas_read C (bt_insert (quota_key r) (qval C q) qv)"
  by (simp add: quotas_read_def quota_read_insert)

lemma race_rep_ok:
  assumes "race_rep view ok C s ms"
  shows "ok (ss_messages s)" "ok (ss_index s)" "ok (ss_quota s)" "ok (ss_seq s)"
    and "msgs_stored C (view (ss_messages s)) ms"
  using assms by (simp_all add: race_rep_def trees_ok_def)

lemma race_rep_seq:
  assumes "race_rep view ok C s ms" and "addressable r"
  obtains n where "seq_read (view (ss_seq s)) r = Some n" and "\<forall>m\<in>set ms. qm_recipient m = r \<longrightarrow> qm_arrival_seq m < n"
  using assms by (auto simp: race_rep_def seqs_ok_def)

lemma race_rep_synced:
  assumes "race_rep view ok C s ms"
  shows "race_rep view ok C (synced3 T s) ms" "race_rep view ok C (synced T s) ms"
  using assms synced_sel [of s] by (simp_all add: race_rep_def)

lemma race_inv_synced:
  assumes "race_inv view ok C k p s ms"
  shows "race_inv view ok C k p (synced T s) ms"
proof -
  have "trees_ok ok s" using assms by (simp add: race_inv_def race_rep_def)
  then show ?thesis using assms by (simp add: race_inv_def race_rep_synced synced_sel)
qed

lemma race_rep_unindex:
  "race_rep view ok C s ms \<Longrightarrow> race_rep view ok C (s\<lparr>ss_index := tree_del T k (ss_index s)\<rparr>) ms"
  by (simp add: race_rep_def trees_ok_def tree_ok_simps index_reads_remove view_ok)

lemma race_rep_remove:
  assumes rep: "race_rep view ok C s ms" and m: "m \<in> set ms"
  shows "race_rep view ok C (s\<lparr>ss_messages := tree_del T (mkey C m) (ss_messages s)\<rparr>) (filter (\<lambda>x. x \<noteq> m) ms)"
proof -
  note ok = race_rep_ok [OF rep]
  have "msgs_stored C (view (tree_del T (mkey C m) (ss_messages s))) (filter (\<lambda>x. x \<noteq> m) ms)"
    using stored_remove [OF ok(5) view_ok [OF ok(1)] m] by (simp add: tree_ok_simps ok(1))
  moreover have "seqs_ok (view (ss_seq s)) (filter (\<lambda>x. x \<noteq> m) ms)"
    by (rule seqs_ok_less [of _ ms]) (use rep in \<open>auto simp: race_rep_def\<close>)
  ultimately show ?thesis using rep by (simp add: race_rep_def trees_ok_def tree_ok_simps)
qed

text \<open>A push in the race.\<close>

lemma seen_msg_pushed:
  assumes "bt_ok sv" and "seq_read sv (qm_recipient m) = Some (qm_arrival_seq m)" and "qm_arrival_seq m \<noteq> - 1"
    and "set ms' = insert m (set ms)" and "seen_msg sv ms x"
  shows "seen_msg (bt_insert (seq_key (qm_recipient m)) (encode_u64 (sat_add (qm_arrival_seq m) 1)) sv) ms' x"
  using assms(2,4,5) unfolding seen_msg_def seq_read_insert [OF assms(1)]
  by (auto simp: less_sat_add_one [OF assms(3)] less_imp_le)

lemma race_pushed:
  assumes inv: "race_inv view ok C k p s ms" and r: "addressable (im_recipient msg)" and k: "k < 2 ^ 64 - 1"
    and n: "seq_read (view (ss_seq s)) (im_recipient msg) = Some n"
  shows "race_inv view ok C (Suc k) p (pushed T C msg n q s) (put_msg C (stored_message msg n) ms)
    \<and> set (put_msg C (stored_message msg n) ms) = insert (stored_message msg n) (set ms)"
proof -
  let ?m = "stored_message msg n"
  have rep: "race_rep view ok C s ms" and pc: "pc_ok C (view (ss_seq s)) ms (pt_pc p)" and le: "counters_le (view (ss_seq s)) k"
    using inv by (simp_all add: race_inv_def)
  note ok = race_rep_ok [OF rep]
  have nk: "unat n \<le> k" using le r n by (simp add: counters_le_def)
  then have room: "n \<noteq> - 1" using k by (auto simp: unat_max_word)
  have below: "\<forall>x\<in>set ms. qm_recipient x = qm_recipient ?m \<longrightarrow> qm_arrival_seq x < qm_arrival_seq ?m"
    using race_rep_seq [OF rep r] n by auto
  have set: "set (put_msg C ?m ms) = insert ?m (set ms)"
    using r by (intro set_put_msg [OF ok(5) _ below]) simp
  have trees: "view (ss_messages (pushed T C msg n q s)) = bt_insert (mkey C ?m) (mval C ?m) (view (ss_messages s))"
      "view (ss_index (pushed T C msg n q s))
        = bt_insert (index_key C (im_recipient msg) (im_message_id msg) (mm_chunk_index (im_meta msg))) (encode_u64 n) (view (ss_index s))"
      "view (ss_quota (pushed T C msg n q s)) = bt_insert (quota_key (im_recipient msg)) (qval C q) (view (ss_quota s))"
      "view (ss_seq (pushed T C msg n q s)) = bt_insert (seq_key (qm_recipient ?m)) (encode_u64 (sat_add (qm_arrival_seq ?m) 1)) (view (ss_seq s))"
    by (simp_all add: pushed_def Let_def tree_ok_simps ok)
  have "trees_ok ok (pushed T C msg n q s)" using rep by (intro pushed_ok) (simp add: race_rep_def)
  moreover have "msgs_stored C (view (ss_messages (pushed T C msg n q s))) (put_msg C ?m ms)"
    using r unfolding trees by (intro stored_put [OF ok(5) view_ok [OF ok(1)] _ below]) simp
  moreover have "seqs_ok (view (ss_seq (pushed T C msg n q s))) (put_msg C ?m ms)"
    unfolding trees by (rule seqs_ok_put [OF _ view_ok [OF ok(4)] _ _ set]) (use rep n room in \<open>simp_all add: race_rep_def\<close>)
  moreover have "index_reads C (view (ss_index (pushed T C msg n q s)))" "quotas_read C (view (ss_quota (pushed T C msg n q s)))"
    using rep unfolding trees by (simp_all add: race_rep_def index_reads_insert quotas_read_insert view_ok ok)
  moreover have "pc_ok C (view (ss_seq (pushed T C msg n q s))) (put_msg C ?m ms) (pt_pc p)"
    using pc seen_msg_pushed [OF view_ok [OF ok(4)] _ _ set] n room unfolding trees pc_ok_def by fastforce
  moreover have "counters_le (view (ss_seq (pushed T C msg n q s))) (Suc k)"
    using le nk sat_add_one [OF room] unfolding trees counters_le_def seq_read_insert [OF view_ok [OF ok(4)]]
    by (auto simp: le_SucI)
  ultimately show ?thesis using set by (simp add: race_inv_def race_rep_def)
qed

lemma race_inv_Suc: "race_inv view ok C k p s ms \<Longrightarrow> race_inv view ok C (Suc k) p s ms"
  by (auto simp: race_inv_def counters_le_def le_SucI)

lemma race_push_cases:
  assumes rep: "race_rep view ok C s ms" and r: "addressable (im_recipient msg)" and push: "sled_push T C s msg limits = (res, s')"
  shows "(s' = s \<or> s' = synced T s) \<and> (\<forall>e. res = Inl e \<longrightarrow> e = QuotaExceeded) \<and> (\<forall>ps. res = Inr ps \<longrightarrow> \<not> ps_stored ps \<and> ps_duplicate ps
        \<and> bt_get (view (ss_index s)) (index_key C (im_recipient msg) (im_message_id msg) (mm_chunk_index (im_meta msg))) \<noteq> None)
    \<or> (\<exists>n q. seq_read (view (ss_seq s)) (im_recipient msg) = Some n \<and> s' = synced T (pushed T C msg n q s)
        \<and> (\<exists>ps. res = Inr ps \<and> ps_stored ps \<and> \<not> ps_duplicate ps))"
proof -
  have ok: "trees_ok ok s" using rep by (simp add: race_rep_def)
  obtain n where n: "seq_read (view (ss_seq s)) (im_recipient msg) = Some n" by (rule race_rep_seq [OF rep r])
  obtain q where q: "quota_read C (view (ss_quota s)) (im_recipient msg) = Some q"
    using rep r by (auto simp: race_rep_def quotas_read_def)
  have tx: "x = s \<and> \<not> ps_stored ps \<and> ps_duplicate ps
      \<and> bt_get (view (ss_index s)) (index_key C (im_recipient msg) (im_message_id msg) (mm_chunk_index (im_meta msg))) \<noteq> None
    \<or> (\<exists>q'. x = pushed T C msg n q' s) \<and> ps_stored ps \<and> \<not> ps_duplicate ps"
    if "push_tx T C msg limits s = Inr (ps, x)" for ps x
    using that unfolding push_tx_cases [OF ok q n refl] by (auto simp: Let_def split: if_splits)
  have "trees_ok ok x" if "push_tx T C msg limits s = Inr (ps, x)" for ps x
    using tx [OF that] ok pushed_ok [OF ok] by auto
  then have run: "sled_push T C s msg limits
      = (case push_tx T C msg limits s of Inl e \<Rightarrow> (Inl (tx_result e), s) | Inr (x, s') \<Rightarrow> (Inr x, synced T s'))"
    by (rule sled_push_run [OF ok refl])
  show ?thesis
  proof (cases "push_tx T C msg limits s")
    case (Inl e)
    then have "e = Abort QuotaExceeded"
      unfolding push_tx_cases [OF ok q n refl] by (auto simp: Let_def split: if_splits)
    then show ?thesis using push run Inl by auto
  next
    case (Inr y)
    obtain ps x where y: "y = (ps, x)" by fastforce
    have rx: "res = Inr ps" "s' = synced T x" using trans [OF push [symmetric] run] unfolding Inr y by simp_all
    show ?thesis using tx [OF Inr [unfolded y]] n unfolding rx by blast
  qed
qed

lemma race_push_inv:
  assumes inv: "race_inv view ok C k p s ms" and r: "addressable (im_recipient msg)" and k: "k < 2 ^ 64 - 1"
    and push: "sled_push T C s msg limits = (res, s')"
  shows "\<exists>ms'. race_inv view ok C (Suc k) p s' ms' \<and> set ms \<subseteq> set ms'
    \<and> (\<forall>ps. res = Inr ps \<longrightarrow> ps_stored ps \<longrightarrow> (\<exists>n. stored_message msg n \<in> set ms'))"
proof -
  have rep: "race_rep view ok C s ms" using inv by (simp add: race_inv_def)
  consider (same) "s' = s \<or> s' = synced T s" "\<forall>ps. res = Inr ps \<longrightarrow> \<not> ps_stored ps"
    | (stored) n q where "seq_read (view (ss_seq s)) (im_recipient msg) = Some n" "s' = synced T (pushed T C msg n q s)"
    using race_push_cases [OF rep r push] by blast
  then show ?thesis
  proof cases
    case same
    then have "race_inv view ok C (Suc k) p s' ms" using race_inv_Suc [OF inv] race_inv_synced by auto
    then show ?thesis using same(2) by (intro exI [of _ ms]) simp
  next
    case stored
    show ?thesis unfolding stored(2)
      using race_pushed [OF inv r k stored(1), of q] race_inv_synced by (intro exI [of _ "put_msg C (stored_message msg n) ms"]) auto
  qed
qed

text \<open>An acknowledgement in the race: it takes only messages it names.\<close>

definition acked_from :: "string \<Rightarrow> dedup_key set \<Rightarrow> queue_message list \<Rightarrow> queue_message list \<Rightarrow> bool" where
  "acked_from r ks ms ms' \<longleftrightarrow>
     set ms' \<subseteq> set ms \<and> (\<forall>m\<in>set ms. m \<notin> set ms' \<longrightarrow> qm_recipient m = r \<and> msg_key m \<in> ks)"

lemma acked_from_trans: "acked_from r ks ms ms1 \<Longrightarrow> acked_from r ks' ms1 ms2 \<Longrightarrow> acked_from r (ks \<union> ks') ms ms2"
  unfolding acked_from_def by blast

lemma race_ack_one:
  assumes rep: "race_rep view ok C s ms" and r: "addressable r"
  shows "\<exists>s' q' out' ms'. sled_ack_one T C r a (s, q, out) = Inr (s', q', out') \<and> race_rep view ok C s' ms'
    \<and> ss_quota s' = ss_quota s \<and> ss_seq s' = ss_seq s \<and> acked_from r {ack_key a} ms ms'"
proof -
  let ?i = "ai_message_id a" and ?c = "ai_chunk_index a"
  let ?ik = "index_key C r ?i ?c"
  note ok = race_rep_ok [OF rep]
  have same: "acked_from r {ack_key a} ms ms" by (simp add: acked_from_def)
  note get = stored_get [OF ok(5) view_ok [OF ok(1)] r]
  consider (none) "bt_get (view (ss_index s)) ?ik = None"
    | (stale) n where "bt_get (view (ss_index s)) ?ik = Some (encode_u64 n)"
        "bt_get (view (ss_messages s)) (message_key C r n ?i ?c) = None"
    | (hit) n v where "bt_get (view (ss_index s)) ?ik = Some (encode_u64 n)"
        "bt_get (view (ss_messages s)) (message_key C r n ?i ?c) = Some v"
    using rep r unfolding race_rep_def index_reads_def by (metis option.exhaust)
  then show ?thesis
  proof cases
    case none
    then show ?thesis using rep same by (simp add: sled_ack_one_def Let_def tx_simps ok) blast
  next
    case stale
    then show ?thesis
      using race_rep_unindex [OF rep, of ?ik] same
      by (simp add: sled_ack_one_def Let_def tx_simps ok) (intro exI conjI, assumption, simp_all)
  next
    case hit
    then obtain m where m: "m \<in> set ms" "qm_recipient m = r" "qm_arrival_seq m = n" "msg_key m = (?i, ?c)" "v = mval C m"
      using get by blast
    have key: "message_key C r n ?i ?c = mkey C m" using mkey_eq [of m r n ?i ?c] m r by simp
    have "acked_from r {ack_key a} ms (filter (\<lambda>x. x \<noteq> m) ms)"
      using m by (auto simp: acked_from_def ack_key_def)
    then show ?thesis
      using race_rep_unindex [OF race_rep_remove [OF rep m(1)], of ?ik] hit m(5)
      by (simp add: sled_ack_one_def Let_def tx_simps ok key abort_json_def msg_val) (intro exI conjI, assumption, simp_all)
  qed
qed

lemma race_ack_loop:
  assumes "race_rep view ok C s ms" and "addressable r"
  shows "\<exists>s' q' out' ms'. sled_ack_loop T C r xs (s, q, out) = Inr (s', q', out') \<and> race_rep view ok C s' ms'
    \<and> ss_quota s' = ss_quota s \<and> ss_seq s' = ss_seq s \<and> acked_from r (ack_key ` set xs) ms ms'"
  using assms(1)
proof (induction xs arbitrary: s q out ms)
  case Nil
  then show ?case by (auto simp: acked_from_def)
next
  case (Cons a xs)
  obtain s1 q1 out1 ms1 where one: "sled_ack_one T C r a (s, q, out) = Inr (s1, q1, out1)" "race_rep view ok C s1 ms1"
      "ss_quota s1 = ss_quota s" "ss_seq s1 = ss_seq s" "acked_from r {ack_key a} ms ms1"
    using race_ack_one [OF Cons.prems assms(2)] by blast
  obtain s' q' out' ms' where "sled_ack_loop T C r xs (s1, q1, out1) = Inr (s', q', out')" "race_rep view ok C s' ms'"
      "ss_quota s' = ss_quota s1" "ss_seq s' = ss_seq s1" "acked_from r (ack_key ` set xs) ms1 ms'"
    using Cons.IH [OF one(2)] by blast
  then show ?case using one acked_from_trans [OF one(5)] by (intro exI [of _ s'] exI [of _ q'] exI [of _ out'] exI [of _ ms']) simp
qed

lemma race_ack_inv:
  assumes inv: "race_inv view ok C k p s ms" and r: "addressable r" and ack: "sled_ack T C s r items = (res, s')"
  shows "\<exists>ms' out. race_inv view ok C k p s' ms' \<and> acked_from r (ack_key ` set items) ms ms' \<and> res = Inr out"
proof -
  have rep: "race_rep view ok C s ms" using inv by (simp add: race_inv_def)
  note ok = race_rep_ok [OF rep]
  obtain q where q: "quota_read C (view (ss_quota s)) r = Some q" using rep r by (auto simp: race_rep_def quotas_read_def)
  obtain s1 q1 out ms' where loop: "sled_ack_loop T C r (remdups items) (s, q, ack_outcome_default) = Inr (s1, q1, out)"
    and rep1: "race_rep view ok C s1 ms'" "ss_quota s1 = ss_quota s" "ss_seq s1 = ss_seq s"
    and acked: "acked_from r (ack_key ` set items) ms ms'"
    using race_ack_loop [OF rep r, of "remdups items" q ack_outcome_default] unfolding set_remdups by blast
  let ?s = "s1\<lparr>ss_quota := tree_ins T (quota_key r) (qval C q1) (ss_quota s)\<rparr>"
  have tx: "ack_tx T C r (remdups items) s = Inr (out\<lparr>ao_remaining := qv_count q1\<rparr>, ?s)"
    using loop by (simp add: ack_tx_def read_quota_simps(2) [OF ok(3) q] abort_json_def quota_val rep1(2) tx_simps ok)
  have rep2: "race_rep view ok C ?s ms'"
    using rep1 rep by (simp add: race_rep_def trees_ok_def tree_ok_simps quotas_read_insert view_ok)
  have ok2: "trees_ok ok ?s" using rep2 by (simp add: race_rep_def)
  have "transaction T (\<lambda>s. [ss_messages s, ss_index s, ss_quota s]) (ack_tx T C r (remdups items)) s
      = (Inr (out\<lparr>ao_remaining := qv_count q1\<rparr>), ?s)"
    by (intro transaction_ok tx) (use ok2 in \<open>simp add: trees_ok_def\<close>)
  then have "sled_ack T C s r items = (Inr (out\<lparr>ao_remaining := qv_count q1\<rparr>), synced3 T ?s)"
    using synced3_run [OF ok2, of "\<lambda>_ s. (Inr (out\<lparr>ao_remaining := qv_count q1\<rparr>), s)"] by (simp add: sled_ack_def)
  then have "res = Inr (out\<lparr>ao_remaining := qv_count q1\<rparr>)" and s': "s' = synced3 T ?s" using ack by simp_all
  moreover have "race_rep view ok C s' ms'" "ss_seq s' = ss_seq s"
    using race_rep_synced(1) [OF rep2] synced_sel(9) [OF ok2] rep1(3) unfolding s' by simp_all
  ultimately show ?thesis
    using inv acked pc_ok_less [of C "view (ss_seq s)" ms "pt_pc p" ms']
    by (intro exI [of _ ms'] exI) (simp add: race_inv_def acked_from_def)
qed

text \<open>An acknowledgement of a message whose index entry is gone misses it.\<close>

lemma race_ack_missed:
  assumes rep: "race_rep view ok C s ms" and r: "addressable r"
    and none: "bt_get (view (ss_index s)) (index_key C r (ai_message_id a) (ai_chunk_index a)) = None"
  shows "\<exists>rem s'. sled_ack T C s r [a] = (Inr \<lparr>ao_deleted = 0, ao_missing = 1, ao_remaining = rem\<rparr>, s')
    \<and> view (ss_messages s') = view (ss_messages s)"
proof -
  note ok = race_rep_ok [OF rep]
  obtain q where q: "quota_read C (view (ss_quota s)) r = Some q" using rep r by (auto simp: race_rep_def quotas_read_def)
  let ?s = "s\<lparr>ss_quota := tree_ins T (quota_key r) (qval C q) (ss_quota s)\<rparr>"
    and ?out = "\<lparr>ao_deleted = 0, ao_missing = 1, ao_remaining = qv_count q\<rparr>"
  have "sat_add 0 (1 :: u64) = 1" by (simp add: sat_add_def)
  then have tx: "ack_tx T C r (remdups [a]) s = Inr (?out, ?s)"
    using none by (simp add: ack_tx_def read_quota_simps(2) [OF ok(3) q] sled_ack_one_def Let_def tx_simps ok
        ack_outcome_default_def abort_json_def quota_val)
  have ok2: "trees_ok ok ?s" by (simp add: trees_ok_def tree_ok_simps ok)
  have "transaction T (\<lambda>s. [ss_messages s, ss_index s, ss_quota s]) (ack_tx T C r (remdups [a])) s = (Inr ?out, ?s)"
    by (intro transaction_ok tx) (use ok2 in \<open>simp add: trees_ok_def\<close>)
  then have "sled_ack T C s r [a] = (Inr ?out, synced3 T ?s)"
    using synced3_run [OF ok2, of "\<lambda>_ s. (Inr ?out, s)"] by (simp add: sled_ack_def)
  then show ?thesis using synced_sel(3) [OF ok2] by simp
qed

text \<open>
  A message that was stored while the purge was about to remove the index entry of an expired one
  with the same id loses its own index entry.
\<close>

lemma race_unindexed:
  assumes inv: "race_inv view ok C k p s ms" and r: "addressable (im_recipient msg)" and k: "k < 2 ^ 64 - 1"
    and pc: "qm_recipient m = im_recipient msg" "msg_key m = inbound_key msg"
    and push: "sled_push T C s msg limits = (Inr ps, s1)" "ps_stored ps"
    and turn: "purge_next T C now target (Unindexing m es removed quotas) s1 = (pc', s2)"
  shows "\<exists>ms2 n. race_rep view ok C s2 ms2 \<and> stored_message msg n \<in> set ms2
    \<and> bt_get (view (ss_index s2)) (index_key C (im_recipient msg) (im_message_id msg) (mm_chunk_index (im_meta msg))) = None"
proof -
  obtain ms1 n where 1: "race_inv view ok C (Suc k) p s1 ms1" and m: "stored_message msg n \<in> set ms1"
    using race_push_inv [OF inv r k push(1)] push(2) by blast
  have rep: "race_rep view ok C s1 ms1" using 1 by (simp add: race_inv_def)
  note ok = race_rep_ok [OF rep]
  let ?ik = "index_key C (im_recipient msg) (im_message_id msg) (mm_chunk_index (im_meta msg))"
  have "qm_message_id m = im_message_id msg" "mm_chunk_index (qm_meta m) = mm_chunk_index (im_meta msg)"
    using pc(2) by (simp_all add: msg_key_def inbound_key_def)
  then have "s2 = s1\<lparr>ss_index := tree_del T ?ik (ss_index s1)\<rparr>"
    using turn by (simp add: pc(1) tree_del_ok ok)
  then show ?thesis
    using race_rep_unindex [OF rep, of ?ik] m by (auto simp: tree_ok_simps ok bt.get_remove view_ok)
qed

lemma race_ack_result:
  assumes rep: "race_rep view ok C s ms" and r: "addressable r" and ack: "sled_ack T C s r items = (res, s')"
  shows "\<exists>out. res = Inr out"
proof -
  have "race_inv view ok C (2 ^ 64) idle_purge s ms"
    using rep unat_lt_pow [where 'a = 64] by (auto simp: race_inv_def pc_ok_def idle_purge_def counters_le_def less_imp_le)
  from race_ack_inv [OF this r ack] show ?thesis by blast
qed

text \<open>One call of the purge in the race: it takes only a message past its deadline.\<close>

definition turn_ok :: "u64 \<Rightarrow> queue_message list \<Rightarrow> queue_message list \<Rightarrow> bool" where
  "turn_ok now ms ms' \<longleftrightarrow> set ms' \<subseteq> set ms \<and> (\<forall>m\<in>set ms. m \<notin> set ms' \<longrightarrow> \<not> live now m)"

lemma race_scan_turn:
  assumes rep: "race_rep view ok C s ms" and pc: "pc_ok C (view (ss_seq s)) ms (Scanning (e # es) removed quotas)"
    and turn: "purge_next T C now target (Scanning (e # es) removed quotas) s = (pc', s')"
  shows "\<exists>ms'. race_rep view ok C s' ms' \<and> ss_seq s' = ss_seq s \<and> turn_ok now ms ms' \<and> set (pc_entries pc') \<subseteq> set es"
proof -
  obtain m where e: "e = Inr (mkey C m, mval C m)" and seen: "seen_msg (view (ss_seq s)) ms m"
    using pc by (auto simp: pc_ok_def)
  note ok = race_rep_ok [OF rep]
  have r: "addressable (qm_recipient m)" using seen by (simp add: seen_msg_def)
  have same: "turn_ok now ms ms" by (simp add: turn_ok_def)
  consider (skip) "s' = s" "set (pc_entries pc') \<subseteq> set es"
    | (gone) "\<not> live now m" "s' = s\<lparr>ss_messages := tree_del T (mkey C m) (ss_messages s)\<rparr>" "set (pc_entries pc') \<subseteq> set es"
    using turn by (auto simp: e msg_val tree_del_ok ok live_def split: if_splits)
  then show ?thesis
  proof cases
    case skip
    then show ?thesis using rep same by blast
  next
    case gone
    show ?thesis
    proof (cases "m \<in> set ms")
      case True
      have "turn_ok now ms (filter (\<lambda>x. x \<noteq> m) ms)" using gone(1) by (auto simp: turn_ok_def)
      then show ?thesis using race_rep_remove [OF rep True] gone by auto
    next
      case False
      have "mkey C x \<noteq> mkey C m" if "x \<in> set ms" for x
        using mkey_inj [OF ok(5) that r] seen that False unfolding seen_msg_def by blast
      then have "bt_remove (mkey C m) (view (ss_messages s)) = view (ss_messages s)"
        using ok(5) by (auto simp: msgs_stored_def bt_remove_def filter_map comp_def intro!: arg_cong [where f = "map _"] filter_True)
      then have "race_rep view ok C s' ms"
        using rep unfolding gone(2) by (simp add: race_rep_def trees_ok_def tree_ok_simps)
      then show ?thesis using same gone by auto
    qed
  qed
qed

lemma race_write_turn:
  assumes rep: "race_rep view ok C s ms" and turn: "purge_next T C now target (Writing quotas removed) s = (pc', s')"
  shows "race_rep view ok C s' ms \<and> ss_seq s' = ss_seq s \<and> pc_entries pc' = []"
proof (cases quotas)
  case Nil
  have ok: "trees_ok ok s" using rep by (simp add: race_rep_def)
  then have "s' = synced3 T s" "pc_entries pc' = []"
    using turn synced3_run [OF ok, of "\<lambda>_ s. (Inr removed, s)"] by (auto simp: Nil)
  then show ?thesis using race_rep_synced(1) [OF rep] synced_sel(9) [OF ok] by simp
next
  case (Cons x rest)
  note ok = race_rep_ok [OF rep]
  obtain r q where x: "x = (r, q)" by fastforce
  have "s' = s\<lparr>ss_quota := tree_ins T (quota_key r) (qval C q) (ss_quota s)\<rparr>" "pc' = Writing rest removed"
    using turn by (simp_all add: Cons x quota_val tree_ins_ok ok)
  then show ?thesis
    using rep by (simp add: race_rep_def trees_ok_def tree_ok_simps quotas_read_insert view_ok)
qed

lemma race_turn_inv:
  assumes inv: "race_inv view ok C k p s ms"
    and turn: "purge_next T C (pt_now p) (pt_target p) (pt_pc p) s = (pc', s')"
  shows "\<exists>ms'. race_inv view ok C k (p\<lparr>pt_pc := pc'\<rparr>) s' ms' \<and> turn_ok (pt_now p) ms ms'"
proof -
  have rep: "race_rep view ok C s ms" and pc: "pc_ok C (view (ss_seq s)) ms (pt_pc p)"
    using inv by (simp_all add: race_inv_def)
  note ok = race_rep_ok [OF rep]
  have same: "turn_ok (pt_now p) ms ms" by (simp add: turn_ok_def)
  have "\<exists>ms'. race_rep view ok C s' ms' \<and> ss_seq s' = ss_seq s \<and> turn_ok (pt_now p) ms ms'
      \<and> set (pc_entries pc') \<subseteq> set (pc_entries (pt_pc p))"
  proof (cases "pt_pc p")
    case (Scanning es removed quotas)
    show ?thesis
    proof (cases es)
      case Nil
      then show ?thesis using Scanning turn rep same by auto
    next
      case (Cons e rest)
      then show ?thesis
        using race_scan_turn [OF rep pc [unfolded Scanning Cons] turn [unfolded Scanning Cons]] Scanning by auto
    qed
  next
    case (Unindexing m es removed quotas)
    then show ?thesis
      using turn race_rep_unindex [OF rep] same by (intro exI [of _ ms]) (auto simp: tree_del_ok ok)
  next
    case (Charging m es removed quotas)
    then show ?thesis using turn rep same by (auto split: sum.splits)
  next
    case (Writing quotas removed)
    then show ?thesis
      using race_write_turn [OF rep turn [unfolded Writing]] same by (intro exI [of _ ms]) simp
  next
    case (Purged res)
    then show ?thesis using turn rep same by auto
  qed
  then obtain ms' where step: "race_rep view ok C s' ms'" "ss_seq s' = ss_seq s" "turn_ok (pt_now p) ms ms'"
      "set (pc_entries pc') \<subseteq> set (pc_entries (pt_pc p))" by blast
  have "pc_ok C (view (ss_seq s)) ms' pc'"
    using pc_ok_entries [OF pc_ok_less [OF pc] step(4)] step(3) by (simp add: turn_ok_def)
  then show ?thesis using step inv by (auto simp: race_inv_def)
qed

section \<open>Whole races\<close>

lemma race_start:
  assumes "sled_opened T view ok C init"
  shows "race_inv view ok C 0 idle_purge init []"
  using sled_opened.init_ok [OF assms] sled_opened.init_empty [OF assms]
  by (simp add: race_inv_def race_rep_def msgs_stored_def seqs_ok_def index_reads_def quotas_read_def quota_read_def
      seq_read_def counters_le_def pc_ok_def idle_purge_def bt_get_def)

lemma race_begin_inv:
  assumes inv: "race_inv view ok C k p s ms"
  shows "race_inv view ok C k \<lparr>pt_now = now, pt_target = n, pt_pc = purge_begin T s\<rparr> s ms"
    and "pt_pc p = Scanning es removed quotas \<Longrightarrow> set es' \<subseteq> set es \<union> set (tr_iter T (ss_messages s)) \<Longrightarrow>
      race_inv view ok C k (p\<lparr>pt_pc := Scanning es' removed quotas\<rparr>) s ms"
proof -
  have rep: "race_rep view ok C s ms" and pc: "pc_ok C (view (ss_seq s)) ms (pt_pc p)"
    using inv by (simp_all add: race_inv_def)
  note ok = race_rep_ok [OF rep]
  have seen: "seen_msg (view (ss_seq s)) ms m" if "m \<in> set ms" for m
  proof -
    have a: "addressable (qm_recipient m)" using ok(5) that by (simp add: msgs_stored_def)
    obtain n where "seq_read (view (ss_seq s)) (qm_recipient m) = Some n"
        "\<forall>x\<in>set ms. qm_recipient x = qm_recipient m \<longrightarrow> qm_arrival_seq x < n"
      by (rule race_rep_seq [OF rep a])
    then show ?thesis using a ok(5) that unfolding seen_msg_def msgs_stored_def by metis
  qed
  have "tr_iter T (ss_messages s) = map (\<lambda>m. Inr (mkey C m, mval C m)) ms"
    using ok(5) by (simp add: iter_view ok msgs_stored_def comp_def)
  then have iter: "\<forall>e\<in>set (tr_iter T (ss_messages s)). \<exists>m. e = Inr (mkey C m, mval C m) \<and> seen_msg (view (ss_seq s)) ms m"
    using seen by auto
  then show "race_inv view ok C k \<lparr>pt_now = now, pt_target = n, pt_pc = purge_begin T s\<rparr> s ms"
    using inv by (simp add: race_inv_def purge_begin_def pc_ok_def)
  show "race_inv view ok C k (p\<lparr>pt_pc := Scanning es' removed quotas\<rparr>) s ms"
    if "pt_pc p = Scanning es removed quotas" "set es' \<subseteq> set es \<union> set (tr_iter T (ss_messages s))"
    using inv pc iter that unfolding race_inv_def pc_ok_def by auto
qed

lemma race_step_inv:
  assumes "race_step T C limits p s e q t" and "race_inv view ok C k p s ms" and "race_ok e" and "k < 2 ^ 64 - 1"
  shows "\<exists>ms'. race_inv view ok C (Suc k) q t ms' \<and> (\<forall>m\<in>set ms.
      race_spares (qm_recipient m) (msg_key m) (qm_deadline_ms m) e \<longrightarrow> purge_spares (qm_deadline_ms m) p \<longrightarrow>
      m \<in> set ms' \<and> purge_spares (qm_deadline_ms m) q)"
  using assms
proof (induction rule: race_step.induct)
  case (race_push p s msg)
  then show ?case
    using race_push_inv [OF race_push.prems(1) _ race_push.prems(3) prod.collapse [symmetric]] by fastforce
next
  case (race_ack p s r items)
  obtain ms' where "race_inv view ok C k p (snd (sled_ack T C s r items)) ms'" "acked_from r (ack_key ` set items) ms ms'"
    using race_ack_inv [OF race_ack.prems(1) _ prod.collapse [symmetric]] race_ack.prems(2) by auto
  then show ?case using race_inv_Suc by (intro exI [of _ ms']) (auto simp: acked_from_def)
next
  case (race_begin p res s now n)
  show ?case
    using race_inv_Suc [OF race_begin_inv(1) [OF race_begin.prems(1)]]
    by (intro exI [of _ ms]) (auto simp: purge_spares_def)
next
  case (race_turn p s pc s')
  show ?case
  proof (cases "\<exists>res. pt_pc p = Purged res")
    case True
    then have "s' = s" "p\<lparr>pt_pc := pc\<rparr> = p" using race_turn.hyps by auto
    then show ?thesis using race_inv_Suc [OF race_turn.prems(1)] by (intro exI [of _ ms]) simp
  next
    case False
    then show ?thesis
      using race_turn_inv [OF race_turn.prems(1) race_turn.hyps] race_inv_Suc
      by (fastforce simp: turn_ok_def purge_spares_def live_def)
  qed
next
  case (race_seen p es removed quotas es' s)
  show ?case
    using race_inv_Suc [OF race_begin_inv(2) [OF race_seen.prems(1) race_seen.hyps]] race_seen.hyps(1)
    by (intro exI [of _ ms]) (auto simp: purge_spares_def)
next
  case (race_order p quotas removed quotas' s)
  have "race_inv view ok C k (p\<lparr>pt_pc := Writing quotas' removed\<rparr>) s ms"
    using race_order.prems(1) by (simp add: race_inv_def pc_ok_def)
  from race_inv_Suc [OF this] show ?case
    using race_order.hyps(1) by (intro exI [of _ ms]) (auto simp: purge_spares_def)
qed

lemma race_run_inv:
  assumes "race_run T C limits p s es q t" and "race_inv view ok C k p s ms" and "\<forall>e\<in>set es. race_ok e"
    and "k + length es < 2 ^ 64"
  shows "\<exists>ms'. race_inv view ok C (k + length es) q t ms' \<and> (\<forall>m\<in>set ms.
      (\<forall>e\<in>set es. race_spares (qm_recipient m) (msg_key m) (qm_deadline_ms m) e) \<longrightarrow>
      purge_spares (qm_deadline_ms m) p \<longrightarrow> m \<in> set ms' \<and> purge_spares (qm_deadline_ms m) q)"
  using assms
proof (induction arbitrary: k ms rule: race_run.induct)
  case (race_nil p s)
  then show ?case by auto
next
  case (race_cons p s e q t es p' s')
  have k: "k < 2 ^ 64 - 1" "Suc k + length es < 2 ^ 64" using race_cons.prems(3) by simp_all
  obtain ms1 where 1: "race_inv view ok C (Suc k) q t ms1" and keep1: "\<forall>m\<in>set ms.
      race_spares (qm_recipient m) (msg_key m) (qm_deadline_ms m) e \<longrightarrow> purge_spares (qm_deadline_ms m) p \<longrightarrow>
      m \<in> set ms1 \<and> purge_spares (qm_deadline_ms m) q"
    using race_step_inv [OF race_cons.hyps(1) race_cons.prems(1) _ k(1)] race_cons.prems(2) by auto
  obtain ms' where "race_inv view ok C (Suc k + length es) p' s' ms'" "\<forall>m\<in>set ms1.
      (\<forall>e\<in>set es. race_spares (qm_recipient m) (msg_key m) (qm_deadline_ms m) e) \<longrightarrow>
      purge_spares (qm_deadline_ms m) q \<longrightarrow> m \<in> set ms' \<and> purge_spares (qm_deadline_ms m) p'"
    using race_cons.IH [OF 1 _ k(2)] race_cons.prems(2) by auto
  then show ?case using keep1 by (intro exI [of _ ms']) simp
qed

end

section \<open>Pulls in the race\<close>

text \<open>
  Whatever the purge left undone, a pull pages through the messages that are stored: the
  persistent backend in a race satisfies the contract of paging.
\<close>

context sled_backend
begin

lemma race_pull:
  assumes rep: "race_rep view ok C s ms" and r: "addressable r" and cur: "resolve_cursor E r cursor = Inr c"
  shows "\<exists>b. sled_pull E T C s r cursor limit now = (Inr b, s)
    \<and> pb_items b = take (page_limit limit) (selection c now (of_rcpt r ms))
    \<and> pb_next_cursor b = (if page_limit limit < length (selection c now (of_rcpt r ms)) \<and> pb_items b \<noteq> []
        then Some (encode_cursor E r (qm_arrival_seq (last (pb_items b)))) else None)"
proof -
  let ?q = "of_rcpt r ms"
  note ok = race_rep_ok [OF rep]
  obtain v where v: "quota_read C (view (ss_quota s)) r = Some v" using rep r by (auto simp: race_rep_def quotas_read_def)
  have a: "\<forall>x\<in>set ?q. addressable (qm_recipient x)" using r by simp
  have lim: "unat (min limit 4294967295) = page_limit limit" by (simp add: page_limit_def)
  have "tr_scan_prefix T (message_prefix r) (ss_messages s) = map (\<lambda>m. Inr (mkey C m, mval C m)) ?q"
    by (simp add: scan_view ok scan_of_rcpt [OF ok(5) r] comp_def)
  then have scan: "sled_scan C c now (page_limit limit) (tr_scan_prefix T (message_prefix r) (ss_messages s)) []
      = Inr (take (page_limit limit) (selection c now ?q), page_limit limit < length (selection c now ?q))"
    using sled_scan_selection [OF a, of "[]" "page_limit limit"] by simp
  have quota: "read_quota_latest T C s r = Inr v"
    using read_quota_simps(1) [OF ok(3) v] by (simp add: read_quota_latest_def)
  show ?thesis
    unfolding sled_pull_def Let_def lim cur res_bind_simps scan quota prod.case by simp
qed

end

locale sled_race = sled_backend T view ok C + cursor_codec E
  for T :: "('t, 'x) tree_ops_scheme" and view and ok and C :: "'c sled_codecs_scheme" and E :: "'e externals_scheme"

sublocale sled_race \<subseteq> race: relay_pages E "sled_ops E T C" "\<lambda>s. \<exists>ms. race_rep view ok C s ms" "sled_box view C"
proof unfold_locales
  fix s r
  assume "\<exists>ms. race_rep view ok C s ms" and r: "addressable r"
  then obtain ms where rep: "race_rep view ok C s ms" by blast
  note ok = race_rep_ok [OF rep]
  show "sorted_wrt (<) (map qm_arrival_seq (snd (sled_box view C s r)))"
    using stored_sorted_rcpt [OF ok(5) view_ok [OF ok(1)] r] by (simp add: sled_box_def stored_all [OF ok(5)])
next
  fix s r cur c limit now res s'
  assume "\<exists>ms. race_rep view ok C s ms" and r: "addressable r" and cur: "resolve_cursor E r cur = Inr c"
    and pull: "op_pull (sled_ops E T C) s r cur limit now = (res, s')"
  then obtain ms where rep: "race_rep view ok C s ms" by blast
  have "snd (sled_box view C s r) = of_rcpt r ms"
    by (simp add: sled_box_def stored_all [OF race_rep_ok(5) [OF rep]])
  then show "(\<exists>ms. race_rep view ok C s' ms) \<and> expiry_step now (sled_box view C s r) (sled_box view C s' r)
      \<and> (\<exists>b. res = Inr b \<and> pb_items b = take (page_limit limit) (selection c now (snd (sled_box view C s r)))
        \<and> pb_next_cursor b = (if page_limit limit < length (selection c now (snd (sled_box view C s r))) \<and> pb_items b \<noteq> []
            then Some (encode_cursor E r (qm_arrival_seq (last (pb_items b)))) else None))"
    using race_pull [OF rep r cur, of limit now] rep pull by (auto simp: sled_ops_def)
qed

context sled_race
begin

text \<open>An accepted message is delivered, through all the races.\<close>

lemma race_accepted:
  assumes opened: "sled_opened T view ok C init" and before: "race_run T C limits idle_purge init before p s"
    and ok: "\<forall>e\<in>set before. race_ok e" "\<forall>e\<in>set after. race_ok e" and r: "addressable (im_recipient msg)"
    and push: "sled_push T C s msg limits = (Inr res, s1)" "ps_stored res" and after: "race_run T C limits p s1 after q u"
    and spares: "\<forall>e\<in>set after. race_spares (im_recipient msg) (inbound_key msg) (im_deadline_ms msg) e"
      "purge_spares (im_deadline_ms msg) p"
    and len: "length before + length after + 1 < 2 ^ 64" and now: "now < im_deadline_ms msg" and limit: "0 < limit"
  shows "\<exists>n fuel items s'. drain (sled_ops E T C) (im_recipient msg) limit now fuel None u = Some (items, s')
    \<and> stored_message msg n \<in> set items \<and> items = filter (live now) (snd (sled_box view C u (im_recipient msg)))"
proof -
  let ?r = "im_recipient msg"
  have b: "length before < 2 ^ 64 - 1" using len by simp
  obtain ms where 1: "race_inv view ok C (length before) p s ms"
    using race_run_inv [OF before race_start [OF opened] ok(1)] b by auto
  obtain ms1 n where 2: "race_inv view ok C (Suc (length before)) p s1 ms1" and m: "stored_message msg n \<in> set ms1"
    using race_push_inv [OF 1 r b push(1)] push(2) by blast
  have "Suc (length before) + length after < 2 ^ 64" using len by simp
  from race_run_inv [OF after 2 ok(2) this] m spares
  obtain ms2 where 3: "race_inv view ok C (Suc (length before) + length after) q u ms2" and m2: "stored_message msg n \<in> set ms2"
    by force
  have rep: "race_rep view ok C u ms2" using 3 by (simp add: race_inv_def)
  have "snd (sled_box view C u ?r) = of_rcpt ?r ms2"
    by (simp add: sled_box_def stored_all [OF race_rep_ok(5) [OF rep]])
  then have "stored_message msg n \<in> set (filter (live now) (snd (sled_box view C u ?r)))"
    using m2 now by (simp add: live_def)
  then show ?thesis using race.drain_complete [OF _ r limit, of u now] rep by blast
qed

end

end
