(* ===== verification/Race_Props.thy ===== *)
theory Race_Props
  imports Purge_Race Sled_Props
begin

text \<open>
  The properties of a purge of the persistent backend with requests in between: in one piece it is
  the purge of \<open>Store_Sled\<close>; through all races an accepted message is delivered; and what the races
  break, the index entry of a message that is pushed again while the purge removes the old one.
\<close>

interpretation std_race: sled_race std_tree "\<lambda>t. t" bt_ok std_codecs std_externals
  by (intro sled_race.intro std_sled.sled_backend_axioms std.cursor_codec_axioms)

section \<open>Alone\<close>

text \<open>
  The purge call by call. From its beginning, with nothing in between, the calls of the purge
  come to an end in exactly the result and the trees of \<open>purge_expired\<close>, whichever of the calls of
  the tree library fail.
\<close>

theorem purge_in_steps:
  "purge_steps T C now (min n sled_gc_batch_limit) (purge_begin T s) s res s'
     \<longleftrightarrow> sled_purge_expired T C s now n = (res, s')"
proof -
  obtain res0 s0 where run: "sled_purge_expired T C s now n = (res0, s0)" by fastforce
  then have "purge_steps T C now (min n sled_gc_batch_limit) (purge_begin T s) s res0 s0"
    unfolding purge_begin_def purge_as_scan_rest by (rule scan_steps)
  then show ?thesis using run purge_steps_deterministic by fastforce
qed

section \<open>Delivery through the races\<close>

text \<open>
  C4. No race loses a message. Let pushes, acknowledgements and the calls of purges fall in any
  order from empty trees on, the purge's iterator seeing changes or not. A message whose push was
  answered \<open>stored\<close> is received by a client that follows the cursors, in the list of the stored
  unexpired messages, unless an acknowledgement named it or a purge ran for a time at or past
  its deadline.
\<close>

theorem race_delivers:
  assumes "sled_opened T view ok C init" and "cursor_codec E"
    and "race_run T C limits idle_purge init before p s"
    and "\<forall>e\<in>set before. race_ok e" and "\<forall>e\<in>set after. race_ok e" and "addressable (im_recipient msg)"
    and "sled_push T C s msg limits = (Inr res, s1)" and "ps_stored res"
    and "race_run T C limits p s1 after q u"
    and "\<forall>e\<in>set after. race_spares (im_recipient msg) (inbound_key msg) (im_deadline_ms msg) e"
    and "purge_spares (im_deadline_ms msg) p" and "length before + length after + 1 < 2 ^ 64"
    and "now < im_deadline_ms msg" and "0 < limit"
  shows "\<exists>n fuel items s'. drain (sled_ops E T C) (im_recipient msg) limit now fuel None u = Some (items, s')
    \<and> stored_message msg n \<in> set items \<and> items = filter (live now) (snd (sled_box view C u (im_recipient msg)))"
proof -
  have "sled_race T view ok C E"
    using assms(1,2) by (intro sled_race.intro) (simp_all add: sled_opened_def)
  from sled_race.race_accepted [OF this assms(1) assms(3-14)] show ?thesis .
qed

text \<open>A purge that runs before the deadline, and an acknowledgement of another message.\<close>

theorem race_delivers_witness:
  "\<exists>q u n fuel items s'.
     race_run std_tree std_codecs limits_default idle_purge sample_sled
       [Race_begin 1500 10, Race_turn, Race_ack ''alice'' [\<lparr>ai_message_id = 2, ai_chunk_index = 0\<rparr>]] q u
   \<and> drain std_ops ''alice'' 1 1600 fuel None u = Some (items, s') \<and> stored_message (sample_msg 1 2000) n \<in> set items"
proof -
  let ?p = "\<lparr>pt_now = 1500, pt_target = min 10 sled_gc_batch_limit, pt_pc = purge_begin std_tree sample_sled\<rparr>"
    and ?a = "\<lparr>ai_message_id = 2, ai_chunk_index = 0\<rparr>"
  let ?es = "[Race_begin 1500 10, Race_turn, Race_ack ''alice'' [?a]]"
  obtain pc t where turn: "purge_next std_tree std_codecs (pt_now ?p) (pt_target ?p) (pt_pc ?p) sample_sled = (pc, t)" by fastforce
  let ?q = "?p\<lparr>pt_pc := pc\<rparr>" and ?u = "snd (sled_ack std_tree std_codecs t ''alice'' [?a])"
  have run: "race_run std_tree std_codecs limits_default idle_purge sample_sled ?es ?q ?u"
    by (intro race_cons [OF race_begin] race_cons [OF race_turn [OF turn]] race_cons [OF race_ack] race_nil) (simp add: idle_purge_def)
  have msg: "im_recipient (sample_msg 1 2000) = ''alice''" "im_deadline_ms (sample_msg 1 2000) = 2000"
    by (simp_all add: sample_msg_def)
  have adr: "addressable (im_recipient (sample_msg 1 2000))" using sample_addressable msg by simp
  have ok: "\<forall>e\<in>set ?es. race_ok e" "\<forall>e\<in>set []. race_ok e" using sample_addressable by simp_all
  have spares: "\<forall>e\<in>set ?es. race_spares (im_recipient (sample_msg 1 2000)) (inbound_key (sample_msg 1 2000))
      (im_deadline_ms (sample_msg 1 2000)) e" "purge_spares (im_deadline_ms (sample_msg 1 2000)) idle_purge"
    by (simp_all add: sample_msg_def inbound_key_def ack_key_def purge_spares_def idle_purge_def)
  have rest: "length ([] :: race_event list) + length ?es + 1 < 2 ^ 64" "(1600 :: u64) < im_deadline_ms (sample_msg 1 2000)"
      "(0 :: u64) < 1" "ps_stored \<lparr>ps_stored = True, ps_duplicate = False, ps_queue_len = 1, ps_queue_bytes = 3\<rparr>"
    by (simp_all add: msg)
  from race_delivers [OF std_sled.sled_opened_axioms std.cursor_codec_axioms race_nil ok(2,1) adr sample_sled_push(1) rest(4) run
      spares rest(1-3)]
  show ?thesis using run unfolding msg by blast
qed

section \<open>The lost index entry\<close>

text \<open>
  C24. What a race breaks. When a message is stored while a purge has removed an expired message of
  the same recipient, id and chunk but not yet its index entry, as it happens after an
  acknowledgement between the two calls, the purge's next call removes the index entry of the new
  message: it is stored and is delivered, but an acknowledgement of it deletes nothing and answers
  \<open>missing\<close>, and another push of it is not recognised as a duplicate.
\<close>

theorem purge_unindexes_new:
  assumes "sled_opened T view ok C init" and "race_run T C limits idle_purge init es p s" and "\<forall>e\<in>set es. race_ok e"
    and "length es < 2 ^ 64 - 1" and "pt_pc p = Unindexing m rest removed quotas"
    and "qm_recipient m = im_recipient msg" and "msg_key m = inbound_key msg" and "addressable (im_recipient msg)"
    and "sled_push T C s msg limits = (Inr ps, s1)" and "ps_stored ps"
    and "race_step T C limits p s1 Race_turn q s2"
    and "a = \<lparr>ai_message_id = im_message_id msg, ai_chunk_index = mm_chunk_index (im_meta msg)\<rparr>"
  shows "\<exists>n. stored_message msg n \<in> set (snd (sled_box view C s2 (im_recipient msg)))
    \<and> (\<exists>rem s3. sled_ack T C s2 (im_recipient msg) [a] = (Inr \<lparr>ao_deleted = 0, ao_missing = 1, ao_remaining = rem\<rparr>, s3)
         \<and> view (ss_messages s3) = view (ss_messages s2))
    \<and> (\<forall>res s3. sled_push T C s2 msg limits = (Inr res, s3) \<longrightarrow> ps_stored res \<and> \<not> ps_duplicate res)"
proof -
  have backend: "sled_backend T view ok C" using assms(1) by (simp add: sled_opened_def)
  obtain ms where inv: "race_inv view ok C (length es) p s ms"
    using sled_backend.race_run_inv [OF backend assms(2) sled_backend.race_start [OF backend assms(1)] assms(3)] assms(4) by auto
  obtain pc' where turn: "purge_next T C (pt_now p) (pt_target p) (Unindexing m rest removed quotas) s1 = (pc', s2)"
    using assms(5,11) by (auto elim: race_step.cases)
  obtain ms2 n where rep: "race_rep view ok C s2 ms2" and m: "stored_message msg n \<in> set ms2"
    and none: "bt_get (view (ss_index s2)) (index_key C (im_recipient msg) (im_message_id msg) (mm_chunk_index (im_meta msg))) = None"
    using sled_backend.race_unindexed [OF backend inv assms(8,4,6,7,9,10) turn] by blast
  have "snd (sled_box view C s2 (im_recipient msg)) = of_rcpt (im_recipient msg) ms2"
    by (simp add: sled_box_def sled_backend.stored_all [OF backend sled_backend.race_rep_ok(5) [OF backend rep]])
  then have "stored_message msg n \<in> set (snd (sled_box view C s2 (im_recipient msg)))" using m by simp
  moreover have "\<exists>rem s3. sled_ack T C s2 (im_recipient msg) [a] = (Inr \<lparr>ao_deleted = 0, ao_missing = 1, ao_remaining = rem\<rparr>, s3)
      \<and> view (ss_messages s3) = view (ss_messages s2)"
    using none by (intro sled_backend.race_ack_missed [OF backend rep assms(8)]) (simp add: assms(12))
  moreover have "ps_stored res \<and> \<not> ps_duplicate res" if "sled_push T C s2 msg limits = (Inr res, s3)" for res s3
    using sled_backend.race_push_cases [OF backend rep assms(8) that] none by auto
  ultimately show ?thesis by blast
qed

text \<open>The trees after the first push, after the purge removed the message, and after the acknowledgement.\<close>

definition race_quota :: quota_value where
  "race_quota = \<lparr>qv_bytes = 3, qv_count = 1\<rparr>"

definition race_index_key :: bytes where
  "race_index_key = index_key std_codecs ''alice'' 1 (mm_chunk_index sample_meta)"

lemma race_tree_ins: "tree_ins std_tree k v t = bt_insert k v t"
  by (simp add: tree_ins_def std_tree_def)

lemma std_synced: "synced std_tree s = s"
  by (simp add: synced_def synced3_def tree_sync_def std_tree_def)

lemma bt_ok_one: "bt_ok [e]"
  by (simp add: bt_ok_def)

lemma sample_sled_trees:
  "sample_sled = \<lparr>ss_messages = [(mkey std_codecs (stored_message (sample_msg 1 2000) 0), mval std_codecs (stored_message (sample_msg 1 2000) 0))],
     ss_index = [(race_index_key, encode_u64 0)], ss_quota = [(quota_key ''alice'', qval std_codecs race_quota)],
     ss_seq = [(seq_key ''alice'', encode_u64 1)]\<rparr>"
proof -
  have ok: "trees_ok bt_ok std_init" by (rule std_sled.init_ok)
  have q: "quota_read std_codecs (ss_quota std_init) (im_recipient (sample_msg 1 2000)) = Some quota_default"
    and n: "seq_read (ss_seq std_init) (im_recipient (sample_msg 1 2000)) = Some 0"
    by (simp_all add: std_init_def quota_read_def seq_read_def)
  have "sat_add 0 (3 :: u64) = 3" "sat_add 0 (1 :: u64) = 1" by (simp_all add: sat_add_def)
  then have "push_tx std_tree std_codecs (sample_msg 1 2000) limits_default std_init
      = Inr (\<lparr>ps_stored = True, ps_duplicate = False, ps_queue_len = 1, ps_queue_bytes = 3\<rparr>,
          pushed std_tree std_codecs (sample_msg 1 2000) 0 race_quota std_init)"
    by (subst std_sled.push_tx_cases [OF ok q n refl])
      (simp add: std_init_def quota_default_def limits_default_def sample_msg_def race_quota_def)
  from std_sled.sled_push_run [OF ok this] std_sled.pushed_ok [OF ok]
  have "sample_sled = pushed std_tree std_codecs (sample_msg 1 2000) 0 race_quota std_init"
    by (simp add: sample_sled_def std_synced)
  then show ?thesis
    by (simp add: pushed_def Let_def race_tree_ins std_init_def race_index_key_def sample_msg_def sat_add_def)
qed

definition race_unacked :: "(bytes, bytes) btree sled_store" where
  "race_unacked = \<lparr>ss_messages = [], ss_index = [], ss_quota = [(quota_key ''alice'', qval std_codecs race_quota)],
     ss_seq = [(seq_key ''alice'', encode_u64 1)]\<rparr>"

definition race_item :: ack_item where
  "race_item = \<lparr>ai_message_id = 1, ai_chunk_index = mm_chunk_index sample_meta\<rparr>"

lemma race_sample_ack:
  "snd (sled_ack std_tree std_codecs (sample_sled\<lparr>ss_messages := []\<rparr>) ''alice'' [race_item]) = race_unacked"
proof -
  let ?s = "sample_sled\<lparr>ss_messages := []\<rparr>"
  have q: "quota_read std_codecs (ss_quota ?s) ''alice'' = Some race_quota"
    by (simp add: sample_sled_trees quota_read_def bt_get_def std_sled.quota_val)
  have ok: "bt_ok (ss_quota ?s)" by (simp add: sample_sled_trees bt_ok_one)
  have "ack_tx std_tree std_codecs ''alice'' (remdups [race_item]) ?s
      = Inr (\<lparr>ao_deleted = 0, ao_missing = 1, ao_remaining = 1\<rparr>, race_unacked)"
    using std_sled.read_quota_simps(2) [OF ok q]
    by (simp add: ack_tx_def sled_ack_one_def race_item_def Let_def tx_get_def tx_remove_def tx_insert_def abort_json_def
        std_sled.quota_val sample_sled_trees race_unacked_def race_index_key_def [symmetric] bt_get_def bt_remove_def
        ack_outcome_default_def sat_add_def race_quota_def) (simp add: std_tree_def bt_get_def bt_remove_def)
  then show ?thesis
    by (simp add: sled_ack_def transaction_def flush_tree_def) (simp add: std_tree_def)
qed

definition race_events :: "race_event list" where
  "race_events = [Race_push (sample_msg 1 2000), Race_begin 3000 10, Race_turn, Race_ack ''alice'' [race_item]]"

definition race_task :: purge_task where
  "race_task = \<lparr>pt_now = 3000, pt_target = 10, pt_pc = Unindexing (stored_message (sample_msg 1 2000) 0) [] 0 []\<rparr>"

lemma race_sample_run:
  "race_run std_tree std_codecs limits_default idle_purge std_init race_events race_task race_unacked"
proof -
  let ?m = "stored_message (sample_msg 1 2000) 0"
  let ?p = "\<lparr>pt_now = 3000, pt_target = min 10 sled_gc_batch_limit, pt_pc = purge_begin std_tree sample_sled\<rparr>"
  have turn: "purge_next std_tree std_codecs (pt_now ?p) (pt_target ?p) (pt_pc ?p) sample_sled
      = (Unindexing ?m [] 0 [], sample_sled\<lparr>ss_messages := []\<rparr>)"
    by (simp add: purge_begin_def sled_gc_batch_limit_def std_tree_def sample_sled_trees std_sled.msg_val bt_remove_def sample_msg_def)
  let ?step = "race_step std_tree std_codecs limits_default"
  have 1: "?step idle_purge std_init (Race_push (sample_msg 1 2000)) idle_purge sample_sled"
    unfolding sample_sled_def by (rule race_push)
  have 2: "?step idle_purge sample_sled (Race_begin 3000 10) ?p sample_sled"
    by (rule race_begin) (simp add: idle_purge_def)
  have 3: "?step ?p sample_sled Race_turn race_task (sample_sled\<lparr>ss_messages := []\<rparr>)"
    using race_turn [OF turn] by (simp add: race_task_def sled_gc_batch_limit_def)
  have 4: "?step race_task (sample_sled\<lparr>ss_messages := []\<rparr>) (Race_ack ''alice'' [race_item]) race_task race_unacked"
    unfolding race_sample_ack [symmetric] by (rule race_ack)
  show ?thesis
    unfolding race_events_def by (rule race_cons [OF 1 race_cons [OF 2 race_cons [OF 3 race_cons [OF 4 race_nil]]]])
qed

lemma race_second_push:
  "\<exists>ps s1. sled_push std_tree std_codecs race_unacked (sample_msg 1 9000) limits_default = (Inr ps, s1) \<and> ps_stored ps"
proof -
  have ok: "trees_ok bt_ok race_unacked" by (simp add: race_unacked_def trees_ok_def bt_ok_one) (simp add: bt_ok_def)
  have q: "quota_read std_codecs (ss_quota race_unacked) (im_recipient (sample_msg 1 9000)) = Some race_quota"
    and n: "seq_read (ss_seq race_unacked) (im_recipient (sample_msg 1 9000)) = Some 1"
    by (simp_all add: race_unacked_def sample_msg_def quota_read_def seq_read_def bt_get_def std_sled.quota_val)
  have "sat_add 3 (3 :: u64) = 6" "sat_add 1 (1 :: u64) = 2" by (simp_all add: sat_add_def)
  then have "push_tx std_tree std_codecs (sample_msg 1 9000) limits_default race_unacked
      = Inr (\<lparr>ps_stored = True, ps_duplicate = False, ps_queue_len = 2, ps_queue_bytes = 6\<rparr>,
          pushed std_tree std_codecs (sample_msg 1 9000) 1 \<lparr>qv_bytes = 6, qv_count = 2\<rparr> race_unacked)"
    by (subst std_sled.push_tx_cases [OF ok q n refl])
      (simp add: race_unacked_def limits_default_def sample_msg_def race_quota_def)
  from std_sled.sled_push_run [OF ok this] std_sled.pushed_ok [OF ok] show ?thesis by simp
qed

theorem purge_unindexes_new_witness:
  "\<exists>ps s1 q s2 n rem s3. race_run std_tree std_codecs limits_default idle_purge std_init race_events race_task race_unacked
   \<and> sled_push std_tree std_codecs race_unacked (sample_msg 1 9000) limits_default = (Inr ps, s1) \<and> ps_stored ps
   \<and> race_step std_tree std_codecs limits_default race_task s1 Race_turn q s2
   \<and> stored_message (sample_msg 1 9000) n \<in> set (snd (std_box s2 ''alice''))
   \<and> sled_ack std_tree std_codecs s2 ''alice'' [race_item] = (Inr \<lparr>ao_deleted = 0, ao_missing = 1, ao_remaining = rem\<rparr>, s3)"
proof -
  let ?m = "stored_message (sample_msg 1 2000) 0"
  have ok: "\<forall>e\<in>set race_events. race_ok e" "length race_events < 2 ^ 64 - 1"
    using sample_addressable by (simp_all add: race_events_def sample_msg_def)
  have pc: "pt_pc race_task = Unindexing ?m [] 0 []" by (simp add: race_task_def)
  have msg: "im_recipient (sample_msg 1 9000) = ''alice''" by (simp add: sample_msg_def)
  have id: "qm_recipient ?m = im_recipient (sample_msg 1 9000)" "msg_key ?m = inbound_key (sample_msg 1 9000)"
    and item: "race_item = \<lparr>ai_message_id = im_message_id (sample_msg 1 9000), ai_chunk_index = mm_chunk_index (im_meta (sample_msg 1 9000))\<rparr>"
    by (simp_all add: sample_msg_def inbound_key_def race_item_def)
  have adr: "addressable (im_recipient (sample_msg 1 9000))" using sample_addressable by (simp add: msg)
  obtain ps s1 where push: "sled_push std_tree std_codecs race_unacked (sample_msg 1 9000) limits_default = (Inr ps, s1)" "ps_stored ps"
    using race_second_push by blast
  obtain pc' s2 where "purge_next std_tree std_codecs (pt_now race_task) (pt_target race_task) (pt_pc race_task) s1 = (pc', s2)"
    by fastforce
  then have turn: "race_step std_tree std_codecs limits_default race_task s1 Race_turn (race_task\<lparr>pt_pc := pc'\<rparr>) s2"
    by (rule race_turn)
  from purge_unindexes_new [OF std_sled.sled_opened_axioms race_sample_run ok pc id adr push turn item]
  show ?thesis using race_sample_run push turn unfolding msg by blast
qed

end
