(* ===== verification/Reply_Types.thy ===== *)
theory Reply_Types
  imports Server_Props Race_Props
begin

text \<open>
  The types of the answers: which status goes with which body on each route, whatever the request
  and the state. \<open>typed_store\<close> is what this needs of a store; both backends give it.
\<close>

section \<open>Typing rules\<close>

text \<open>
  Every route answers 200 with its own body. The three posts also answer errors: 429 when the limiter
  refuses, 400 for a bad request with the reason, and a push 409 for a full queue, each with the body
  that names it; health and statistics never fail. The rules give statuses and bodies as they are on
  the wire.
\<close>

inductive typed_error :: "http_request \<Rightarrow> nat \<Rightarrow> error_response \<Rightarrow> bool" where
  limited_push: "typed_error (PostPush b) 429
    \<lparr>er_error = \<lparr>eb_code = ''rate_limited'', eb_message = ''rate limit exceeded'', eb_details = None\<rparr>\<rparr>"
| limited_pull: "typed_error (PostPull b) 429
    \<lparr>er_error = \<lparr>eb_code = ''rate_limited'', eb_message = ''rate limit exceeded'', eb_details = None\<rparr>\<rparr>"
| limited_ack: "typed_error (PostAck b) 429
    \<lparr>er_error = \<lparr>eb_code = ''rate_limited'', eb_message = ''rate limit exceeded'', eb_details = None\<rparr>\<rparr>"
| bad_push: "typed_error (PostPush b) 400
    \<lparr>er_error = \<lparr>eb_code = ''invalid_input'', eb_message = msg, eb_details = None\<rparr>\<rparr>"
| bad_pull: "typed_error (PostPull b) 400
    \<lparr>er_error = \<lparr>eb_code = ''invalid_input'', eb_message = msg, eb_details = None\<rparr>\<rparr>"
| bad_ack: "typed_error (PostAck b) 400
    \<lparr>er_error = \<lparr>eb_code = ''invalid_input'', eb_message = msg, eb_details = None\<rparr>\<rparr>"
| full_push: "typed_error (PostPush b) 409
    \<lparr>er_error = \<lparr>eb_code = ''quota_exceeded'', eb_message = ''recipient quota exceeded'', eb_details = None\<rparr>\<rparr>"

inductive typed_reply :: "features \<Rightarrow> http_request \<Rightarrow> http_reply \<Rightarrow> bool" for F where
  push_reply: "pp_stored r \<noteq> pp_duplicate r \<Longrightarrow> pp_queue_len r \<noteq> None \<Longrightarrow> pp_queue_bytes r \<noteq> None \<Longrightarrow>
    typed_reply F (PostPush b) (200, PushBody r)"
| pull_reply: "typed_reply F (PostPull b) (200, PullBody r)"
| ack_reply: "typed_reply F (PostAck b) (200, AckBody r)"
| health_reply: "typed_reply F GetHealth (200, HealthBody \<lparr>hr_status = ''ok''\<rparr>)"
| stats_reply: "sr_metrics r \<noteq> None \<longleftrightarrow> feat_metrics F \<Longrightarrow> typed_reply F GetStats (200, StatsBody r)"
| error_answer: "typed_error req code e \<Longrightarrow> typed_reply F req (code, ErrorBody e)"

inductive_cases typed_errorE: "typed_error req code e"
inductive_cases typed_replyE: "typed_reply F req (code, body)"

text \<open>What the rules come to: 200 goes with the route's body, and the errors have three statuses.\<close>

lemma typed_error_status: "typed_error req code e \<Longrightarrow> code \<in> {400, 409, 429}"
  by (induction rule: typed_error.induct) simp_all

text \<open>What \<open>error_response\<close> makes of the errors the handlers return.\<close>

lemmas error_wire = reply_with_def error_reply_def err_body_def

lemma typed_reply_status:
  "typed_reply F req (code, body) \<Longrightarrow>
     code \<in> {200, 400, 409, 429} \<and> (code = 200 \<longleftrightarrow> (\<forall>b. body \<noteq> ErrorBody b)) \<and> (code = 409 \<longrightarrow> (\<exists>b. req = PostPush b))"
  by (elim typed_replyE) (auto elim: typed_errorE)

section \<open>The store behind the handlers\<close>

text \<open>The request names a recipient the store can carry.\<close>

fun recipient_of :: "http_request \<Rightarrow> string option" where
  "recipient_of (PostPush b) = Some (pq_recipient b)"
| "recipient_of (PostPull b) = Some (lq_recipient b)"
| "recipient_of (PostAck b) = Some (aq_recipient b)"
| "recipient_of _ = None"

locale typed_store =
  fixes D :: "'s store_ops"
    and inv :: "'s \<Rightarrow> bool"
    and good :: "string \<Rightarrow> bool"
  assumes push_typed: "inv s \<Longrightarrow> good (im_recipient m) \<Longrightarrow> op_push D s m limits = (res, s') \<Longrightarrow>
      (case res of Inl e \<Rightarrow> e = QuotaExceeded | Inr ps \<Rightarrow> ps_stored ps \<noteq> ps_duplicate ps)"
    and pull_typed: "inv s \<Longrightarrow> good r \<Longrightarrow> op_pull D s r cur n now = (Inl e, s') \<Longrightarrow> \<exists>msg. e = InvalidInput msg"
    and ack_typed: "inv s \<Longrightarrow> good r \<Longrightarrow> op_ack D s r items \<noteq> (Inl e, s')"
begin

lemma push_reply_typed:
  assumes "inv (as_store st)" and "good (pq_recipient body)" and "push_handler F E D env body st = (Some out, st')"
  shows "typed_reply F (PostPush body) (the (fst (reply_with PushBody (Some out, st'))))"
proof -
  obtain r st1 where rate: "enforce_rate F env ''push'' st = (r, st1)" by fastforce
  note fr = enforce_rate_frame [OF rate]
  have r: "r = Some (Inl RateLimited) \<or> r = Some (Inr ())"
    using rate assms(3) by (auto simp: enforce_rate_def push_handler_def Let_def split: if_splits prod.splits option.splits)
  show ?thesis
  proof (cases "r = Some (Inr ())")
    case False
    then have "out = Inl RateLimited" using r rate assms(3) by (simp add: push_handler_def)
    then show ?thesis by (simp add: error_wire error_answer [OF limited_push])
  next
    case True
    let ?limits = "cfg_relay (as_config st)"
    show ?thesis
    proof (cases "build_inbound_message E body ?limits (now_millis (env_system env))")
      case (Inl e)
      then have "out = Inl e" "\<exists>msg. e = InvalidInput msg"
        using True rate fr assms(3)
        by (auto simp: push_handler_def Let_def build_inbound_message_def res_bind_Inl_iff ok_or_def split: if_splits option.splits)
      then show ?thesis by (auto simp: error_wire error_answer [OF bad_push])
    next
      case (Inr m)
      obtain res s' where p: "op_push D (as_store st) m ?limits = (res, s')" by fastforce
      have "im_recipient m = pq_recipient body" using Inr by (auto simp: build_inbound_message_Inr)
      then have typed: "case res of Inl e \<Rightarrow> e = QuotaExceeded | Inr ps \<Rightarrow> ps_stored ps \<noteq> ps_duplicate ps"
        using push_typed [OF assms(1) _ p] assms(2) by simp
      show ?thesis
        using True rate fr assms(3) Inr p typed
        by (cases res) (auto simp: push_handler_def Let_def on_store_def error_wire
            error_answer [OF full_push] intro!: push_reply)
    qed
  qed
qed

lemma enforce_rate_outcome:
  "enforce_rate F env label st = (r, st1) \<Longrightarrow> r = None \<or> r = Some (Inl RateLimited) \<or> r = Some (Inr ())"
  by (auto simp: enforce_rate_def Let_def split: if_splits prod.splits option.splits)

lemma pull_reply_typed:
  assumes "inv (as_store st)" and "good (lq_recipient body)" and "pull_handler F D env body st = (Some out, st')"
  shows "typed_reply F (PostPull body) (the (fst (reply_with PullBody (Some out, st'))))"
proof -
  obtain r st1 where rate: "enforce_rate F env ''pull'' st = (r, st1)" by fastforce
  have "out = Inl RateLimited \<or> (\<exists>msg. out = Inl (InvalidInput msg)) \<or> (\<exists>x. out = Inr x)"
    using enforce_rate_outcome [OF rate] assms(3) rate enforce_rate_frame [OF rate] pull_typed [OF assms(1,2)]
    by (auto simp: pull_handler_def Let_def on_store_def and_then_def split: if_splits prod.splits sum.splits)
  then show ?thesis
    by (auto simp: error_wire error_answer [OF limited_pull]
        error_answer [OF bad_pull] pull_reply)
qed

lemma ack_reply_typed:
  assumes "inv (as_store st)" and "good (aq_recipient body)" and "ack_handler F D env body st = (Some out, st')"
  shows "typed_reply F (PostAck body) (the (fst (reply_with AckBody (Some out, st'))))"
proof -
  obtain r st1 where rate: "enforce_rate F env ''ack'' st = (r, st1)" by fastforce
  have "out = Inl RateLimited \<or> (\<exists>msg. out = Inl (InvalidInput msg)) \<or> (\<exists>x. out = Inr x)"
    using enforce_rate_outcome [OF rate] assms(3) rate enforce_rate_frame [OF rate] ack_typed [OF assms(1,2)]
    by (auto simp: ack_handler_def Let_def on_store_def and_then_def split: if_splits prod.splits sum.splits)
  then show ?thesis
    by (auto simp: error_wire error_answer [OF limited_ack]
        error_answer [OF bad_ack] ack_reply)
qed

text \<open>A handler panics only in the limiter.\<close>

lemma enforce_rate_panic: "enforce_rate F env label st = (None, st1) \<Longrightarrow> lim_enabled (as_limiter st)"
  by (auto simp: enforce_rate_def split: if_splits)

lemma handler_panics:
  "push_handler F E D env pb st = (None, st') \<Longrightarrow> lim_enabled (as_limiter st)"
  "pull_handler F D env lb st = (None, st') \<Longrightarrow> lim_enabled (as_limiter st)"
  "ack_handler F D env ab st = (None, st') \<Longrightarrow> lim_enabled (as_limiter st)"
  by (auto simp: push_handler_def pull_handler_def ack_handler_def Let_def on_store_def and_then_def
      dest!: enforce_rate_panic split: prod.splits option.splits sum.splits if_splits)

lemma reply_cases:
  assumes "h = (out, st')" and "out = None \<Longrightarrow> P" and "\<And>x. out = Some x \<Longrightarrow> Q (the (fst (reply_with body (Some x, st'))))"
  shows "case fst (reply_with body h) of None \<Rightarrow> P | Some r \<Rightarrow> Q r"
  using assms by (cases out) (auto simp: reply_with_def split: sum.splits)

lemma serve_typed:
  assumes "inv (as_store st)" and "\<forall>r. recipient_of req = Some r \<longrightarrow> good r"
  shows "case fst (serve F E D env req st) of
      None \<Rightarrow> lim_enabled (as_limiter st) \<and> recipient_of req \<noteq> None
    | Some r \<Rightarrow> typed_reply F req r"
proof (cases req)
  case (PostPush b)
  obtain out st' where h: "push_handler F E D env b st = (out, st')" by fastforce
  show ?thesis
    unfolding PostPush serve.simps
    by (rule reply_cases [OF h]) (use h assms PostPush handler_panics(1) [of F E env b st st'] push_reply_typed [of st b F E env _ st'] in auto)
next
  case (PostPull b)
  obtain out st' where h: "pull_handler F D env b st = (out, st')" by fastforce
  show ?thesis
    unfolding PostPull serve.simps
    by (rule reply_cases [OF h]) (use h assms PostPull handler_panics(2) [of F env b st st'] pull_reply_typed [of st b F env _ st'] in auto)
next
  case (PostAck b)
  obtain out st' where h: "ack_handler F D env b st = (out, st')" by fastforce
  show ?thesis
    unfolding PostAck serve.simps
    by (rule reply_cases [OF h]) (use h assms PostAck handler_panics(3) [of F env b st st'] ack_reply_typed [of st b F env _ st'] in auto)
next
  case GetHealth
  then show ?thesis by (simp add: health_reply)
next
  case GetStats
  then show ?thesis by (auto simp: stats_handler_def reply_with_def Let_def intro: stats_reply)
qed

end

section \<open>Both backends\<close>

lemma resolve_cursor_error: "resolve_cursor E r cur = Inl e \<Longrightarrow> \<exists>msg. e = InvalidInput msg"
  by (auto simp: resolve_cursor_def decode_cursor_def res_bind_Inl_iff invalid_cursor_def ok_or_def
      split: option.splits list.splits if_splits prod.splits)

interpretation mem_typed: typed_store "mem_ops E" "\<lambda>_. True" "\<lambda>_. True" for E :: "'x externals_scheme"
proof unfold_locales
  show "case res of Inl e \<Rightarrow> e = QuotaExceeded | Inr ps \<Rightarrow> ps_stored ps \<noteq> ps_duplicate ps"
    if "op_push (mem_ops E) s m limits = (res, s')" for s :: mem_store and m limits res s'
    using that by (auto simp: mem_ops_def mem_push_def entry_push_def Let_def split: prod.splits if_splits)
  show "\<exists>msg. e = InvalidInput msg" if "op_pull (mem_ops E) s r cur n now = (Inl e, s')" for s :: mem_store and r cur n now e s'
    using that by (auto simp: mem_ops_def mem_pull_def dest: resolve_cursor_error split: option.splits sum.splits prod.splits)
  show "op_ack (mem_ops E) s r items \<noteq> (Inl e, s')" for s :: mem_store and r items e s'
    by (simp add: mem_ops_def mem_ack_no_error)
qed

sublocale sled_backend \<subseteq> sled_typed: typed_store "sled_ops E T C" "\<lambda>s. \<exists>ms. race_rep view ok C s ms" addressable
  for E :: "'e externals_scheme"
proof unfold_locales
  fix s m limits res s'
  assume "\<exists>ms. race_rep view ok C s ms" and r: "addressable (im_recipient m)" and push: "op_push (sled_ops E T C) s m limits = (res, s')"
  then obtain ms where rep: "race_rep view ok C s ms" by blast
  have p: "sled_push T C s m limits = (res, s')" using push by (simp add: sled_ops_def)
  show "case res of Inl e \<Rightarrow> e = QuotaExceeded | Inr ps \<Rightarrow> ps_stored ps \<noteq> ps_duplicate ps"
    using race_push_cases [OF rep r p] by (cases res) auto
next
  fix s r cur n now e s'
  assume "\<exists>ms. race_rep view ok C s ms" and r: "addressable r" and pull: "op_pull (sled_ops E T C) s r cur n now = (Inl e, s')"
  then obtain ms where rep: "race_rep view ok C s ms" by blast
  show "\<exists>msg. e = InvalidInput msg"
  proof (cases "resolve_cursor E r cur")
    case (Inl x)
    then show ?thesis using pull sled_pull_bad_cursor [OF Inl] resolve_cursor_error [OF Inl] by (simp add: sled_ops_def)
  next
    case (Inr c)
    then show ?thesis using pull race_pull [OF rep r Inr, of n now] by (auto simp: sled_ops_def)
  qed
next
  fix s r items e s'
  assume "\<exists>ms. race_rep view ok C s ms" and r: "addressable r"
  then show "op_ack (sled_ops E T C) s r items \<noteq> (Inl e, s')"
    by (auto simp: sled_ops_def dest: race_ack_result)
qed

context sled_backend
begin

lemma replies: "typed_store (sled_ops E T C) (\<lambda>s. \<exists>ms. race_rep view ok C s ms) addressable"
  for E :: "'e externals_scheme"
  by (rule sled_typed.typed_store_axioms)

end

section \<open>Properties\<close>

text \<open>
  C11. Every answer of a relay on the in-memory backend is typed: 200 with the route's own body, a
  push that says exactly one of stored and duplicate; on a post 429 with \<open>rate_limited\<close> or 400 with
  \<open>invalid_input\<close> and a reason; on a push 409 with \<open>quota_exceeded\<close>; nothing else. Health and
  statistics always answer 200. A request goes unanswered only
  when the limiter is on and the request is a post.
\<close>

theorem mem_replies_typed:
  "case fst (serve F E (mem_ops E) env req st) of
     None \<Rightarrow> lim_enabled (as_limiter st) \<and> recipient_of req \<noteq> None
   | Some r \<Rightarrow> typed_reply F req r"
  by (rule mem_typed.serve_typed) simp_all

text \<open>
  C10. On the persistent backend the answers have the same types in every state that pushes,
  acknowledgements and the calls of purges lead to from empty trees, also between two calls of a
  purge and with the index and quotas it leaves wrong: no request about an addressable recipient
  is answered 500 or 503.
\<close>

theorem sled_replies_typed:
  assumes "sled_opened T view ok C init" and "race_run T C limits idle_purge init es p (as_store st)"
    and "\<forall>e\<in>set es. race_ok e" and "length es < 2 ^ 64" and "\<forall>r. recipient_of req = Some r \<longrightarrow> addressable r"
  shows "case fst (serve F E (sled_ops E T C) env req st) of
     None \<Rightarrow> lim_enabled (as_limiter st) \<and> recipient_of req \<noteq> None
   | Some r \<Rightarrow> typed_reply F req r \<and> fst r \<in> {200, 400, 409, 429}"
proof -
  have backend: "sled_backend T view ok C" using assms(1) by (simp add: sled_opened_def)
  obtain ms where "race_inv view ok C (length es) p (as_store st) ms"
    using sled_backend.race_run_inv [OF backend assms(2) sled_backend.race_start [OF backend assms(1)] assms(3)] assms(4) by auto
  then have "\<exists>ms. race_rep view ok C (as_store st) ms" by (auto simp: race_inv_def)
  note typed = typed_store.serve_typed [OF sled_backend.replies [OF backend] this assms(5), of F E E env]
  show ?thesis
  proof (cases "fst (serve F E (sled_ops E T C) env req st)")
    case None
    then show ?thesis using typed by simp
  next
    case (Some r)
    then show ?thesis using typed typed_reply_status [of F req "fst r" "snd r"] by auto
  qed
qed

theorem sled_replies_typed_witness:
  "\<exists>r. fst (serve default_features std_externals std_ops sample_env (PostAck \<lparr>aq_recipient = ''alice'', aq_ack = []\<rparr>)
      (sample_sled_start\<lparr>as_store := race_unacked\<rparr>)) = Some r \<and> fst r \<in> {200, 400, 409, 429}"
proof -
  let ?st = "sample_sled_start\<lparr>as_store := race_unacked\<rparr>" and ?req = "PostAck \<lparr>aq_recipient = ''alice'', aq_ack = []\<rparr>"
  have run: "race_run std_tree std_codecs limits_default idle_purge std_init race_events race_task (as_store ?st)"
    using race_sample_run by simp
  have ok: "\<forall>e\<in>set race_events. race_ok e" "length race_events < 2 ^ 64" "\<forall>r. recipient_of ?req = Some r \<longrightarrow> addressable r"
    using sample_addressable by (simp_all add: race_events_def sample_msg_def)
  have off: "\<not> lim_enabled (as_limiter ?st)" by (simp add: sample_started_def limiter_new_def)
  from sled_replies_typed [OF std_sled.sled_opened_axioms run ok, of default_features std_externals sample_env] off
  show ?thesis by (auto split: option.splits)
qed

end
