(* ===== verification/Flights.thy ===== *)
theory Flights
  imports Server_Contract
begin

text \<open>
  Requests in flight. The handlers of \<open>src/server.rs\<close> run concurrently; what they share is
  reached one lock or atomic at a time: the limiter for the bucket of the address, the limiter for
  the bucket of the route, a counter, the store, the counters again. \<open>flight_next\<close> takes a
  request from one of these to the next; \<open>flight_step\<close> lets any request in flight move, new ones
  arrive and the collector run.
\<close>

section \<open>One request\<close>

text \<open>
  Where a request is: before the limiter; between its two buckets, with the verdict of the first;
  admitted; before and after the call of the store; answered, with \<open>None\<close> for a panic.
\<close>

datatype flight =
    Arrived request_env http_request
  | Charged request_env http_request bool
  | Admitted request_env http_request
  | Pushing inbound_message
  | Pushed "push_result result"
  | Pulling string "string option" u64 u64
  | Pulled "pull_batch result"
  | Acking string "ack_item list"
  | Acked "ack_outcome result"
  | Answered "http_reply option"

fun route_label :: "http_request \<Rightarrow> string option" where
  "route_label (PostPush body) = Some ''push''"
| "route_label (PostPull body) = Some ''pull''"
| "route_label (PostAck body) = Some ''ack''"
| "route_label _ = None"

definition failed :: "enigma_relay_error \<Rightarrow> flight" where
  "failed e = Answered (Some (case error_reply e of (code, b) \<Rightarrow> (code, ErrorBody b)))"

text \<open>The first and the second call of the limiter in \<open>enforce_rate\<close>.\<close>

definition charge_global :: "request_env \<Rightarrow> http_request \<Rightarrow> 's app_state \<Rightarrow> flight \<times> 's app_state" where
  "charge_global env req st =
     (let cfg = cfg_rate_limit (as_config st) in
      case allow (as_limiter st) (env_now1 env) (peer_ip env) ''global''
          (f64_of_nat (unat (per_ip_rps cfg))) (f64_of_nat (unat (rl_burst cfg))) of
        (None, l1) \<Rightarrow> (Answered None, st\<lparr>as_limiter := l1\<rparr>)
      | (Some global_ok, l1) \<Rightarrow> (Charged env req global_ok, st\<lparr>as_limiter := l1\<rparr>))"

definition charge_endpoint ::
  "features \<Rightarrow> request_env \<Rightarrow> http_request \<Rightarrow> bool \<Rightarrow> string \<Rightarrow> 's app_state \<Rightarrow> flight \<times> 's app_state" where
  "charge_endpoint F env req global_ok label st =
     (let cfg = cfg_rate_limit (as_config st) in
      case allow (as_limiter st) (env_now2 env) (peer_ip env) label
          (f64_of_nat (unat (endpoint_rps cfg label))) (f64_of_nat (unat (rl_burst cfg))) of
        (None, l2) \<Rightarrow> (Answered None, st\<lparr>as_limiter := l2\<rparr>)
      | (Some endpoint_ok, l2) \<Rightarrow>
          if global_ok \<and> endpoint_ok then (Admitted env req, st\<lparr>as_limiter := l2\<rparr>)
          else (failed RateLimited, count F (\<lambda>m. m\<lparr>m_rate_limited := m_rate_limited m + 1\<rparr>) (st\<lparr>as_limiter := l2\<rparr>)))"

text \<open>Between the limiter and the store: the counter of the route and the checks of the body.\<close>

fun admit ::
  "features \<Rightarrow> 'x externals_scheme \<Rightarrow> request_env \<Rightarrow> http_request \<Rightarrow> 's app_state \<Rightarrow> flight \<times> 's app_state" where
  "admit F E env (PostPush body) st =
     (let st2 = count F (\<lambda>m. m\<lparr>m_push_total := m_push_total m + 1\<rparr>) st in
      case build_inbound_message E body (cfg_relay (as_config st2)) (now_millis (env_system env)) of
        Inl e \<Rightarrow> (failed e, st2)
      | Inr msg \<Rightarrow> (Pushing msg, st2))"
| "admit F E env (PostPull body) st =
     (let st2 = count F (\<lambda>m. m\<lparr>m_pull_total := m_pull_total m + 1\<rparr>) st;
          max_n = opt_or (pull_batch_max (cfg_relay (as_config st2))) (lq_max body) in
      if str_trim (lq_recipient body) = [] then (failed (InvalidInput ''recipient required''), st2)
      else if max_n = 0 then (failed (InvalidInput ''max must be positive''), st2)
      else (Pulling (lq_recipient body) (lq_cursor body) (min max_n (pull_batch_max (cfg_relay (as_config st2))))
              (now_millis (env_system env)), st2))"
| "admit F E env (PostAck body) st =
     (let st2 = count F (\<lambda>m. m\<lparr>m_ack_total := m_ack_total m + 1\<rparr>) st in
      if str_trim (aq_recipient body) = [] then (failed (InvalidInput ''recipient required''), st2)
      else (Acking (aq_recipient body) (map to_ack_item (aq_ack body)), st2))"
| "admit F E env GetHealth st = (Answered (fst (reply_with HealthBody (health_handler st))), st)"
| "admit F E env GetStats st = (Answered (fst (reply_with StatsBody (stats_handler F env st))), st)"

text \<open>After the store: its error, or the last counters and the body of the answer.\<close>

definition answer_push :: "features \<Rightarrow> push_result \<Rightarrow> 's app_state \<Rightarrow> flight \<times> 's app_state" where
  "answer_push F result st =
     (let st5 = (if ps_stored result then count F (\<lambda>m. m\<lparr>m_push_stored := m_push_stored m + 1\<rparr>) st else st);
          st6 = (if ps_duplicate result then count F (\<lambda>m. m\<lparr>m_duplicates := m_duplicates m + 1\<rparr>) st5 else st5)
      in (Answered (Some (200, PushBody \<lparr>pp_stored = ps_stored result, pp_duplicate = ps_duplicate result,
            pp_queue_len = Some (ps_queue_len result), pp_queue_bytes = Some (ps_queue_bytes result)\<rparr>)), st6))"

definition answer_pull :: "pull_batch \<Rightarrow> flight" where
  "answer_pull batch = Answered (Some (200, PullBody \<lparr>lp_items = map to_delivery (pb_items batch),
     lp_next_cursor = pb_next_cursor batch, lp_remaining_estimate = pb_remaining_estimate batch\<rparr>))"

definition answer_ack :: "features \<Rightarrow> ack_outcome \<Rightarrow> 's app_state \<Rightarrow> flight \<times> 's app_state" where
  "answer_ack F outcome st =
     (Answered (Some (200, AckBody \<lparr>ap_deleted = ao_deleted outcome, ap_missing = ao_missing outcome,
        ap_remaining = ao_remaining outcome\<rparr>)),
      count F (\<lambda>m. m\<lparr>m_ack_deleted := m_ack_deleted m + ao_deleted outcome\<rparr>) st)"

text \<open>From one shared access to the next.\<close>

fun flight_next ::
  "features \<Rightarrow> 'x externals_scheme \<Rightarrow> 's store_ops \<Rightarrow> flight \<Rightarrow> 's app_state \<Rightarrow> flight \<times> 's app_state" where
  "flight_next F E D (Arrived env req) st =
     (if route_label req = None \<or> \<not> lim_enabled (as_limiter st) then (Admitted env req, st)
      else charge_global env req st)"
| "flight_next F E D (Charged env req global_ok) st =
     charge_endpoint F env req global_ok (opt_or [] (route_label req)) st"
| "flight_next F E D (Admitted env req) st = admit F E env req st"
| "flight_next F E D (Pushing msg) st =
     (case op_push D (as_store st) msg (cfg_relay (as_config st)) of (r, s') \<Rightarrow> (Pushed r, st\<lparr>as_store := s'\<rparr>))"
| "flight_next F E D (Pulling r cursor limit now) st =
     (case op_pull D (as_store st) r cursor limit now of (b, s') \<Rightarrow> (Pulled b, st\<lparr>as_store := s'\<rparr>))"
| "flight_next F E D (Acking r items) st =
     (case op_ack D (as_store st) r items of (out, s') \<Rightarrow> (Acked out, st\<lparr>as_store := s'\<rparr>))"
| "flight_next F E D (Pushed (Inl e)) st = (failed e, st)"
| "flight_next F E D (Pushed (Inr result)) st = answer_push F result st"
| "flight_next F E D (Pulled (Inl e)) st = (failed e, st)"
| "flight_next F E D (Pulled (Inr batch)) st = (answer_pull batch, st)"
| "flight_next F E D (Acked (Inl e)) st = (failed e, st)"
| "flight_next F E D (Acked (Inr outcome)) st = answer_ack F outcome st"
| "flight_next F E D (Answered r) st = (Answered r, st)"

fun flight_iter ::
  "features \<Rightarrow> 'x externals_scheme \<Rightarrow> 's store_ops \<Rightarrow> nat \<Rightarrow> flight \<Rightarrow> 's app_state \<Rightarrow> flight \<times> 's app_state" where
  "flight_iter F E D 0 f st = (f, st)"
| "flight_iter F E D (Suc n) f st = (case flight_next F E D f st of (f', st') \<Rightarrow> flight_iter F E D n f' st')"

section \<open>Alone, a flight is the handler\<close>

lemma flight_iter_Answered [simp]: "flight_iter F E D n (Answered r) st = (Answered r, st)"
  by (induction n) simp_all

lemma flight_iter_failed [simp]:
  "flight_iter F E D n (failed e) st = (Answered (Some (case error_reply e of (code, b) \<Rightarrow> (code, ErrorBody b))), st)"
  by (simp add: failed_def)

lemma flight_iter_add:
  "flight_iter F E D (m + n) f st = (case flight_iter F E D m f st of (f', st') \<Rightarrow> flight_iter F E D n f' st')"
  by (induction m arbitrary: f st) (auto split: prod.splits)

text \<open>The limiter: the first two steps are \<open>enforce_rate\<close>.\<close>

lemma flight_limiter:
  assumes "route_label req = Some label"
  shows "flight_iter F E D (Suc (Suc (Suc n))) (Arrived env req) st
    = (case enforce_rate F env label st of
         (None, st1) \<Rightarrow> (Answered None, st1)
       | (Some (Inl e), st1) \<Rightarrow> (Answered (Some (case error_reply e of (code, b) \<Rightarrow> (code, ErrorBody b))), st1)
       | (Some (Inr _), st1) \<Rightarrow>
           (if lim_enabled (as_limiter st) then flight_iter F E D (Suc n) (Admitted env req) st1
            else flight_iter F E D (Suc (Suc n)) (Admitted env req) st1))"
  using assms
  by (auto simp: enforce_rate_def charge_global_def charge_endpoint_def Let_def opt_or_def
      simp del: flight_iter.simps(2) flight_next.simps(3) split: prod.splits option.splits
      intro!: trans [OF flight_iter.simps(2)])

text \<open>An answered flight stays as it is, so five steps are always enough.\<close>

lemma flight_rest:
  assumes "enforce_rate F env label st = (Some (Inr u), st1)" and "route_label req = Some label"
  shows "flight_iter F E D (Suc (Suc (Suc n))) (Admitted env req) st1
    = (Answered (fst (serve F E D env req st)), snd (serve F E D env req st))"
proof (cases req)
  case (PostPush body)
  then have rate: "enforce_rate F env ''push'' st = (Some (Inr ()), st1)" using assms by simp
  show ?thesis
  proof (cases "build_inbound_message E body (cfg_relay (as_config st1)) (now_millis (env_system env))")
    case (Inl e)
    then show ?thesis by (simp add: PostPush push_handler_def rate Let_def reply_with_def failed_def)
  next
    case (Inr msg)
    obtain res s' where "op_push D (as_store st1) msg (cfg_relay (as_config st1)) = (res, s')" by fastforce
    then show ?thesis
      by (cases res) (simp_all add: PostPush push_handler_def rate Inr Let_def on_store_def reply_with_def failed_def answer_push_def)
  qed
next
  case (PostPull body)
  then have rate: "enforce_rate F env ''pull'' st = (Some (Inr ()), st1)" using assms by simp
  let ?max = "opt_or (pull_batch_max (cfg_relay (as_config st1))) (lq_max body)"
  obtain res s' where "op_pull D (as_store st1) (lq_recipient body) (lq_cursor body)
      (min ?max (pull_batch_max (cfg_relay (as_config st1)))) (now_millis (env_system env)) = (res, s')" by fastforce
  then show ?thesis
    by (cases res) (simp_all add: PostPull pull_handler_def rate Let_def on_store_def reply_with_def failed_def answer_pull_def)
next
  case (PostAck body)
  then have rate: "enforce_rate F env ''ack'' st = (Some (Inr ()), st1)" using assms by simp
  obtain res s' where "op_ack D (as_store st1) (aq_recipient body) (map to_ack_item (aq_ack body)) = (res, s')" by fastforce
  then show ?thesis
    by (cases res) (simp_all add: PostAck ack_handler_def rate Let_def on_store_def reply_with_def failed_def answer_ack_def)
qed (use assms(2) in simp_all)

lemma serve_panics:
  assumes "enforce_rate F env label st = (None, st1)" and "route_label req = Some label"
  shows "serve F E D env req st = (None, st1)"
  using assms by (cases req) (auto simp: push_handler_def pull_handler_def ack_handler_def reply_with_def)

lemma serve_limited:
  assumes "enforce_rate F env label st = (Some (Inl e), st1)" and "route_label req = Some label"
  shows "serve F E D env req st = (Some (case error_reply e of (code, b) \<Rightarrow> (code, ErrorBody b)), st1)"
  using assms by (cases req) (auto simp: push_handler_def pull_handler_def ack_handler_def reply_with_def)

text \<open>
  The request access by access. With nothing in between, a request is answered after at most
  five steps, with exactly the answer of its handler, and leaves exactly the state its handler
  leaves, whether it is refused, panics in the limiter, fails a check or in the store, or succeeds.
\<close>

theorem request_in_steps:
  "flight_iter F E D 5 (Arrived env req) st = (Answered (fst (serve F E D env req st)), snd (serve F E D env req st))"
proof -
  have 5: "(5 :: nat) = Suc (Suc (Suc (Suc (Suc 0))))" by simp
  show ?thesis
  proof (cases "route_label req")
    case None
    then show ?thesis unfolding 5 flight_iter.simps(2) by (cases req) (simp_all add: stats_handler_def Let_def)
  next
    case (Some label)
    obtain r st1 where rate: "enforce_rate F env label st = (r, st1)" by fastforce
    consider (panic) "r = None" | (limited) e where "r = Some (Inl e)" | (ok) u where "r = Some (Inr u)"
      by (cases r; cases "the r") auto
    then show ?thesis
    proof cases
      case ok
      note rest = flight_rest [OF rate [unfolded ok] Some, of E D]
      show ?thesis
        unfolding 5 flight_limiter [OF Some] rate ok prod.case option.case sum.case rest by simp
    next
      case panic
      show ?thesis
        unfolding 5 flight_limiter [OF Some] rate panic serve_panics [OF rate [unfolded panic] Some] by simp
    next
      case limited
      show ?thesis
        unfolding 5 flight_limiter [OF Some] rate limited serve_limited [OF rate [unfolded limited] Some] by simp
    qed
  qed
qed

section \<open>Many requests\<close>

datatype flight_event =
    Arrives request_env http_request
  | Moves nat
  | Collects int

fun flight_step ::
  "features \<Rightarrow> 'x externals_scheme \<Rightarrow> 's store_ops \<Rightarrow> flight_event \<Rightarrow> flight list \<times> 's app_state
     \<Rightarrow> flight list \<times> 's app_state" where
  "flight_step F E D (Arrives env req) (fs, st) = (fs @ [Arrived env req], st)"
| "flight_step F E D (Moves i) (fs, st) =
     (if i < length fs then (case flight_next F E D (fs ! i) st of (f, st') \<Rightarrow> (fs[i := f], st')) else (fs, st))"
| "flight_step F E D (Collects system) (fs, st) = (fs, gc_tick F D system st)"

fun flight_run ::
  "features \<Rightarrow> 'x externals_scheme \<Rightarrow> 's store_ops \<Rightarrow> flight_event list \<Rightarrow> flight list \<times> 's app_state
     \<Rightarrow> flight list \<times> 's app_state" where
  "flight_run F E D [] c = c"
| "flight_run F E D (e # es) c = flight_run F E D es (flight_step F E D e c)"

text \<open>What the requests are about, and what they leave alone, wherever they are.\<close>

fun flight_ok :: "flight \<Rightarrow> bool" where
  "flight_ok (Arrived env req) = step_ok (Request env req)"
| "flight_ok (Charged env req ok) = step_ok (Request env req)"
| "flight_ok (Admitted env req) = step_ok (Request env req)"
| "flight_ok (Pushing msg) = addressable (im_recipient msg)"
| "flight_ok (Pulling r cur limit now) = addressable r"
| "flight_ok (Acking r items) = (addressable r \<and> length items < 2 ^ 64)"
| "flight_ok _ = True"

fun flight_spares :: "string \<Rightarrow> dedup_key \<Rightarrow> u64 \<Rightarrow> flight \<Rightarrow> bool" where
  "flight_spares r key deadline (Arrived env req) = step_spares r key deadline (Request env req)"
| "flight_spares r key deadline (Charged env req ok) = step_spares r key deadline (Request env req)"
| "flight_spares r key deadline (Admitted env req) = step_spares r key deadline (Request env req)"
| "flight_spares r key deadline (Pulling q cur limit now) = (q = r \<longrightarrow> now < deadline)"
| "flight_spares r key deadline (Acking q items) = (q = r \<longrightarrow> key \<notin> ack_key ` set items)"
| "flight_spares r key deadline _ = True"

fun arrival :: "flight_event \<Rightarrow> server_event option" where
  "arrival (Arrives env req) = Some (Request env req)"
| "arrival (Collects system) = Some (GcTurn system)"
| "arrival (Moves i) = None"

definition event_fine :: "flight_event \<Rightarrow> bool" where
  "event_fine e \<longleftrightarrow> pred_option step_ok (arrival e)"

definition event_spares :: "string \<Rightarrow> dedup_key \<Rightarrow> u64 \<Rightarrow> flight_event \<Rightarrow> bool" where
  "event_spares r key deadline e \<longleftrightarrow> pred_option (step_spares r key deadline) (arrival e)"

text \<open>What one flight does to the store.\<close>

definition store_effect :: "(string \<Rightarrow> queue_message \<Rightarrow> bool) \<Rightarrow> store_event \<Rightarrow> bool" where
  "store_effect spare x \<longleftrightarrow> event_ok x \<and> (\<forall>r m. spare r m \<longrightarrow> spares r m x)"

abbreviation flight_spare :: "flight \<Rightarrow> string \<Rightarrow> queue_message \<Rightarrow> bool" where
  "flight_spare f r m \<equiv> flight_spares r (msg_key m) (qm_deadline_ms m) f"

lemma charge_frame:
  assumes "charge_global env req st = (f, st') \<or> charge_endpoint F env req ok label st = (f, st')"
  shows "as_store st' = as_store st \<and> as_config st' = as_config st
    \<and> (flight_ok (Admitted env req) \<longrightarrow> flight_ok f)
    \<and> (flight_spares r key deadline (Admitted env req) \<longrightarrow> flight_spares r key deadline f)"
  using assms by (auto simp: charge_global_def charge_endpoint_def failed_def Let_def split: prod.splits option.splits if_splits)

lemma admit_frame:
  assumes "admit F E env req st = (f, st')"
  shows "as_store st' = as_store st \<and> as_config st' = as_config st
    \<and> (step_ok (Request env req) \<longrightarrow> flight_ok f)
    \<and> (step_spares r key deadline (Request env req) \<longrightarrow> flight_spares r key deadline f)"
  using assms
  by (cases req) (auto simp: Let_def failed_def build_inbound_message_Inr split: sum.splits if_splits)

lemma store_effect_call:
  "as_config st' = as_config st \<Longrightarrow> as_store st' = event_state D (cfg_relay (as_config st)) x (as_store st) \<Longrightarrow>
     store_effect spare x \<Longrightarrow> one_event D (store_effect spare) st st'"
  unfolding one_event_def by blast

lemma flight_next_effect:
  assumes step: "flight_next F E D f st = (f', st')" and ok: "flight_ok f"
  shows "one_event D (store_effect (flight_spare f)) st st' \<and> flight_ok f'
    \<and> (\<forall>r key deadline. flight_spares r key deadline f \<longrightarrow> flight_spares r key deadline f')"
proof (cases f)
  case (Arrived env req)
  show ?thesis
  proof (cases "route_label req = None \<or> \<not> lim_enabled (as_limiter st)")
    case True
    then have "f' = Admitted env req" "st' = st" using step by (simp_all add: Arrived)
    then show ?thesis using ok by (simp add: Arrived one_event_same)
  next
    case False
    then have "charge_global env req st = (f', st')" using step by (auto simp: Arrived)
    note frame = charge_frame [OF disjI1 [OF this]]
    then show ?thesis using ok by (simp add: Arrived one_event_same)
  qed
next
  case (Charged env req glob)
  then have "charge_endpoint F env req glob (opt_or [] (route_label req)) st = (f', st')" using step by simp
  note frame = charge_frame [OF disjI2 [OF this]]
  then show ?thesis using ok by (simp add: Charged one_event_same)
next
  case (Admitted env req)
  then show ?thesis
    using step ok admit_frame [of F E env req st f' st'] by (auto intro!: one_event_same)
next
  case (Pushing msg)
  obtain res s' where p: "op_push D (as_store st) msg (cfg_relay (as_config st)) = (res, s')" by fastforce
  then show ?thesis
    using step ok by (auto simp: Pushing store_effect_def intro!: store_effect_call [of _ _ _ "EvPush msg"])
next
  case (Pulling q cur limit now)
  obtain res s' where p: "op_pull D (as_store st) q cur limit now = (res, s')" by fastforce
  then show ?thesis
    using step ok
    by (auto simp: Pulling store_effect_def live_def intro!: store_effect_call [of _ _ _ "EvPull q cur limit now"])
next
  case (Acking q items)
  obtain res s' where p: "op_ack D (as_store st) q items = (res, s')" by fastforce
  then show ?thesis
    using step ok
    by (auto simp: Acking store_effect_def acked_def intro!: store_effect_call [of _ _ _ "EvAck q items"])
next
  case (Pushed res)
  then show ?thesis
    using step by (cases res) (auto simp: failed_def answer_push_def Let_def intro!: one_event_same)
next
  case (Pulled res)
  then show ?thesis using step by (cases res) (auto simp: failed_def answer_pull_def intro!: one_event_same)
next
  case (Acked res)
  then show ?thesis using step by (cases res) (auto simp: failed_def answer_ack_def intro!: one_event_same)
next
  case (Answered r)
  then show ?thesis using step by (auto intro!: one_event_same)
qed

text \<open>What one event does: it is at most one event of the store, and no request turns to another message.\<close>

definition step_spare :: "flight_event \<Rightarrow> flight list \<Rightarrow> string \<Rightarrow> queue_message \<Rightarrow> bool" where
  "step_spare e fs r m \<longleftrightarrow> (\<forall>f\<in>set fs. flight_spare f r m) \<and> event_spares r (msg_key m) (qm_deadline_ms m) e"

lemma gc_tick_event: "one_event D (\<lambda>x. x = EvPurge (now_millis system) 1024) st (gc_tick F D system st)"
  by (auto simp: one_event_def gc_tick_def Let_def split: prod.splits sum.splits)

lemma flight_step_effect:
  assumes step: "flight_step F E D e (fs, st) = (fs', st')" and ok: "event_fine e" "\<forall>f\<in>set fs. flight_ok f"
  shows "one_event D (store_effect (step_spare e fs)) st st' \<and> (\<forall>f\<in>set fs'. flight_ok f)
    \<and> (\<forall>r m. step_spare e fs r m \<longrightarrow> (\<forall>f\<in>set fs'. flight_spare f r m))"
proof (cases e)
  case (Arrives env req)
  then show ?thesis
    using step ok by (auto simp: event_fine_def step_spare_def event_spares_def intro: one_event_same)
next
  case (Collects system)
  have "one_event D (store_effect (step_spare e fs)) st (gc_tick F D system st)"
    by (rule one_event_mono [OF gc_tick_event])
      (simp add: store_effect_def step_spare_def event_spares_def Collects live_def)
  then show ?thesis using step ok by (auto simp: Collects step_spare_def)
next
  case (Moves i)
  show ?thesis
  proof (cases "i < length fs")
    case True
    obtain f st1 where move: "flight_next F E D (fs ! i) st = (f, st1)" by fastforce
    have eq: "fs' = fs[i := f]" "st' = st1" using step True move by (simp_all add: Moves)
    have i: "fs ! i \<in> set fs" using True by simp
    note effect = flight_next_effect [OF move] 
    have "one_event D (store_effect (step_spare e fs)) st st1"
      by (rule one_event_mono [OF conjunct1 [OF effect]]) (use ok i in \<open>auto simp: store_effect_def step_spare_def\<close>)
    moreover have "x = f \<or> x \<in> set fs" if "x \<in> set fs'" for x
      using that set_update_subset_insert [of fs i f] unfolding eq by blast
    ultimately show ?thesis
      using effect ok i unfolding eq(2) step_spare_def by blast
  next
    case False
    then show ?thesis using step ok by (auto simp: Moves step_spare_def intro: one_event_same)
  qed
qed

lemma flight_run_events:
  assumes "flight_run F E D es (fs, st) = (fs', st')" and "\<forall>e\<in>set es. event_fine e" and "\<forall>f\<in>set fs. flight_ok f"
  shows "\<exists>evs. length evs \<le> length es \<and> as_config st' = as_config st
    \<and> as_store st' = run_events D (cfg_relay (as_config st)) evs (as_store st)
    \<and> (\<forall>x\<in>set evs. event_ok x) \<and> (\<forall>f\<in>set fs'. flight_ok f)
    \<and> (\<forall>r m. (\<forall>f\<in>set fs. flight_spare f r m) \<longrightarrow> (\<forall>e\<in>set es. event_spares r (msg_key m) (qm_deadline_ms m) e) \<longrightarrow>
         (\<forall>x\<in>set evs. spares r m x))"
  using assms
proof (induction es arbitrary: fs st)
  case Nil
  then show ?case by (intro exI [of _ "[]"]) simp
next
  case (Cons e es)
  obtain fs1 st1 where step: "flight_step F E D e (fs, st) = (fs1, st1)" by fastforce
  have run: "flight_run F E D es (fs1, st1) = (fs', st')" using Cons.prems(1) step by simp
  have fine: "event_fine e" "\<forall>e\<in>set es. event_fine e" using Cons.prems(2) by simp_all
  note effect = flight_step_effect [OF step fine(1) Cons.prems(3)]
  then have ok1: "\<forall>f\<in>set fs1. flight_ok f" by blast
  obtain evs where evs: "length evs \<le> length es" "as_config st' = as_config st1"
      "as_store st' = run_events D (cfg_relay (as_config st1)) evs (as_store st1)"
      "\<forall>x\<in>set evs. event_ok x" "\<forall>f\<in>set fs'. flight_ok f"
      "\<And>r m. \<forall>f\<in>set fs1. flight_spare f r m \<Longrightarrow> \<forall>e\<in>set es. event_spares r (msg_key m) (qm_deadline_ms m) e \<Longrightarrow>
         \<forall>x\<in>set evs. spares r m x"
    using Cons.IH [OF run fine(2) ok1] by blast
  have cfg: "as_config st1 = as_config st" using effect by (simp add: one_event_def)
  have spare: "\<forall>x\<in>set evs. spares r m x" if "step_spare e fs r m" "\<forall>e\<in>set es. event_spares r (msg_key m) (qm_deadline_ms m) e" for r m
    using evs(6) effect that by blast
  consider "as_store st1 = as_store st"
    | x where "store_effect (step_spare e fs) x" "as_store st1 = event_state D (cfg_relay (as_config st)) x (as_store st)"
    using effect unfolding one_event_def by blast
  then show ?case
  proof cases
    case 1
    then show ?thesis using evs(1-5) cfg spare by (intro exI [of _ evs]) (simp add: step_spare_def)
  next
    case 2
    then show ?thesis
      using evs(1-5) cfg spare by (intro exI [of _ "x # evs"]) (simp add: step_spare_def store_effect_def)
  qed
qed

section \<open>A push among other requests\<close>

text \<open>A flight of the push of \<open>body\<close>, and when it holds that the message was stored.\<close>

fun push_flight ::
  "'x externals_scheme \<Rightarrow> relay_limits \<Rightarrow> request_env \<Rightarrow> push_request \<Rightarrow> flight \<Rightarrow> bool" where
  "push_flight E limits env body (Arrived e req) = (e = env \<and> req = PostPush body)"
| "push_flight E limits env body (Charged e req ok) = (e = env \<and> req = PostPush body)"
| "push_flight E limits env body (Admitted e req) = (e = env \<and> req = PostPush body)"
| "push_flight E limits env body (Pushing msg) =
     (build_inbound_message E body limits (now_millis (env_system env)) = Inr msg)"
| "push_flight E limits env body (Pushed res) = True"
| "push_flight E limits env body (Answered r) = True"
| "push_flight E limits env body _ = False"

fun says_stored :: "flight \<Rightarrow> bool" where
  "says_stored (Pushed (Inr ps)) = ps_stored ps"
| "says_stored (Answered (Some (code, PushBody resp))) = pp_stored resp"
| "says_stored _ = False"

lemma says_stored_failed [simp]: "\<not> says_stored (failed e)" "push_flight E limits env body (failed e)"
  by (simp_all add: failed_def split: prod.splits)

lemma charge_push:
  assumes "charge_global env (PostPush body) st = (f, st') \<or> charge_endpoint F env (PostPush body) ok label st = (f, st')"
  shows "push_flight E limits env body f \<and> \<not> says_stored f"
  using assms by (auto simp: charge_global_def charge_endpoint_def Let_def split: prod.splits option.splits if_splits)

lemma push_flight_next:
  assumes step: "flight_next F E D f st = (f', st')" and f: "push_flight E (cfg_relay (as_config st)) env body f"
  shows "push_flight E (cfg_relay (as_config st)) env body f'
    \<and> (says_stored f' \<longrightarrow> says_stored f \<or>
        (\<exists>msg ps. build_inbound_message E body (cfg_relay (as_config st)) (now_millis (env_system env)) = Inr msg
           \<and> op_push D (as_store st) msg (cfg_relay (as_config st)) = (Inr ps, as_store st') \<and> ps_stored ps))"
proof (cases f)
  case (Arrived e req)
  show ?thesis
  proof (cases "lim_enabled (as_limiter st)")
    case True
    then have "charge_global env (PostPush body) st = (f', st')" using step f by (simp add: Arrived)
    from charge_push [OF disjI1 [OF this]] show ?thesis by blast
  next
    case False
    then have "f' = Admitted env (PostPush body)" using step f by (simp add: Arrived)
    then show ?thesis by simp
  qed
next
  case (Charged e req ok)
  then have "charge_endpoint F env (PostPush body) ok ''push'' st = (f', st')"
    using step f by (simp add: opt_or_def)
  from charge_push [OF disjI2 [OF this]] show ?thesis by blast
next
  case (Admitted e req)
  then show ?thesis using step f by (auto simp: Let_def split: sum.splits)
next
  case (Pushing msg)
  obtain res s' where p: "op_push D (as_store st) msg (cfg_relay (as_config st)) = (res, s')" by fastforce
  then show ?thesis using step f by (cases res) (auto simp: Pushing)
next
  case (Pushed res)
  then show ?thesis using step by (cases res) (auto simp: answer_push_def Let_def)
qed (use step f in auto)

text \<open>What a client receives of the body.\<close>

definition pushed_item :: "relay_config \<Rightarrow> request_env \<Rightarrow> push_request \<Rightarrow> delivery_item" where
  "pushed_item cfg env body =
     \<lparr>di_recipient = pq_recipient body, di_message_id = pq_message_id body,
      di_ciphertext_b64 = pq_ciphertext_b64 body, di_meta = pq_meta body, di_arrival_ms = now_millis (env_system env),
      di_deadline_ms = sat_add (now_millis (env_system env)) (sat_mul (message_ttl_seconds (cfg_relay cfg)) 1000)\<rparr>"

definition item_key :: "delivery_item \<Rightarrow> dedup_key" where
  "item_key item = (di_message_id item, mm_chunk_index (di_meta item))"

lemma to_delivery_key: "to_delivery m = item \<Longrightarrow> msg_key m = item_key item \<and> qm_deadline_ms m = di_deadline_ms item"
  by (auto simp: item_key_def to_delivery_def msg_key_def)

lemma to_delivery_pushed:
  "build_inbound_message E body (cfg_relay cfg) (now_millis (env_system env)) = Inr msg \<Longrightarrow>
     to_delivery (stored_message msg n) = pushed_item cfg env body"
  by (auto simp: build_inbound_message_Inr to_delivery_def pushed_item_def)

lemma to_delivery_surj: "\<exists>m. to_delivery m = item"
  by (rule exI [of _ "\<lparr>qm_recipient = di_recipient item, qm_message_id = di_message_id item,
      qm_ciphertext_b64 = di_ciphertext_b64 item, qm_meta = di_meta item, qm_arrival_ms = di_arrival_ms item,
      qm_deadline_ms = di_deadline_ms item, qm_payload_bytes = 0, qm_arrival_seq = 0\<rparr>"]) (simp add: to_delivery_def)

text \<open>
  The invariant of a run after the push arrived as flight \<open>i\<close>: nothing in flight touches its
  message, and once the flight says so, the message is in the mailbox.
\<close>

definition push_inv ::
  "('s \<Rightarrow> bool) \<Rightarrow> ('s \<Rightarrow> string \<Rightarrow> mailbox) \<Rightarrow> 'x externals_scheme \<Rightarrow> relay_config \<Rightarrow> request_env \<Rightarrow> push_request
     \<Rightarrow> nat \<Rightarrow> nat \<Rightarrow> flight list \<Rightarrow> 's app_state \<Rightarrow> bool" where
  "push_inv good box E cfg env body i k fs st \<longleftrightarrow>
     good (as_store st) \<and> (\<forall>q. addressable q \<longrightarrow> unat (fst (box (as_store st) q)) \<le> k) \<and> as_config st = cfg
   \<and> (\<forall>f\<in>set fs. flight_ok f \<and> flight_spares (pq_recipient body) (item_key (pushed_item cfg env body))
        (di_deadline_ms (pushed_item cfg env body)) f)
   \<and> i < length fs \<and> push_flight E (cfg_relay cfg) env body (fs ! i)
   \<and> (says_stored (fs ! i) \<longrightarrow>
        (\<exists>m\<in>set (snd (box (as_store st) (pq_recipient body))). to_delivery m = pushed_item cfg env body))"

lemma flight_step_nth:
  assumes "flight_step F E D e (fs, st) = (fs', st')" and "i < length fs"
  shows "i < length fs' \<and> (fs' ! i = fs ! i \<or> e = Moves i \<and> flight_next F E D (fs ! i) st = (fs' ! i, st'))"
  using assms by (cases e) (auto simp: nth_append nth_list_update split: if_splits prod.splits)

context relay_service
begin

text \<open>One event of the run: the store's invariant, its counters, and the messages that are spared.\<close>

lemma flight_step_keeps:
  assumes "inv (as_store st)" and "\<forall>q. addressable q \<longrightarrow> unat (fst (box (as_store st) q)) \<le> k" and k: "k + 1 < 2 ^ 64 - 1"
    and lim: "max_queue_bytes_per_user (cfg_relay (as_config st)) \<noteq> - 1" and r: "addressable r"
    and e: "event_fine e" "\<forall>f\<in>set fs. flight_ok f" and step: "flight_step F E D e (fs, st) = (fs', st')"
  shows "inv (as_store st') \<and> (\<forall>q. addressable q \<longrightarrow> unat (fst (box (as_store st') q)) \<le> Suc k)
    \<and> as_config st' = as_config st
    \<and> (\<forall>m. step_spare e fs r m \<longrightarrow> m \<in> set (snd (box (as_store st) r)) \<longrightarrow> m \<in> set (snd (box (as_store st') r)))"
proof -
  let ?limits = "cfg_relay (as_config st)"
  have one: "one_event D (store_effect (step_spare e fs)) st st'" using flight_step_effect [OF step e] by blast
  then have cfg: "as_config st' = as_config st" by (simp add: one_event_def)
  consider "as_store st' = as_store st"
    | x where "store_effect (step_spare e fs) x" "as_store st' = run_events D ?limits [x] (as_store st)"
    using one unfolding one_event_def by auto
  then show ?thesis
  proof cases
    case 1
    then show ?thesis using assms(1,2) cfg by (simp add: le_SucI)
  next
    case (2 x)
    have "event_ok x" using 2(1) by (simp add: store_effect_def)
    with run_from [OF assms(1,2) _ lim, of "[x]"] k
    show ?thesis using 2 r cfg unfolding 2(2) by (auto simp: store_effect_def)
  qed
qed

lemma push_inv_step:
  assumes pi: "push_inv inv box E cfg env body i k fs st" and k: "k + 1 < 2 ^ 64 - 1"
    and lim: "max_queue_bytes_per_user (cfg_relay cfg) \<noteq> - 1" and r: "addressable (pq_recipient body)"
    and e: "event_fine e" "event_spares (pq_recipient body) (item_key (pushed_item cfg env body))
        (di_deadline_ms (pushed_item cfg env body)) e"
    and step: "flight_step F E D e (fs, st) = (fs', st')"
  shows "push_inv inv box E cfg env body i (Suc k) fs' st'"
proof -
  let ?r = "pq_recipient body" and ?item = "pushed_item cfg env body"
  let ?kept = "\<exists>m\<in>set (snd (box (as_store st') ?r)). to_delivery m = ?item"
  have cfg: "as_config st = cfg" and store: "inv (as_store st)" "\<forall>q. addressable q \<longrightarrow> unat (fst (box (as_store st) q)) \<le> k"
    and fs: "\<forall>f\<in>set fs. flight_ok f" and i: "i < length fs" and track: "push_flight E (cfg_relay (as_config st)) env body (fs ! i)"
    using pi by (auto simp: push_inv_def)
  have spare: "step_spare e fs ?r m" if "to_delivery m = ?item" for m
    using pi e(2) to_delivery_key [OF that] by (simp add: step_spare_def push_inv_def)
  note keeps = flight_step_keeps [OF store k _ r e(1) fs step, unfolded cfg, OF lim]
  have flights: "\<forall>f\<in>set fs'. flight_ok f \<and> flight_spares ?r (item_key ?item) (di_deadline_ms ?item) f"
  proof -
    obtain m where m: "to_delivery m = ?item" using to_delivery_surj by blast
    show ?thesis
      using flight_step_effect [OF step e(1) fs] spare [OF m] unfolding to_delivery_key [OF m, THEN conjunct1, symmetric]
        to_delivery_key [OF m, THEN conjunct2, symmetric] by blast
  qed
  have before: ?kept if "says_stored (fs ! i)" using pi that keeps spare by (auto simp: push_inv_def)
  have stored: ?kept if "build_inbound_message E body (cfg_relay cfg) (now_millis (env_system env)) = Inr msg"
    "op_push D (as_store st) msg (cfg_relay cfg) = (Inr ps, as_store st')" "ps_stored ps" for msg ps
  proof -
    have msg: "im_recipient msg = ?r" using that(1) by (auto simp: build_inbound_message_Inr)
    have "fst (box (as_store st) ?r) \<noteq> - 1" using store(2) k r by (force simp: unat_max_word)
    then show ?thesis
      using stored_in_box_inv [OF store(1) _ lim _ that(2,3)] to_delivery_pushed [OF that(1)] r by (auto simp: msg)
  qed
  consider "fs' ! i = fs ! i" | "flight_next F E D (fs ! i) st = (fs' ! i, st')"
    using flight_step_nth [OF step i] by blast
  then have "push_flight E (cfg_relay cfg) env body (fs' ! i) \<and> (says_stored (fs' ! i) \<longrightarrow> ?kept)"
  proof cases
    case 1
    then show ?thesis using before track cfg by simp
  next
    case 2
    show ?thesis using push_flight_next [OF 2 track] before stored unfolding cfg by blast
  qed
  then show ?thesis
    using keeps flights flight_step_nth [OF step i] by (simp add: push_inv_def)
qed

lemma push_inv_run:
  assumes "push_inv inv box E cfg env body i k fs st" and "k + length es < 2 ^ 64 - 1"
    and lim: "max_queue_bytes_per_user (cfg_relay cfg) \<noteq> - 1" and r: "addressable (pq_recipient body)"
    and "\<forall>e\<in>set es. event_fine e \<and> event_spares (pq_recipient body) (item_key (pushed_item cfg env body))
        (di_deadline_ms (pushed_item cfg env body)) e"
    and "flight_run F E D es (fs, st) = (fs', st')"
  shows "push_inv inv box E cfg env body i (k + length es) fs' st'"
  using assms(1,2,5,6)
proof (induction es arbitrary: k fs st)
  case (Cons e es)
  obtain fs1 st1 where step: "flight_step F E D e (fs, st) = (fs1, st1)" by fastforce
  have "push_inv inv box E cfg env body i (Suc k) fs1 st1"
    using Cons.prems(2,3) by (intro push_inv_step [OF Cons.prems(1) _ lim r _ _ step]) auto
  from Cons.IH [OF this] show ?case using Cons.prems(2-4) step by simp
qed simp

text \<open>Delivery, whatever the interleaving.\<close>

lemma flights_deliver:
  assumes start: "start_with_store F cfg t init = Inr st0" and lim: "max_queue_bytes_per_user (cfg_relay cfg) \<noteq> - 1"
    and before: "flight_run F E D before ([], st0) = (fs, st)" "\<forall>e\<in>set before. event_fine e"
    and r: "addressable (pq_recipient body)" and item: "item = pushed_item cfg env body"
    and fs: "\<forall>f\<in>set fs. flight_spares (pq_recipient body) (item_key item) (di_deadline_ms item) f"
    and es: "\<forall>e\<in>set es. event_fine e \<and> event_spares (pq_recipient body) (item_key item) (di_deadline_ms item) e"
    and run: "flight_run F E D es (fs @ [Arrived env (PostPush body)], st) = (gs, st2)"
    and answer: "gs ! length fs = Answered (Some (200, PushBody resp))" "pp_stored resp"
    and len: "length before + length es < 2 ^ 64 - 1" and now: "now < di_deadline_ms item" and limit: "0 < limit"
  shows "\<exists>fuel items s'. drain D (pq_recipient body) limit now fuel None (as_store st2) = Some (items, s')
    \<and> item \<in> to_delivery ` set items"
proof -
  let ?r = "pq_recipient body"
  have st0: "as_store st0 = init" "as_config st0 = cfg" using start_with_store_sel [OF start] by simp_all
  obtain evs where evs: "length evs \<le> length before" "as_config st = cfg" "as_store st = run_events D (cfg_relay cfg) evs init"
      "\<forall>x\<in>set evs. event_ok x" "\<forall>f\<in>set fs. flight_ok f"
    using flight_run_events [OF before] by (auto simp: st0)
  have "reached D (cfg_relay cfg) init (0 + length evs) (as_store st)"
    unfolding evs(3) by (rule reached_run [OF reached.start evs(4)])
  from reached_inv [OF this _ lim] evs(1) len
  have store: "inv (as_store st)" "\<forall>q. addressable q \<longrightarrow> unat (fst (box (as_store st) q)) \<le> length before"
    by fastforce+
  have "push_inv inv box E cfg env body (length fs) (length before) (fs @ [Arrived env (PostPush body)]) st"
    using store evs(2,5) fs r by (auto simp: push_inv_def item)
  from push_inv_run [OF this len lim r es [unfolded item] run] answer
  obtain m where inv: "inv (as_store st2)" and m: "m \<in> set (snd (box (as_store st2) ?r))" "to_delivery m = item"
    by (auto simp: push_inv_def item)
  have "live now m" using now to_delivery_key [OF m(2)] by (simp add: live_def)
  then show ?thesis using drain_complete [OF inv r limit, of now] m by fastforce
qed

end

end
