(* ===== verification/Flight_Props.thy ===== *)
theory Flight_Props
  imports Flights Sled_Props
begin

text \<open>
  Delivery with requests in flight on both backends: the pushes, pulls, acknowledgements and
  collections of other clients may move between any two accesses of a push to what they share.
\<close>

section \<open>Delivery\<close>

theorem interleaved_delivers_mem:
  assumes "cursor_codec E" and "start_with_store F cfg t mem_new = Inr st0"
    and "max_queue_bytes_per_user (cfg_relay cfg) \<noteq> u64_max"
    and "flight_run F E (mem_ops E) before ([], st0) = (fs, st)" and "\<forall>e\<in>set before. event_fine e"
    and "addressable (pq_recipient body)" and "item = pushed_item cfg env body"
    and "\<forall>f\<in>set fs. flight_spares (pq_recipient body) (item_key item) (di_deadline_ms item) f"
    and "\<forall>e\<in>set es. event_fine e \<and> event_spares (pq_recipient body) (item_key item) (di_deadline_ms item) e"
    and "flight_run F E (mem_ops E) es (fs @ [Arrived env (PostPush body)], st) = (gs, st2)"
    and "gs ! length fs = Answered (Some (200, PushBody resp))" and "pp_stored resp"
    and "length before + length es < 2 ^ 64 - 1" and "now < di_deadline_ms item" and "0 < limit"
  shows "\<exists>fuel items s'. drain (mem_ops E) (pq_recipient body) limit now fuel None (as_store st2) = Some (items, s')
    \<and> item \<in> to_delivery ` set items"
  by (rule relay_service.flights_deliver [OF mem_service [OF assms(1)] assms(2-15)])

text \<open>
  C3. Delivery among concurrent requests. From a relay started on new trees, let requests arrive
  and move in any order, one access to the limiter, the counters or the store at a time, with
  collections in between. A push whose answer says \<open>stored\<close> was stored: a client that
  follows the cursors receives its id, ciphertext, metadata and times, unless an
  acknowledgement that was in flight when it arrived, or arrived later, names the message, or a
  pull of the recipient or a collection runs at or past its deadline.
\<close>

theorem interleaved_delivers_sled:
  assumes "sled_backend T view ok C" and "cursor_codec E"
    and "start F cfg t mem (sled_new open_db open_tree) = Inr (Inr st0)"
    and "\<forall>db name u. open_tree db name = Inr u \<longrightarrow> ok u \<and> view u = []"
    and "max_queue_bytes_per_user (cfg_relay cfg) \<noteq> u64_max"
    and "flight_run F E (sled_ops E T C) before ([], st0) = (fs, st)" and "\<forall>e\<in>set before. event_fine e"
    and "addressable (pq_recipient body)" and "item = pushed_item cfg env body"
    and "\<forall>f\<in>set fs. flight_spares (pq_recipient body) (item_key item) (di_deadline_ms item) f"
    and "\<forall>e\<in>set es. event_fine e \<and> event_spares (pq_recipient body) (item_key item) (di_deadline_ms item) e"
    and "flight_run F E (sled_ops E T C) es (fs @ [Arrived env (PostPush body)], st) = (gs, st2)"
    and "gs ! length fs = Answered (Some (200, PushBody resp))" and "pp_stored resp"
    and "length before + length es < 2 ^ 64 - 1" and "now < di_deadline_ms item" and "0 < limit"
  shows "\<exists>fuel items s'. drain (sled_ops E T C) (pq_recipient body) limit now fuel None (as_store st2) = Some (items, s')
    \<and> item \<in> to_delivery ` set items"
proof -
  obtain s where s: "sled_new open_db open_tree (sc_path (cfg_storage cfg)) = Inr s"
    and st0: "start_with_store F cfg t s = Inr st0"
    using assms(3) by (auto simp: start_def res_bind_Inr_iff split: storage_kind.splits if_splits)
  note service = sled_opened.service [OF sled_new_opened [OF assms(1) s assms(4)] assms(2)]
  show ?thesis by (rule relay_service.flights_deliver [OF service st0 assms(5-17)])
qed

text \<open>
  The push among the steps of a second one, which is about to reach the store when the first is
  answered.
\<close>

definition sample_moves :: "flight_event list" where
  "sample_moves = [Moves 0, Arrives sample_env (PostPush (sample_body 2)), Moves 1, Moves 0, Moves 1, Moves 0, Moves 0]"

lemma sample_flights:
  "\<exists>gs st2 resp. flight_run default_features std_externals std_ops sample_moves
      ([Arrived sample_env (PostPush (sample_body 1))], sample_sled_start) = (gs, st2)
    \<and> gs ! 0 = Answered (Some (200, PushBody resp)) \<and> pp_stored resp"
proof -
  obtain resp st1 where "push_handler default_features std_externals std_ops sample_env (sample_body 1) sample_sled_start
      = (Some (Inr resp), st1)" "pp_stored resp"
    using sample_sled_stored by blast
  from push_handler_stored [OF this] obtain m res where
    m: "build_inbound_message std_externals (sample_body 1) (cfg_relay (as_config sample_sled_start)) (now_millis (env_system sample_env)) = Inr m"
    and op: "op_push std_ops (as_store sample_sled_start) m (cfg_relay (as_config sample_sled_start)) = (Inr res, as_store st1)"
    and res: "ps_stored res" by blast
  obtain m2 where m2: "build_inbound_message std_externals (sample_body 2) (cfg_relay (as_config sample_sled_start))
      (now_millis (env_system sample_env)) = Inr m2"
    by (simp add: build_inbound_message_def sample_body_def sample_body_trim sample_decode sample_meta_def
        sample_started_def sample_sled_cfg_def sample_cfg_def config_default_def Let_def)
  have off: "\<not> lim_enabled (as_limiter sample_sled_start)" by (simp add: sample_started_def limiter_new_def)
  have count: "count default_features f st = st" for f and st :: "'s app_state"
    by (simp add: count_def metered_def default_features_def)
  show ?thesis
    using res by (simp add: sample_moves_def off m m2 op count answer_push_def Let_def)
qed

theorem interleaved_delivers_sled_witness:
  "\<exists>gs st2 fuel items s'. flight_run default_features std_externals std_ops sample_moves
      ([Arrived sample_env (PostPush (sample_body 1))], sample_sled_start) = (gs, st2)
    \<and> drain std_ops ''alice'' 1 1500 fuel None (as_store st2) = Some (items, s')
    \<and> (\<exists>m\<in>set items. qm_message_id m = 1 \<and> qm_ciphertext_b64 m = ''QUJD'')"
proof -
  obtain gs st2 resp where run: "flight_run default_features std_externals std_ops sample_moves
      ([] @ [Arrived sample_env (PostPush (sample_body 1))], sample_sled_start) = (gs, st2)"
    and answer: "gs ! length ([] :: flight list) = Answered (Some (200, PushBody resp))" "pp_stored resp"
    using sample_flights by auto
  have fresh: "\<forall>db name u. std_open_tree db name = Inr u \<longrightarrow> bt_ok u \<and> u = []"
    by (simp add: std_open_tree_def bt_ok_def)
  have lim: "max_queue_bytes_per_user (cfg_relay sample_sled_cfg) \<noteq> u64_max"
    by (simp add: sample_sled_cfg_def sample_cfg_def config_default_def)
  have body: "pq_recipient (sample_body 1) = ''alice''" "pq_recipient (sample_body 2) = ''alice''"
    by (simp_all add: sample_body_def)
  have none: "\<forall>e\<in>set ([] :: flight_event list). event_fine e"
    "\<forall>f\<in>set ([] :: flight list). flight_spares (pq_recipient (sample_body 1)) k d f" for k d by simp_all
  let ?item = "pushed_item sample_sled_cfg sample_env (sample_body 1)"
  have fine: "\<forall>e\<in>set sample_moves. event_fine e
      \<and> event_spares (pq_recipient (sample_body 1)) (item_key ?item) (di_deadline_ms ?item) e"
    using sample_addressable by (simp add: sample_moves_def event_fine_def event_spares_def body)
  have rest: "length ([] :: flight_event list) + length sample_moves < 2 ^ 64 - 1" "(1500 :: u64) < di_deadline_ms ?item" "(0 :: u64) < 1"
    by (simp_all add: sample_moves_def pushed_item_def sample_now sample_sled_cfg_def sample_cfg_def config_default_def sat_add_def sat_mul_def)
  have start: "flight_run default_features std_externals std_ops [] ([], sample_sled_start) = ([], sample_sled_start)" by simp
  have adr: "addressable (pq_recipient (sample_body 1))" using sample_addressable body by simp
  obtain fuel items s' where d: "drain std_ops ''alice'' 1 1500 fuel None (as_store st2) = Some (items, s')"
    and i: "?item \<in> to_delivery ` set items"
    using interleaved_delivers_sled [OF std_sled.sled_backend_axioms std.cursor_codec_axioms sample_sled_start_eq fresh lim start
        none(1) adr refl none(2) fine run answer rest] unfolding body by blast
  then have "\<exists>m\<in>set items. qm_message_id m = 1 \<and> qm_ciphertext_b64 m = ''QUJD''"
    by (auto simp: pushed_item_def to_delivery_def sample_body_def)
  with run d show ?thesis by auto
qed

end
