(* ===== verification/Spec2Isabelle.thy ===== *)
theory Spec2Isabelle
  imports Sled_Props Launch Tasks_Props Race_Props Reply_Types Flight_Props
begin

text \<open>
  Verification of the Enigma relay, a store-and-forward server: clients push messages for a
  recipient, the recipient pulls them page after page and acknowledges them, and a collector
  removes what has expired. The source is the Rust crate under \<open>src/\<close>; every definition is
  translated from it, and file and function names below are those of the crate.

  \<^bold>\<open>Parts and how they interact.\<close> A request reaches a handler of \<open>server.rs\<close>; the handler asks
  the rate limiter, checks the body, calls one operation of the store and turns the result into
  a response or an error body (\<open>error.rs\<close>). The store is one of two backends behind the trait
  \<open>RelayStore\<close> (\<open>store.rs\<close>): \<open>store_mem.rs\<close> or \<open>store_sled.rs\<close>. The collector of
  \<open>ttl.rs\<close> calls the store's purge at every tick. \<open>config.rs\<close> says how large everything may
  be, \<open>metrics.rs\<close> counts, \<open>model.rs\<close> holds the bodies on the wire.

  \<^bold>\<open>Theories.\<close>
  \<^item> \<open>Prelude\<close>: the integer widths (\<open>u64\<close>, \<open>u32\<close>, \<open>uuid\<close> as words, \<open>usize\<close> as numbers for lengths
    and batch sizes), saturating arithmetic, the result type and its \<open>?\<close> operator \<open>res_bind\<close>.
  \<^item> \<open>Rust_Text\<close>: what the crate uses of Rust's strings, on UTF-8 bytes: validity, lossy reading,
    trimming, splitting, decimal formatting with leading zeros and parsing.
  \<^item> \<open>Ordered_Map\<close>: the contract of an ordered map (locale \<open>ordered_map\<close>) and the model \<open>btree\<close> of
    \<open>BTreeMap\<close>, its interpretation.
  \<^item> \<open>Relay_Error\<close> (\<open>error.rs\<close>), \<open>Relay_Config\<close> (\<open>config.rs\<close> and the features of \<open>Cargo.toml\<close>),
    \<open>Relay_Model\<close> (\<open>model.rs\<close>), \<open>Metrics\<close> (\<open>metrics.rs\<close>).
  \<^item> \<open>Relay_Store\<close> (\<open>store.rs\<close>): messages, results, the trait as the record \<open>store_ops\<close> of operations
    that return a result and the store they leave, and the cursors (locale \<open>cursor_codec\<close>).
  \<^item> \<open>Relay_Spec\<close> and \<open>Relay_Contract\<close>: the abstract specification. A mailbox is the next sequence
    number and the queue of a recipient; \<open>spec_push\<close>, \<open>spec_batch\<close>, \<open>ack_box\<close>, \<open>spec_ack\<close> and
    \<open>expiry_step\<close> say what the operations do to it. The locales \<open>relay_store\<close> (one operation),
    \<open>relay_system\<close> (reachable states), \<open>relay_paging\<close> and the weaker \<open>relay_pages\<close> (cursors) and
    \<open>relay_service\<close> (all of it) prove once what a client may rely on.
  \<^item> \<open>Store_Mem\<close> (\<open>store_mem.rs\<close>), \<open>Mem_Refine\<close>, \<open>Mem_Contract\<close>, \<open>Mem_Props\<close>: the in-memory backend, as
    functions of the map its mutex guards; the invariant that ties queue, index and quota
    together; the interpretation of the contract; its properties.
  \<^item> \<open>Sled_Keys\<close>, \<open>Store_Sled\<close> (\<open>store_sled.rs\<close>): keys, integers and the four operations of the
    persistent backend, each call of the tree library fallible. \<open>Sled_Inv\<close>, \<open>Sled_Push\<close>,
    \<open>Sled_Pull\<close>, \<open>Sled_Ack\<close> and \<open>Sled_Purge\<close> prove, in the locale \<open>sled_backend\<close>, that the
    operations keep the invariant of the four trees and implement the specification;
    \<open>Sled_Contract\<close> makes it a \<open>relay_system\<close> (\<open>sublocale\<close>); \<open>Std_Sled\<close> is a reference
    instance of the libraries; \<open>Sled_Props\<close> has the properties and the agreement of both backends.
  \<^item> \<open>Sled_Disk\<close>: what of the trees is on disk. A flush that succeeds puts there what its tree holds
    (locale \<open>sled_disk\<close>); every operation leaves the store on disk, and trees opened from the disk
    are the store again. \<open>std_disk_tree\<close>, a tree in memory beside its copy on disk, is its instance.
  \<^item> \<open>Purge_Steps\<close> takes the purge of the persistent backend call by call (\<open>purge_next\<close>), since it is
    the one operation that is not atomic; in one piece it is the purge of \<open>Store_Sled\<close>
    (\<open>purge_in_steps\<close>). \<open>Purge_Race\<close> lets pushes and acknowledgements fall
    between its calls (\<open>race_step\<close>) and proves the weaker invariant that survives (\<open>race_inv\<close>: the
    messages and their numbers, not the index and the quotas); the locale \<open>sled_race\<close> gives
    \<open>relay_pages\<close> on it. \<open>Race_Props\<close> has the properties.
  \<^item> \<open>F64\<close>, \<open>Rate_Limiter\<close>, \<open>Rate_Props\<close>: the token buckets of \<open>server.rs\<close>, with IEEE double
    rounding of the token counts and the overflow of the clock.
  \<^item> \<open>Server\<close> (\<open>server.rs\<close>, \<open>ttl.rs\<close>), \<open>Server_Contract\<close>, \<open>Server_Props\<close>: the handlers, the routes, the
    collector and the start; a run of requests and collections as a sequence of operations of
    the store; the properties end to end.
  \<^item> \<open>Flights\<close> (\<open>server.rs\<close>), \<open>Flight_Props\<close>: requests that are handled concurrently. \<open>flight_next\<close> takes a
    handler from one access to shared state to the next (the two buckets of the limiter, the
    counters, the store, the counters), \<open>flight_run\<close> interleaves any number of them with
    collections; in one piece the steps are the handler (\<open>request_in_steps\<close>, a check of one reading of the code against
    the other), and delivery holds in every interleaving.
  \<^item> \<open>Launch\<close> (\<open>server.rs\<close>): the rest of the start, \<open>build_server\<close> and \<open>build_rustls_config\<close>, on
    parameters for the network, the PEM files and rustls.
  \<^item> \<open>Tasks\<close> (\<open>server.rs\<close>, \<open>ttl.rs\<close>), \<open>Tasks_Props\<close>: the tasks \<open>start_with_store\<close> spawns and the shutdown
    signal they share (\<open>spawn_tasks\<close>), their steps as a relation labelled with events (\<open>task_step\<close>),
    the invariant of the tasks and the measure of the steps left until the handle resolves. That a
    task panics or the server fails while it serves may happen at any time, but is an event from
    outside: the end of a shutdown rests only on the signal reaching the collector and the server.
  \<^item> \<open>Reply_Types\<close>: typing rules for the answers (\<open>typed_reply\<close>), and that both backends' answers
    have a type (locale \<open>typed_store\<close>).
  \<^item> \<open>Std_Base64\<close>: the standard base64 alphabet, the instance of \<open>cursor_codec\<close> in the witnesses.

  \<^bold>\<open>What the lemmas show.\<close> Delivery: an accepted message is in the pages of its recipient until it
  is acknowledged or expires, for both backends and over HTTP. Over HTTP the rate limiter, which is
  on by default, may refuse a page: then a client has the message when it comes to the last page,
  however many requests it needs (a page size of zero aside, which is answered 400); that it does
  come there is shown with the limiter off. Invariants: in every reached state the quota and the
  index agree with the queue, which is within the limits, ordered and without duplicates.
  Refinement: push, pull, acknowledgement and purge on each branch, errors included. Equivalence:
  both backends hold the same queues and answer pushes and acknowledgements of distinct items alike,
  and pulls up to \<open>remaining_estimate\<close>, in which sled counts expired messages that the in-memory
  pull has dropped, and to a bad cursor for a recipient never heard of; the order in which a hash
  set is walked does not matter. Bounds: pages, purge batches, what the rate limiter admits in a
  window. Round trips: cursors, keys, integers, the push response. Start and stop: what a relay that
  comes up serves and with which certificates, that a shutdown ends and the handle resolves last,
  that messages survive a restart, also when the relay was killed between two operations. Races:
  which guarantees hold with a purge between the requests, and which do not. Types: the status and
  body of every answer, errors with their literal status and message. The collector: \<open>gc_catches_up\<close>
  holds for any queue up to its first unexpired message, and gives exactly the unexpired ones when
  deadlines do not decrease along it (\<open>mem_purge_shielded\<close> is the other case). The ban: with
  \<open>ban_seconds\<close> zero, which validation accepts, a refused client waits for its next token instead.
  Errors: what a refused or failed request leaves alone.

  \<^bold>\<open>Bounds and fuel.\<close> Reachability counts operations: with fewer than \<open>2 ^ 64 - 1\<close> of them no
  sequence number saturates, which every theorem on reached states assumes. A byte limit of exactly
  \<open>2 ^ 64 - 1\<close> is excluded, since saturating addition cannot exceed it. \<open>drain\<close> and \<open>http_drain\<close>
  take fuel, the number of pulls; one more than the length of the queue is proved to be enough.
  After the shutdown signal the tasks take at most six steps of their own. Recipients are
  \<open>addressable\<close>, valid UTF-8 without a colon, where a cursor or key is made of them; what happens to
  the others is the subject of \<open>cursor_roundtrip\<close> and \<open>sled_colon_recipient\<close>.

  \<^bold>\<open>Parameters and their laws.\<close> Base64 (\<open>cursor_codec\<close>: decoding what was encoded), the text of a
  UUID (\<open>uuid_format\<close>: injective, ASCII, no colon), the JSON of stored values (\<open>sled_codec\<close>: reading
  what was written), the trees of sled (\<open>sled_tree\<close>: an ordered map of bytes whose calls succeed;
  transactions are serialisable and all or nothing), the file reader and TOML parser of the
  configuration, the network and TLS libraries, the clock readings of a request. Durability is the
  law of \<open>sled_disk\<close>: after a flush that returns, the disk holds what the tree held; of a tree that
  was written and not flushed nothing is assumed. A restart opens what is on disk (\<open>opens_disk\<close>);
  the relay before it may have been shut down or killed between two operations. A kill in the middle
  of an operation is not modelled. \<open>sled_failed_write\<close> and \<open>purge_in_steps\<close> need none of the laws:
  their trees may fail at any call.

  \<^bold>\<open>Atomicity.\<close> The mutex of the in-memory store and the transactions of sled make the operations of
  the store atomic; a pull changes nothing that other requests see, and its scan of the persistent
  trees is taken at one instant. Requests are one step each in \<open>Server\<close> and \<open>Tasks\<close>, and one access
  to the limiter, the counters or the store at a time in \<open>Flights\<close>. The purge of the persistent
  store, which is not atomic, is taken call by call in \<open>Purge_Race\<close>, where its iterator may miss or
  repeat entries and see changes; \<open>purge_overwrites_quota\<close> and \<open>purge_unindexes_new\<close> say what an
  operation that falls into it loses.

  \<^bold>\<open>Not modelled.\<close> What sockets, PEM files and rustls do beyond succeeding or failing; the
  scheduler of the runtime, of which \<open>task_step\<close> allows every order; the parsing of HTTP and JSON
  bodies and the compression, done by the framework; \<open>lib.rs\<close>, which only declares modules.
\<close>

end
